(* ===== verification/Agg_Prelude.thy ===== *)
theory Agg_Prelude
  imports Main "HOL-Library.Word" "HOL-Library.Multiset" "HOL-Library.List_Lexorder"
    "HOL-Library.Char_ord" "HOL-Library.More_List" "HOL-Library.Signed_Division"
    "HOL-Library.Code_Target_Nat"
begin

text \<open>
  What the component theories share: the machine integer types, the model of
  \<^verbatim>\<open>std::map\<close> as a strictly sorted association list, the decimal digits of
  \<^verbatim>\<open>std::to_string\<close> and \<^verbatim>\<open>std::isdigit\<close>, the
  ASCII case conversions, and generic lemmas on lists and words.

  Strings are \<^typ>\<open>string\<close>, bytes as \<^typ>\<open>char\<close>; the order of \<^verbatim>\<open>std::string\<close>
  (\<^verbatim>\<open>char_traits::compare\<close>, lexicographic on unsigned bytes) is the order that
  \<open>HOL-Library.List_Lexorder\<close> and \<open>HOL-Library.Char_ord\<close> give to \<^typ>\<open>string\<close>.
\<close>

section \<open>Machine integers\<close>

text \<open>
  \<^verbatim>\<open>std::uint64_t\<close> and \<^verbatim>\<open>std::int64_t\<close> are both 64-bit words; a signed value is
  read with \<^const>\<open>sint\<close> and compared with \<^const>\<open>word_sless\<close>. Arithmetic wraps. For
  unsigned values that is the C++ rule; for signed values it is the two's complement
  result, and the theorems on values state the range in which no signed operation leaves
  the type (where C++ leaves the result undefined).
\<close>

type_synonym u64 = "64 word"
type_synonym i64 = "64 word"
type_synonym u32 = "32 word"

named_theorems omap_simps
named_theorems digit_simps

section \<open>Ordered maps\<close>

text \<open>
  A \<^verbatim>\<open>std::map\<close> is the list of its entries in iteration order: strictly ascending
  keys. \<open>omap_put\<close> is the assignment through \<^verbatim>\<open>operator[]\<close> or an iterator.
\<close>

type_synonym ('k, 'v) omap = "('k \<times> 'v) list"

definition omap_wf :: "('k::linorder, 'v) omap \<Rightarrow> bool" where
  "omap_wf m = sorted_wrt (<) (map fst m)"

fun omap_put :: "'k::linorder \<Rightarrow> 'v \<Rightarrow> ('k, 'v) omap \<Rightarrow> ('k, 'v) omap" where
  "omap_put k v [] = [(k, v)]"
| "omap_put k v ((k', v') # m) =
     (if k < k' then (k, v) # (k', v') # m
      else if k = k' then (k, v) # m
      else (k', v') # omap_put k v m)"

lemma omap_wf_simps [simp]:
  "omap_wf []"
  "omap_wf ((k, v) # m) \<longleftrightarrow> (\<forall>k' \<in> fst ` set m. k < k') \<and> omap_wf m"
  by (auto simp: omap_wf_def)

lemma omap_wf_distinct: "omap_wf m \<Longrightarrow> distinct (map fst m)"
  by (simp add: omap_wf_def strict_sorted_iff)

lemma omap_put_keys: "fst ` set (omap_put k v m) = insert k (fst ` set m)"
  by (induction k v m rule: omap_put.induct) auto

lemma omap_put_wf [simp, intro]: "omap_wf m \<Longrightarrow> omap_wf (omap_put k v m)"
  by (induction k v m rule: omap_put.induct) (auto simp: omap_put_keys)

lemma omap_put_lookup [omap_simps]:
  "omap_wf m \<Longrightarrow> map_of (omap_put k v m) = (map_of m)(k \<mapsto> v)"
  by (induction k v m rule: omap_put.induct) (auto simp: fun_eq_iff)

lemma omap_put_values:
  "P v \<Longrightarrow> \<forall>v' \<in> snd ` set m. P v' \<Longrightarrow> \<forall>v' \<in> snd ` set (omap_put k v m). P v'"
  by (induction k v m rule: omap_put.induct) auto

lemma omap_put_nonempty [simp]: "omap_put k v m \<noteq> []"
  by (induction k v m rule: omap_put.induct) auto

lemma omap_set_iff: "omap_wf m \<Longrightarrow> (k, v) \<in> set m \<longleftrightarrow> map_of m k = Some v"
  by (metis map_of_eq_Some_iff omap_wf_distinct)

lemma omap_filter_wf [simp, intro]: "omap_wf m \<Longrightarrow> omap_wf (filter P m)"
  by (auto simp: omap_wf_def sorted_wrt_map intro: sorted_wrt_filter)

lemma omap_filter_lookup [omap_simps]:
  assumes "omap_wf m"
  shows "map_of (filter (\<lambda>e. P (fst e)) m) k = (if P k then map_of m k else None)"
  by (induction m) auto

lemma omap_ext:
  assumes "omap_wf m" and "omap_wf m'" and "map_of m = map_of m'"
  shows "m = m'"
proof -
  have keys: "map fst m = map fst m'"
  proof (rule sorted_distinct_set_unique)
    show "sorted (map fst m)" "distinct (map fst m)" "sorted (map fst m')" "distinct (map fst m')"
      using assms(1,2) by (simp_all add: omap_wf_def strict_sorted_iff)
    show "set (map fst m) = set (map fst m')"
      by (metis assms(3) dom_map_of_conv_image_fst image_set)
  qed
  have rebuild: "n = map (\<lambda>k. (k, the (map_of n k))) (map fst n)"
    if "omap_wf n" for n :: "('a, 'b) omap"
    unfolding map_map using omap_set_iff [OF that] by (intro map_idI [symmetric]) auto
  show ?thesis
    using rebuild [OF assms(1)] rebuild [OF assms(2)] keys assms(3) by metis
qed

section \<open>Characters and decimal digits\<close>

text \<open>
  The program never calls \<^verbatim>\<open>setlocale\<close>, so the classification functions of
  \<^verbatim>\<open><cctype>\<close> are those of the C locale: ASCII letters and digits.
\<close>

abbreviation char_code :: "char \<Rightarrow> nat" where
  "char_code c \<equiv> of_char c"

definition isdigit :: "char \<Rightarrow> bool" where
  "isdigit c = (48 \<le> char_code c \<and> char_code c \<le> 57)"

definition islower :: "char \<Rightarrow> bool" where
  "islower c = (97 \<le> char_code c \<and> char_code c \<le> 122)"

definition isupper :: "char \<Rightarrow> bool" where
  "isupper c = (65 \<le> char_code c \<and> char_code c \<le> 90)"

definition isalnum :: "char \<Rightarrow> bool" where
  "isalnum c = (isdigit c \<or> islower c \<or> isupper c)"

definition toupper :: "char \<Rightarrow> char" where
  "toupper c = (if islower c then char_of (char_code c - 32) else c)"

definition tolower :: "char \<Rightarrow> char" where
  "tolower c = (if isupper c then char_of (char_code c + 32) else c)"

lemma char_code_char_of: "n < 256 \<Longrightarrow> char_code (char_of n) = n"
  by simp

lemma toupper_idem [simp]: "toupper (toupper c) = toupper c"
  by (auto simp: toupper_def islower_def)

lemma toupper_not_lower [simp]: "\<not> islower (toupper c)"
  by (auto simp: toupper_def islower_def)

lemma isalnum_toupper [simp]: "isalnum (toupper c) = isalnum c"
  by (auto simp: toupper_def isalnum_def isdigit_def islower_def isupper_def)

lemma tolower_toupper [simp]: "tolower (toupper c) = tolower c"
  by (auto simp: toupper_def tolower_def islower_def isupper_def)

lemma toupper_tolower [simp]: "toupper (tolower c) = toupper c"
  by (auto simp: toupper_def tolower_def islower_def isupper_def)

lemma isdigit_isalnum: "isdigit c \<Longrightarrow> isalnum c"
  by (simp add: isalnum_def)

text \<open>
  \<open>digit_value\<close> is \<^verbatim>\<open>ch - '0'\<close>; \<open>nat_to_string\<close> is \<^verbatim>\<open>std::to_string\<close> on an
  unsigned value; \<open>digits_value\<close> is the number a digit string denotes.
\<close>

definition digit_value :: "char \<Rightarrow> nat" where
  "digit_value c = char_code c - 48"

definition digit_char :: "nat \<Rightarrow> char" where
  "digit_char d = char_of (48 + d)"

fun nat_to_string :: "nat \<Rightarrow> string" where
  "nat_to_string n =
     (if n < 10 then [digit_char n] else nat_to_string (n div 10) @ [digit_char (n mod 10)])"

declare nat_to_string.simps [simp del]

definition digits_value :: "string \<Rightarrow> nat" where
  "digits_value cs = foldl (\<lambda>a c. a * 10 + digit_value c) 0 cs"

lemma digit_char_simps [digit_simps, simp]:
  assumes "d < 10"
  shows "isdigit (digit_char d)" "digit_value (digit_char d) = d"
  using assms by (simp_all add: isdigit_def digit_value_def digit_char_def)

lemma digit_value_less: "isdigit c \<Longrightarrow> digit_value c < 10"
  by (auto simp: isdigit_def digit_value_def)

lemma digit_char_digit_value [simp]: "isdigit c \<Longrightarrow> digit_char (digit_value c) = c"
  by (simp add: isdigit_def digit_value_def digit_char_def)

lemma digit_value_eq_0: "isdigit c \<Longrightarrow> digit_value c = 0 \<longleftrightarrow> c = CHR ''0''"
proof -
  assume c: "isdigit c"
  have "digit_value c = 0 \<longleftrightarrow> char_code c = char_code (CHR ''0'')"
    using c by (auto simp: isdigit_def digit_value_def)
  also have "\<dots> \<longleftrightarrow> c = CHR ''0''"
    by (metis char_of_char)
  finally show ?thesis .
qed

lemma digits_value_Nil [simp]: "digits_value [] = 0"
  by (simp add: digits_value_def)

lemma digits_value_snoc [simp]: "digits_value (cs @ [c]) = digits_value cs * 10 + digit_value c"
  by (simp add: digits_value_def)

lemma foldl_digits:
  "foldl (\<lambda>a c. a * 10 + digit_value c) n cs = n * 10 ^ length cs + digits_value cs"
proof (induction cs rule: rev_induct)
  case (snoc c cs)
  then show ?case by (simp add: algebra_simps)
qed simp

lemma digits_value_Cons: "digits_value (c # cs) = digit_value c * 10 ^ length cs + digits_value cs"
  using foldl_digits [of "digit_value c" cs] by (simp add: digits_value_def)

lemma digits_value_append:
  "digits_value (cs @ ds) = digits_value cs * 10 ^ length ds + digits_value ds"
  using foldl_digits [of "digits_value cs" ds] by (simp add: digits_value_def)

lemma digits_value_zeros [simp]: "digits_value (replicate n (CHR ''0'')) = 0"
  by (induction n) (simp_all add: digits_value_Cons digit_value_def)

lemma digits_value_less:
  assumes "list_all isdigit cs"
  shows "digits_value cs < 10 ^ length cs"
  using assms
proof (induction cs rule: rev_induct)
  case (snoc c cs)
  then have "digits_value cs < 10 ^ length cs" and "digit_value c < 10"
    by (simp_all add: digit_value_less)
  then show ?case by simp
qed simp

lemma nat_to_string_digits [simp]: "list_all isdigit (nat_to_string n)"
proof (induction n rule: nat_to_string.induct)
  case (1 n)
  then show ?case by (subst nat_to_string.simps) simp
qed

lemma nat_to_string_value [simp]: "digits_value (nat_to_string n) = n"
proof (induction n rule: nat_to_string.induct)
  case (1 n)
  then show ?case by (subst nat_to_string.simps) (simp add: digits_value_Cons)
qed

lemma nat_to_string_nonempty [simp]: "nat_to_string n \<noteq> []"
  by (subst nat_to_string.simps) simp

lemma nat_to_string_inj [simp]: "nat_to_string m = nat_to_string n \<longleftrightarrow> m = n"
  by (metis nat_to_string_value)

lemma nat_to_string_length:
  assumes "n < 10 ^ k" and "0 < k"
  shows "length (nat_to_string n) \<le> k"
  using assms
proof (induction n arbitrary: k rule: nat_to_string.induct)
  case (1 n)
  show ?case
  proof (cases "n < 10")
    case True
    then show ?thesis using "1.prems" by (subst nat_to_string.simps) simp
  next
    case False
    obtain j where k: "k = Suc j"
      using "1.prems" by (cases k) auto
    with False "1.prems" have j: "0 < j"
      by (cases j) auto
    have "n div 10 < 10 ^ j"
      using "1.prems" k by (simp add: less_mult_imp_div_less mult.commute)
    then show ?thesis
      using "1.IH" [OF False, of j] False k j by (subst nat_to_string.simps) simp
  qed
qed

section \<open>Lists\<close>

lemma list_all_hd: "list_all P xs \<Longrightarrow> xs \<noteq> [] \<Longrightarrow> P (hd xs)"
  by (cases xs) auto

lemma list_all_takeWhile [simp]: "list_all P (takeWhile P xs)"
  by (auto simp: list_all_iff dest: set_takeWhileD)

lemma list_all_takeWhile_id [simp]: "list_all P xs \<Longrightarrow> takeWhile P xs = xs"
  by (simp add: list_all_iff takeWhile_eq_all_conv)

lemma strip_while_split:
  obtains n where "xs = strip_while (\<lambda>x. x = a) xs @ replicate n a"
proof -
  obtain zs where "\<forall>x\<in>set zs. x = a" "xs = strip_while (\<lambda>x. x = a) xs @ zs"
    using split_strip_while_append [of "\<lambda>x. x = a" xs] by metis
  then show ?thesis
    using that [of "length zs"] by (metis replicate_eqI)
qed

lemma strip_while_last: "strip_while P xs = [] \<or> \<not> P (last (strip_while P xs))"
proof -
  have "dropWhile P (rev xs) = [] \<or> \<not> P (hd (dropWhile P (rev xs)))"
    using hd_dropWhile by blast
  then show ?thesis
    by (simp add: strip_while_def last_rev del: dropWhile_eq_Nil_conv)
qed

text \<open>Two texts of the form field, separator, rest are equal only field by field.\<close>

lemma separated_inj:
  assumes "xs @ c # r = ys @ d # r'" and "list_all P xs" and "list_all P ys"
    and "\<not> P c" and "\<not> P d"
  shows "xs = ys \<and> c = d \<and> r = r'"
proof -
  have "takeWhile P (zs @ b # u) = zs" if "list_all P zs" "\<not> P b" for zs b u
    using that by (auto simp: list_all_iff takeWhile_append)
  then have "xs = ys"
    using assms by metis
  with assms(1) show ?thesis by simp
qed

text \<open>Splitting a list into the groups of elements that share a key.\<close>

lemma mset_concat_groups:
  "distinct ks \<Longrightarrow>
     mset (concat (map (\<lambda>k. filter (\<lambda>t. f t = k) ts) ks)) = filter_mset (\<lambda>t. f t \<in> set ks) (mset ts)"
proof (induction ks)
  case (Cons k ks)
  have "filter_mset (\<lambda>t. f t = k \<or> f t \<in> set ks) M
      = filter_mset (\<lambda>t. f t = k) M + filter_mset (\<lambda>t. f t \<in> set ks) M" for M
    using Cons.prems by (induction M) auto
  with Cons show ?case by simp
qed simp

text \<open>Replacing one list of a list of lists.\<close>

lemma mset_concat_update:
  "i < length xss \<Longrightarrow> mset (concat (xss[i := ys])) + mset (xss ! i) = mset (concat xss) + mset ys"
proof (induction xss arbitrary: i)
  case (Cons xs xss)
  then show ?case by (cases i) auto
qed simp

section \<open>Orders\<close>

lemma min_max_strict:
  fixes x y :: "'a::linorder"
  shows "min x y = (if x < y then x else y)" "max x y = (if y < x then x else y)"
  by (auto simp: min_def max_def)

section \<open>Words\<close>

lemma sint_eq_iff [simp]: "sint v = sint w \<longleftrightarrow> v = w"
  by (auto intro: signed_word_eqI)

lemma word_of_nat_div_mod:
  fixes w :: u64
  shows "unat (w div v) = unat w div unat v" "unat (w mod v) = unat w mod unat v"
  by (simp_all add: unat_div unat_mod)

lemma unat_minus_mod: "unat (w - w mod v) = unat w - unat w mod unat v" for w v :: u64
proof -
  have "w mod v \<le> w"
    by (simp add: word_le_nat_alt unat_mod)
  then show ?thesis
    by (simp add: unat_sub unat_mod)
qed


section \<open>Joining texts\<close>

text \<open>
  The loop that builds a separated list: index \<open>i\<close>, a separator before every element but the
  first. \<open>join_with\<close> is what it computes.
\<close>

fun join_with :: "string \<Rightarrow> string list \<Rightarrow> string" where
  "join_with sep [] = []"
| "join_with sep [x] = x"
| "join_with sep (x # y # xs) = x @ sep @ join_with sep (y # xs)"

lemma join_with_snoc:
  "join_with sep (xs @ [x]) = (if xs = [] then x else join_with sep xs @ sep @ x)"
  by (induction sep xs rule: join_with.induct) auto

lemma foldl_join:
  "foldl (\<lambda>acc (i, x). (if i \<noteq> 0 then acc @ sep else acc) @ f x) acc (enumerate 0 xs)
     = acc @ join_with sep (map f xs)"
proof (induction xs rule: rev_induct)
  case (snoc x xs)
  then show ?case by (simp add: enumerate_append_eq join_with_snoc)
qed simp

lemma join_with_Cons: "xs \<noteq> [] \<Longrightarrow> join_with sep (x # xs) = x @ sep @ join_with sep xs"
  by (cases xs) simp_all

lemma join_with_terminated: "xs \<noteq> [] \<Longrightarrow> join_with [c] xs @ [c] = concat (map (\<lambda>x. x @ [c]) xs)"
proof (induction xs)
  case (Cons x xs)
  then show ?case by (cases "xs = []") (simp_all add: join_with_Cons)
qed simp

lemma concat_terminated_inj:
  assumes "\<forall>x \<in> set xs. c \<notin> set x" and "\<forall>y \<in> set ys. c \<notin> set y"
    and "concat (map (\<lambda>x. x @ [c]) xs) = concat (map (\<lambda>x. x @ [c]) ys)"
  shows "xs = ys"
  using assms
proof (induction xs arbitrary: ys)
  case (Cons x xs)
  then obtain y ys' where ys: "ys = y # ys'"
    by (cases ys) auto
  have split: "x @ c # concat (map (\<lambda>x. x @ [c]) xs) = y @ c # concat (map (\<lambda>x. x @ [c]) ys')"
    using Cons.prems(3) by (simp add: ys)
  have "list_all (\<lambda>b. b \<noteq> c) x" "list_all (\<lambda>b. b \<noteq> c) y"
    using Cons.prems(1,2) by (auto simp: ys list_all_iff)
  from separated_inj [OF split this] have "x = y" "concat (map (\<lambda>x. x @ [c]) xs) = concat (map (\<lambda>x. x @ [c]) ys')"
    by simp_all
  with Cons.IH [of ys'] Cons.prems(1,2) show ?case
    by (simp add: ys)
qed simp

lemma join_with_inj:
  assumes "\<forall>x \<in> set xs. x \<noteq> [] \<and> c \<notin> set x" and "\<forall>y \<in> set ys. y \<noteq> [] \<and> c \<notin> set y"
    and "join_with [c] xs = join_with [c] ys"
  shows "xs = ys"
proof -
  have nonempty: "join_with [c] zs \<noteq> []" if elems: "\<forall>z \<in> set zs. z \<noteq> [] \<and> c \<notin> set z" and "zs \<noteq> []" for zs
  proof -
    obtain z zs' where zs: "zs = z # zs'"
      using \<open>zs \<noteq> []\<close> by (cases zs) auto
    moreover from this have "z \<noteq> []"
      using elems by simp
    ultimately show ?thesis by (cases "zs' = []") (simp_all add: join_with_Cons)
  qed
  have "xs = [] \<longleftrightarrow> ys = []"
    using nonempty [OF assms(1)] nonempty [OF assms(2)] assms(3) by (metis join_with.simps(1))
  moreover have "xs = ys" if "xs \<noteq> []" "ys \<noteq> []"
  proof (rule concat_terminated_inj)
    show "concat (map (\<lambda>x. x @ [c]) xs) = concat (map (\<lambda>x. x @ [c]) ys)"
      by (simp add: assms(3) flip: join_with_terminated [OF that(1)] join_with_terminated [OF that(2)])
  qed (use assms(1,2) in auto)
  ultimately show ?thesis by blast
qed

end
