(* ===== verification/Decimal.thy ===== *)
theory Decimal
  imports Agg_Prelude
begin

text \<open>
  The fixed-point value type \<^verbatim>\<open>agg::util::Decimal\<close>: \<^verbatim>\<open>app/include/agg/util/Decimal.hpp\<close>
  and \<^verbatim>\<open>app/src/util/Decimal.cpp\<close>. A value is its scaled 64-bit integer \<open>raw\<close>, eight
  fractional digits. The text being parsed is modelled by the suffix that is still to be
  read, so \<^verbatim>\<open>text[idx]\<close> is the head of that suffix.
\<close>

section \<open>Definitions\<close>

datatype decimal = from_raw (raw: i64)

definition kScale :: nat where
  "kScale = 8"

definition kScaleFactor :: int where
  "kScaleFactor = 100000000"

text \<open>The messages of the \<^verbatim>\<open>std::invalid_argument\<close> exceptions.\<close>

datatype decimal_error =
    EmptyDecimal
  | NoIntegerPart string
  | NoDigitsAfterPoint string
  | PrecisionExceeded string
  | InvalidCharacters string

fun parse_integer_digits :: "i64 \<Rightarrow> string \<Rightarrow> i64 \<times> string" where
  "parse_integer_digits integer_part [] = (integer_part, [])"
| "parse_integer_digits integer_part (c # cs) =
     (if isdigit c then parse_integer_digits (integer_part * 10 + of_nat (digit_value c)) cs
      else (integer_part, c # cs))"

fun parse_fraction_digits ::
    "string \<Rightarrow> i64 \<Rightarrow> nat \<Rightarrow> string \<Rightarrow> decimal_error + (i64 \<times> nat \<times> string)" where
  "parse_fraction_digits text fractional_part fractional_digits [] =
     Inr (fractional_part, fractional_digits, [])"
| "parse_fraction_digits text fractional_part fractional_digits (c # cs) =
     (if isdigit c then
        if fractional_digits \<ge> kScale then Inl (PrecisionExceeded text)
        else parse_fraction_digits text (fractional_part * 10 + of_nat (digit_value c))
               (Suc fractional_digits) cs
      else Inr (fractional_part, fractional_digits, c # cs))"

definition parse_fraction :: "string \<Rightarrow> string \<Rightarrow> decimal_error + (i64 \<times> nat \<times> string)" where
  "parse_fraction text rest =
     (case rest of
        c # cs \<Rightarrow>
          if c = CHR ''.'' then
            if cs = [] \<or> \<not> isdigit (hd cs) then Inl (NoDigitsAfterPoint text)
            else parse_fraction_digits text 0 0 cs
          else Inr (0, 0, rest)
      | [] \<Rightarrow> Inr (0, 0, []))"

function scale_fraction :: "nat \<Rightarrow> i64 \<Rightarrow> i64" where
  "scale_fraction i fractional_part =
     (if i < kScale then scale_fraction (Suc i) (fractional_part * 10) else fractional_part)"
  by pat_completeness auto
termination
  by (relation "measure (\<lambda>(i, _). kScale - i)") auto

declare scale_fraction.simps [simp del]

definition parse_unsigned :: "string \<Rightarrow> bool \<Rightarrow> string \<Rightarrow> decimal_error + decimal" where
  "parse_unsigned text negative rest =
     (case parse_integer_digits 0 rest of (integer_part, rest1) \<Rightarrow>
        (case parse_fraction text rest1 of
           Inl e \<Rightarrow> Inl e
         | Inr (fractional_part, fractional_digits, rest2) \<Rightarrow>
             if rest2 \<noteq> [] then Inl (InvalidCharacters text)
             else
               let raw = integer_part * of_int kScaleFactor
                         + scale_fraction fractional_digits fractional_part
               in Inr (from_raw (if negative then - raw else raw))))"

definition Decimal_parse :: "string \<Rightarrow> decimal_error + decimal" where
  "Decimal_parse text =
     (if text = [] then Inl EmptyDecimal
      else
        let negative = (hd text = CHR ''-'');
            rest = (if hd text = CHR ''+'' \<or> hd text = CHR ''-'' then tl text else text)
        in if rest = [] \<or> \<not> isdigit (hd rest) then Inl (NoIntegerPart text)
           else parse_unsigned text negative rest)"

definition Decimal_to_string :: "decimal \<Rightarrow> string" where
  "Decimal_to_string d =
     (let negative = (word_sless (raw d) 0);
          magnitude = (if negative then - raw d else raw d);
          integer_part = magnitude div of_int kScaleFactor;
          fractional_part = magnitude mod of_int kScaleFactor;
          digits = nat_to_string (unat fractional_part);
          fractional_str = replicate (kScale - length digits) (CHR ''0'') @ digits;
          fractional_str = strip_while (\<lambda>c. c = CHR ''0'') fractional_str
      in (if negative then ''-'' else '''') @ nat_to_string (unat integer_part)
         @ (if fractional_str \<noteq> [] then CHR ''.'' # fractional_str else []))"

text \<open>
  \<^verbatim>\<open>operator<=>\<close> is defaulted, so values compare by their signed \<open>raw\<close>. Addition adds
  the raw values. Multiplication goes through \<^verbatim>\<open>__int128\<close>, whose division truncates
  towards zero; the 128-bit product of two 64-bit values is exact, so it is an \<^typ>\<open>int\<close>.
\<close>

definition Decimal_less_eq :: "decimal \<Rightarrow> decimal \<Rightarrow> bool" where
  "Decimal_less_eq lhs rhs = word_sle (raw lhs) (raw rhs)"

definition Decimal_less :: "decimal \<Rightarrow> decimal \<Rightarrow> bool" where
  "Decimal_less lhs rhs = word_sless (raw lhs) (raw rhs)"

instantiation decimal :: linorder
begin

definition less_eq_decimal :: "decimal \<Rightarrow> decimal \<Rightarrow> bool" where
  "less_eq_decimal = Decimal_less_eq"

definition less_decimal :: "decimal \<Rightarrow> decimal \<Rightarrow> bool" where
  "less_decimal = Decimal_less"

instance
  by standard (auto simp: less_eq_decimal_def less_decimal_def Decimal_less_eq_def Decimal_less_def
      word_sle_eq word_sless_alt intro: decimal.expand)

end

definition Decimal_add :: "decimal \<Rightarrow> decimal \<Rightarrow> decimal" where
  "Decimal_add lhs rhs = from_raw (raw lhs + raw rhs)"

definition Decimal_mul :: "decimal \<Rightarrow> decimal \<Rightarrow> decimal" where
  "Decimal_mul lhs rhs =
     (let product = sint (raw lhs) * sint (raw rhs)
      in from_raw (word_of_int (product sdiv kScaleFactor)))"

definition Decimal_zero :: decimal where
  "Decimal_zero = from_raw 0"

section \<open>The language parse accepts and the value it denotes\<close>

text \<open>
  The reference: an optional sign, at least one digit, and optionally a point followed by
  one to eight digits; the value is the signed number of \<open>10\<^sup>-\<^sup>8\<close> units the text denotes.
\<close>

definition decimal_syntax :: "bool \<Rightarrow> string \<Rightarrow> string \<Rightarrow> string \<Rightarrow> bool" where
  "decimal_syntax neg ip fp text \<longleftrightarrow>
     ip \<noteq> [] \<and> list_all isdigit ip \<and> list_all isdigit fp \<and> length fp \<le> 8 \<and>
     (\<exists>sign. text = sign @ ip @ (if fp = [] then [] else CHR ''.'' # fp)
        \<and> sign \<in> (if neg then {''-''} else {'''', ''+''}))"

definition decimal_units :: "bool \<Rightarrow> string \<Rightarrow> string \<Rightarrow> int" where
  "decimal_units neg ip fp =
     (let m = int (digits_value ip * 10 ^ 8 + digits_value fp * 10 ^ (8 - length fp))
      in if neg then - m else m)"

section \<open>Parsing\<close>

lemma parse_integer_digits_eq:
  "parse_integer_digits n cs =
     (n * 10 ^ length (takeWhile isdigit cs) + of_nat (digits_value (takeWhile isdigit cs)),
      dropWhile isdigit cs)"
  by (induction n cs rule: parse_integer_digits.induct)
    (simp_all add: digits_value_Cons algebra_simps)

lemma parse_fraction_digits_eq:
  "n \<le> kScale \<Longrightarrow> parse_fraction_digits t f n cs =
     (let ds = takeWhile isdigit cs
      in if n + length ds \<le> kScale
         then Inr (f * 10 ^ length ds + of_nat (digits_value ds), n + length ds,
                   dropWhile isdigit cs)
         else Inl (PrecisionExceeded t))"
  by (induction t f n cs rule: parse_fraction_digits.induct)
    (auto simp: digits_value_Cons algebra_simps Let_def)

lemma scale_fraction_eq: "scale_fraction i f = f * 10 ^ (kScale - i)"
proof (induction i f rule: scale_fraction.induct)
  case (1 i f)
  show ?case
  proof (cases "i < kScale")
    case True
    then have "kScale - i = Suc (kScale - Suc i)" by simp
    then show ?thesis
      using 1 [OF True] True by (subst scale_fraction.simps) (simp add: algebra_simps)
  qed (subst scale_fraction.simps, simp)
qed

lemma digit_prefix_split:
  assumes "list_all isdigit ip" and "rest = [] \<or> \<not> isdigit (hd rest)"
  shows "takeWhile isdigit (ip @ rest) = ip" and "dropWhile isdigit (ip @ rest) = rest"
  using assms by (cases rest; auto simp: list_all_iff takeWhile_append dropWhile_append)+

lemma not_isdigit_punct [simp]:
  "\<not> isdigit (CHR ''.'')" "\<not> isdigit (CHR ''+'')" "\<not> isdigit (CHR ''-'')"
  by (simp_all add: isdigit_def)

lemma isdigit_zero [simp]: "isdigit (CHR ''0'')"
  by (simp add: isdigit_def)

lemma isdigit_not_punct: "isdigit c \<Longrightarrow> c \<noteq> CHR ''.'' \<and> c \<noteq> CHR ''+'' \<and> c \<noteq> CHR ''-''"
  by auto

text \<open>The outcome of the fractional part, on every branch.\<close>

lemma parse_fraction_Inr_iff:
  "parse_fraction t rest = Inr (f, n, []) \<longleftrightarrow>
     (\<exists>fp. list_all isdigit fp \<and> length fp \<le> 8 \<and> n = length fp \<and>
           f = of_nat (digits_value fp) \<and> rest = (if fp = [] then [] else CHR ''.'' # fp))"
  (is "?L \<longleftrightarrow> ?R")
proof
  assume L: ?L
  show ?R
  proof (cases rest)
    case Nil
    with L have "f = 0" "n = 0" by (simp_all add: parse_fraction_def)
    with Nil show ?thesis by (intro exI [of _ "[]"]) simp
  next
    case (Cons c cs)
    let ?fp = "takeWhile isdigit cs"
    from L Cons have c: "c = CHR ''.''" "cs \<noteq> []" "isdigit (hd cs)"
      and p: "parse_fraction_digits t 0 0 cs = Inr (f, n, [])"
      by (auto simp: parse_fraction_def split: if_splits)
    from p have q: "length ?fp \<le> 8" "f = of_nat (digits_value ?fp)" "n = length ?fp"
      "dropWhile isdigit cs = []"
      by (auto simp: parse_fraction_digits_eq Let_def kScale_def split: if_splits)
    then have "cs = ?fp"
      by (metis append_Nil2 takeWhile_dropWhile_id)
    moreover have "?fp \<noteq> []"
      using c by (cases cs) auto
    ultimately show ?thesis
      using q c Cons by (intro exI [of _ ?fp]) (simp add: list_all_iff)
  qed
next
  assume ?R
  then obtain fp where fp: "list_all isdigit fp" "length fp \<le> 8" "n = length fp"
    "f = of_nat (digits_value fp)" "rest = (if fp = [] then [] else CHR ''.'' # fp)"
    by blast
  then show ?L
    using digit_prefix_split [of fp "[]"]
    by (cases "fp = []") (auto simp: parse_fraction_def parse_fraction_digits_eq Let_def kScale_def
        list_all_hd)
qed

lemma raw_of_parts:
  assumes "length fp \<le> 8"
  shows "(of_nat (digits_value ip) * of_int kScaleFactor
            + scale_fraction (length fp) (of_nat (digits_value fp)) :: i64)
         = word_of_int (decimal_units False ip fp)"
  by (simp add: decimal_units_def scale_fraction_eq kScaleFactor_def kScale_def)

lemma parse_unsigned_Inr_iff:
  "parse_unsigned t neg rest = Inr d \<longleftrightarrow>
     (\<exists>ip fp. list_all isdigit ip \<and> list_all isdigit fp \<and> length fp \<le> 8 \<and>
              rest = ip @ (if fp = [] then [] else CHR ''.'' # fp) \<and>
              raw d = word_of_int (decimal_units neg ip fp))"
  (is "?L \<longleftrightarrow> (\<exists>ip fp. ?R ip fp)")
proof
  let ?ip = "takeWhile isdigit rest" and ?rest1 = "dropWhile isdigit rest"
  assume ?L
  then obtain f n where f: "parse_fraction t ?rest1 = Inr (f, n, [])"
    and d: "raw d = (let r = of_nat (digits_value ?ip) * of_int kScaleFactor + scale_fraction n f
                     in if neg then - r else r)"
    by (auto simp: parse_unsigned_def parse_integer_digits_eq Let_def split: sum.splits if_splits)
  from f obtain fp where "list_all isdigit fp" "length fp \<le> 8" "n = length fp"
    "f = of_nat (digits_value fp)" "?rest1 = (if fp = [] then [] else CHR ''.'' # fp)"
    by (auto simp: parse_fraction_Inr_iff)
  moreover from this have "raw d = word_of_int (decimal_units neg ?ip fp)"
    using d raw_of_parts [of fp ?ip] by (cases neg) (simp_all add: decimal_units_def Let_def)
  moreover have "rest = ?ip @ ?rest1"
    by simp
  ultimately have "?R ?ip fp"
    by (intro conjI) (auto simp del: takeWhile_dropWhile_id)
  then show "\<exists>ip fp. ?R ip fp" by blast
next
  assume "\<exists>ip fp. ?R ip fp"
  then obtain ip fp where R: "?R ip fp" by blast
  let ?rest1 = "if fp = [] then [] else CHR ''.'' # fp"
  have split: "takeWhile isdigit rest = ip" "dropWhile isdigit rest = ?rest1"
    using R digit_prefix_split [of ip ?rest1] by simp_all
  have "parse_fraction t ?rest1 = Inr (of_nat (digits_value fp), length fp, [])"
    using R by (subst parse_fraction_Inr_iff) blast
  then show ?L
    using R split raw_of_parts [of fp ip]
    by (cases d) (auto simp: parse_unsigned_def parse_integer_digits_eq Let_def decimal_units_def)
qed

lemma Decimal_parse_sign:
  "Decimal_parse (c # cs) =
     (let rest = (if c = CHR ''+'' \<or> c = CHR ''-'' then cs else c # cs)
      in if rest = [] \<or> \<not> isdigit (hd rest) then Inl (NoIntegerPart (c # cs))
         else parse_unsigned (c # cs) (c = CHR ''-'') rest)"
  by (simp add: Decimal_parse_def Let_def)

lemma Decimal_parse_Inr_iff:
  "Decimal_parse t = Inr d \<longleftrightarrow>
     (\<exists>neg ip fp. decimal_syntax neg ip fp t \<and> raw d = word_of_int (decimal_units neg ip fp))"
  (is "?L \<longleftrightarrow> ?R")
proof
  assume L: ?L
  then obtain c cs where t: "t = c # cs" by (cases t) (auto simp: Decimal_parse_def)
  define sign rest where "sign = (if c = CHR ''+'' \<or> c = CHR ''-'' then [c] else [])"
    and "rest = (if c = CHR ''+'' \<or> c = CHR ''-'' then cs else c # cs)"
  have split: "t = sign @ rest" "sign \<in> (if c = CHR ''-'' then {''-''} else {'''', ''+''})"
    by (auto simp: t sign_def rest_def)
  from L t have digit: "rest \<noteq> []" "isdigit (hd rest)"
    and "parse_unsigned t (c = CHR ''-'') rest = Inr d"
    by (auto simp: Decimal_parse_sign rest_def Let_def split: if_splits)
  then obtain ip fp where R: "list_all isdigit ip" "list_all isdigit fp" "length fp \<le> 8"
    "rest = ip @ (if fp = [] then [] else CHR ''.'' # fp)"
    "raw d = word_of_int (decimal_units (c = CHR ''-'') ip fp)"
    by (auto simp: parse_unsigned_Inr_iff)
  moreover have "ip \<noteq> []"
    using R digit by (cases ip) (auto split: if_splits)
  ultimately show ?R
    using split unfolding decimal_syntax_def by blast
next
  assume ?R
  then obtain neg ip fp sign where R: "ip \<noteq> []" "list_all isdigit ip" "list_all isdigit fp"
    "length fp \<le> 8" and t: "t = sign @ ip @ (if fp = [] then [] else CHR ''.'' # fp)"
    and sign: "sign \<in> (if neg then {''-''} else {'''', ''+''})"
    and d: "raw d = word_of_int (decimal_units neg ip fp)"
    unfolding decimal_syntax_def by blast
  let ?rest = "ip @ (if fp = [] then [] else CHR ''.'' # fp)"
  obtain i js where ip: "ip = i # js" "isdigit i"
    using R by (cases ip) auto
  have "parse_unsigned t neg ?rest = Inr d"
    unfolding parse_unsigned_Inr_iff using R d by blast
  then show ?L
    using sign t ip isdigit_not_punct [of i] by (auto simp: Decimal_parse_sign Let_def split: if_splits)
qed

section \<open>Formatting\<close>

lemma fraction_string:
  assumes "n < 10 ^ 8"
  defines "padded \<equiv> replicate (8 - length (nat_to_string n)) (CHR ''0'') @ nat_to_string n"
  defines "fp \<equiv> strip_while (\<lambda>c. c = CHR ''0'') padded"
  shows "list_all isdigit fp" "length fp \<le> 8" "digits_value fp * 10 ^ (8 - length fp) = n"
    "fp = [] \<or> last fp \<noteq> CHR ''0''"
proof -
  obtain k where k: "padded = fp @ replicate k (CHR ''0'')"
    unfolding fp_def by (rule strip_while_split)
  have len: "length padded = 8"
    using nat_to_string_length [OF assms(1)] by (simp add: padded_def)
  have "list_all isdigit padded"
    using nat_to_string_digits [of n] by (auto simp: padded_def list_all_iff)
  then show "list_all isdigit fp" "length fp \<le> 8"
    using len by (simp_all add: k)
  have "k = 8 - length fp"
    using len by (simp add: k)
  moreover have "digits_value padded = n"
    by (simp add: padded_def digits_value_append)
  ultimately show "digits_value fp * 10 ^ (8 - length fp) = n"
    by (simp add: k digits_value_append)
  show "fp = [] \<or> last fp \<noteq> CHR ''0''"
    unfolding fp_def by (rule strip_while_last)
qed

lemma unat_scaled:
  fixes w :: u64
  shows "unat (w div of_int kScaleFactor) = unat w div 10 ^ 8"
    and "unat (w mod of_int kScaleFactor) = unat w mod 10 ^ 8"
  unfolding unat_div unat_mod kScaleFactor_def by simp_all

lemma to_string_syntax:
  fixes d :: decimal
  defines "neg \<equiv> word_sless (raw d) 0"
  defines "m \<equiv> unat (if neg then - raw d else raw d)"
  obtains ip fp where "decimal_syntax neg ip fp (Decimal_to_string d)"
    and "decimal_units neg ip fp = (if neg then - int m else int m)"
    and "ip = nat_to_string (m div 10 ^ 8)" and "fp = [] \<or> last fp \<noteq> CHR ''0''"
proof -
  define n where "n = m mod 10 ^ 8"
  let ?ip = "nat_to_string (m div 10 ^ 8)"
  let ?fp = "strip_while (\<lambda>c. c = CHR ''0'')
               (replicate (8 - length (nat_to_string n)) (CHR ''0'') @ nat_to_string n)"
  have n: "n < 10 ^ 8"
    by (simp add: n_def)
  note fp = fraction_string [OF n]
  have str: "Decimal_to_string d =
      (if neg then ''-'' else []) @ ?ip @ (if ?fp \<noteq> [] then CHR ''.'' # ?fp else [])"
    unfolding Decimal_to_string_def Let_def neg_def [symmetric] unat_scaled m_def [symmetric]
      n_def [symmetric] kScale_def ..
  have "decimal_syntax neg ?ip ?fp (Decimal_to_string d)"
    unfolding decimal_syntax_def str using fp(1,2)
    by (intro conjI exI [of _ "if neg then ''-'' else []"]) simp_all
  moreover have "decimal_units neg ?ip ?fp = (if neg then - int m else int m)"
    unfolding decimal_units_def Let_def fp(3) nat_to_string_value by (simp add: n_def)
  ultimately show ?thesis
    using that [of ?ip ?fp] fp(4) by simp
qed

lemma to_string_denotes:
  "\<exists>neg ip fp. decimal_syntax neg ip fp (Decimal_to_string d)
     \<and> raw d = word_of_int (decimal_units neg ip fp)"
proof -
  let ?neg = "word_sless (raw d) 0"
  let ?m = "unat (if ?neg then - raw d else raw d)"
  obtain ip fp where "decimal_syntax ?neg ip fp (Decimal_to_string d)"
    and u: "decimal_units ?neg ip fp = (if ?neg then - int ?m else int ?m)"
    by (rule to_string_syntax)
  moreover have "raw d = word_of_int (decimal_units ?neg ip fp)"
    unfolding u by simp
  ultimately show ?thesis by blast
qed

lemma Decimal_to_string_inj [simp]: "Decimal_to_string a = Decimal_to_string b \<longleftrightarrow> a = b"
  using to_string_denotes [folded Decimal_parse_Inr_iff] by (metis sum.inject(2))

lemma Decimal_to_string_chars:
  "c \<in> set (Decimal_to_string d) \<Longrightarrow> isdigit c \<or> c = CHR ''-'' \<or> c = CHR ''+'' \<or> c = CHR ''.''"
  using to_string_denotes [of d] by (auto simp: decimal_syntax_def list_all_iff split: if_splits)

section \<open>Arithmetic\<close>

lemma sint_word_of_int_range:
  fixes k :: int
  assumes "- (2 ^ 63) \<le> k" and "k < 2 ^ 63"
  shows "sint (word_of_int k :: i64) = k"
  using assms by (simp add: signed_of_int signed_take_bit_int_eq_self)

lemma sdiv_nonneg: "k sdiv m = k div m" if "0 \<le> k" "0 < m" for k m :: int
  using that by (cases "k = 0") (simp_all add: signed_divide_int_def)

lemma sdiv_bounds:
  fixes k m :: int
  assumes "0 < m"
  shows "\<bar>k - (k sdiv m) * m\<bar> < m" and "\<bar>(k sdiv m) * m\<bar> \<le> \<bar>k\<bar>"
proof -
  have "k - (k sdiv m) * m = sgn k * (\<bar>k\<bar> mod m)"
    using assms minus_sdiv_mult_eq_smod [of k m] by (simp add: signed_modulo_int_def)
  then show "\<bar>k - (k sdiv m) * m\<bar> < m"
    using assms by (cases "k = 0") (auto simp: abs_mult)
  have "\<bar>(k sdiv m) * m\<bar> = \<bar>k\<bar> div m * m" if "k \<noteq> 0"
    using assms that by (simp add: signed_divide_int_def abs_mult pos_imp_zdiv_nonneg_iff)
  then show "\<bar>(k sdiv m) * m\<bar> \<le> \<bar>k\<bar>"
    using assms by (cases "k = 0") (simp_all add: minus_mod_eq_div_mult [symmetric] signed_divide_int_def)
qed

lemma Decimal_add_commute: "Decimal_add a b = Decimal_add b a"
  by (simp add: Decimal_add_def add.commute)

lemma Decimal_add_assoc: "Decimal_add (Decimal_add a b) c = Decimal_add a (Decimal_add b c)"
  by (simp add: Decimal_add_def add.assoc)

lemma Decimal_add_zero [simp]: "Decimal_add Decimal_zero a = a" "Decimal_add a Decimal_zero = a"
  by (simp_all add: Decimal_add_def Decimal_zero_def)

lemma Decimal_mul_commute: "Decimal_mul a b = Decimal_mul b a"
  by (simp add: Decimal_mul_def mult.commute)

section \<open>Properties\<close>

text \<open>
  C38: \<^verbatim>\<open>Decimal::parse\<close> accepts exactly the texts of the form
  sign, digits, optional point and one to eight digits, and on every other text throws
  \<^verbatim>\<open>std::invalid_argument\<close>.
\<close>

theorem Decimal_parse_accepts:
  "(\<exists>d. Decimal_parse t = Inr d) \<longleftrightarrow> (\<exists>neg ip fp. decimal_syntax neg ip fp t)"
  unfolding Decimal_parse_Inr_iff by (metis decimal.sel)

text \<open>
  C37: where the denoted number of \<open>10\<^sup>-\<^sup>8\<close> units fits the signed 64-bit range,
  \<^verbatim>\<open>Decimal::parse\<close> returns exactly that number; no intermediate sum or product can have
  left the range, since all of them are at most the final magnitude.
\<close>

theorem Decimal_parse_exact:
  assumes "decimal_syntax neg ip fp t"
    and "\<bar>decimal_units neg ip fp\<bar> < 2 ^ 63"
  shows "\<exists>d. Decimal_parse t = Inr d \<and> sint (raw d) = decimal_units neg ip fp"
proof -
  let ?d = "from_raw (word_of_int (decimal_units neg ip fp))"
  have "Decimal_parse t = Inr ?d"
    unfolding Decimal_parse_Inr_iff using assms(1) by auto
  moreover have "sint (raw ?d) = decimal_units neg ip fp"
    using assms(2) by (simp add: sint_word_of_int_range)
  ultimately show ?thesis by blast
qed

text \<open>
  C36: round trip. Parsing the text \<^verbatim>\<open>Decimal::to_string\<close> prints gives the value back,
  for every raw value.
\<close>

theorem Decimal_roundtrip: "Decimal_parse (Decimal_to_string d) = Inr d"
  unfolding Decimal_parse_Inr_iff by (rule to_string_denotes)

text \<open>
  C39: multiplication truncates. Where the truncated product fits, the result is the exact
  product of the two scaled values divided by the scale and rounded towards zero: the
  error is less than one unit in the last place and the magnitude never grows.
\<close>

theorem Decimal_mul_truncates:
  assumes "\<bar>sint (raw a) * sint (raw b) sdiv kScaleFactor\<bar> < 2 ^ 63"
  shows "let exact = sint (raw a) * sint (raw b); result = sint (raw (Decimal_mul a b))
     in \<bar>exact - result * 100000000\<bar> < 100000000 \<and> \<bar>result * 100000000\<bar> \<le> \<bar>exact\<bar>"
proof -
  have "sint (raw (Decimal_mul a b)) = sint (raw a) * sint (raw b) sdiv 100000000"
    using assms by (simp add: Decimal_mul_def Let_def kScaleFactor_def sint_word_of_int_range)
  then show ?thesis
    using sdiv_bounds [of 100000000 "sint (raw a) * sint (raw b)"] by (simp add: Let_def)
qed

text \<open>
  There is no range check in \<^verbatim>\<open>Decimal::parse\<close>. A well-formed text whose value does
  not fit is accepted without an exception, and under two's complement arithmetic the price
  92233720369 becomes a negative value.
\<close>

theorem Decimal_parse_unchecked_overflow:
  "\<exists>d. Decimal_parse ''92233720369'' = Inr d \<and> d < Decimal_zero
        \<and> Decimal_to_string d = ''-92233720368.09551616''"
proof -
  have "Decimal_parse ''92233720369'' = Inr (from_raw (- 9223372036809551616))"
    by code_simp
  moreover have "from_raw (- 9223372036809551616) < Decimal_zero"
    by code_simp
  moreover have "Decimal_to_string (from_raw (- 9223372036809551616)) = ''-92233720368.09551616''"
    by code_simp
  ultimately show ?thesis by blast
qed

text \<open>Witnesses.\<close>

theorem Decimal_parse_exact_witness:
  "decimal_syntax False ''43012'' ''10'' ''43012.10''
   \<and> (\<exists>d. Decimal_parse ''43012.10'' = Inr d \<and> sint (raw d) = 4301210000000)"
proof -
  have s: "decimal_syntax False ''43012'' ''10'' ''43012.10''"
    by (simp add: decimal_syntax_def isdigit_def)
  have u: "decimal_units False ''43012'' ''10'' = 4301210000000"
    by (simp add: decimal_units_def digits_value_def digit_value_def)
  show ?thesis
    using s Decimal_parse_exact [OF s] by (simp add: u)
qed

theorem Decimal_mul_truncates_witness:
  "\<bar>(4301210000000 * 50000000 :: int)
     - sint (raw (Decimal_mul (from_raw 4301210000000) (from_raw 50000000))) * 100000000\<bar>
   < 100000000"
proof -
  have a: "sint (4301210000000 :: i64) = 4301210000000" "sint (50000000 :: i64) = 50000000"
    by code_simp+
  have "\<bar>sint (raw (from_raw 4301210000000)) * sint (raw (from_raw 50000000)) sdiv kScaleFactor\<bar>
        < 2 ^ 63"
    by code_simp
  from Decimal_mul_truncates [OF this] show ?thesis
    unfolding decimal.sel a Let_def ..
qed

end
