(* ===== verification/TradeEvent.thy ===== *)
theory TradeEvent
  imports Decimal
begin

text \<open>
  The normalized trade, \<^verbatim>\<open>app/include/agg/model/TradeEvent.hpp\<close>. The fields carry the
  prefix \<open>te_\<close> because \<^verbatim>\<open>WindowStats\<close> has a field \<^verbatim>\<open>symbol\<close> too.
\<close>

record TradeEvent =
  te_symbol :: string
  te_trade_id :: u64
  te_price :: decimal
  te_quantity :: decimal
  te_trade_time_ms :: u64
  te_buyer_is_maker :: bool

end
