(* ===== verification/Json_Library.thy ===== *)
theory Json_Library
  imports Complex_Main Agg_Prelude
begin

text \<open>
  The JSON library \<^verbatim>\<open>nlohmann::json\<close> is third-party code, so it is a parameter: a record
  of the operations the sources call, over an arbitrary type \<open>'j\<close> of JSON values. An
  operation that can throw returns an option, \<open>None\<close> for the exception; \<^verbatim>\<open>operator[]\<close> on a
  const value returns an option, \<open>None\<close> for an absent key, which the library documents as
  undefined. A \<^verbatim>\<open>double\<close> is the rational number it stands for.
\<close>

section \<open>The operations\<close>

record 'j json_lib =
  json_parse :: "string \<Rightarrow> 'j option"
  json_is_object :: "'j \<Rightarrow> bool"
  json_is_array :: "'j \<Rightarrow> bool"
  json_is_string :: "'j \<Rightarrow> bool"
  json_is_number_unsigned :: "'j \<Rightarrow> bool"
  json_is_number :: "'j \<Rightarrow> bool"
  json_is_boolean :: "'j \<Rightarrow> bool"
  json_contains :: "'j \<Rightarrow> string \<Rightarrow> bool"
  json_index :: "'j \<Rightarrow> string \<Rightarrow> 'j option"
  json_elements :: "'j \<Rightarrow> 'j list"
  json_get_string :: "'j \<Rightarrow> string option"
  json_get_u64 :: "'j \<Rightarrow> u64 option"
  json_get_bool :: "'j \<Rightarrow> bool option"
  json_get_double :: "'j \<Rightarrow> rat option"

text \<open>
  What the sources rely on, as the library documents it: \<^verbatim>\<open>contains\<close> is true only for an
  object that has the key, \<^verbatim>\<open>operator[]\<close> then returns the value, and \<^verbatim>\<open>get<T>\<close> does not
  throw on a value of the matching type.
\<close>

definition json_documented :: "'j json_lib \<Rightarrow> bool" where
  "json_documented J \<longleftrightarrow>
     (\<forall>j k. json_contains J j k \<longrightarrow> json_is_object J j \<and> json_index J j k \<noteq> None) \<and>
     (\<forall>j. json_is_string J j \<longrightarrow> json_get_string J j \<noteq> None) \<and>
     (\<forall>j. json_is_number_unsigned J j \<longrightarrow> json_get_u64 J j \<noteq> None) \<and>
     (\<forall>j. json_is_boolean J j \<longrightarrow> json_get_bool J j \<noteq> None) \<and>
     (\<forall>j. json_is_number J j \<longrightarrow> json_get_double J j \<noteq> None)"

section \<open>Failing library calls\<close>

text \<open>
  A library call that fails where the code has no handler: an exception of \<^verbatim>\<open>get<T>\<close>, or
  an index with an absent key. \<open>and_also\<close> is the short-circuit \<^verbatim>\<open>&&\<close> on such results.
\<close>

datatype json_failure = TypeError | MissingKey string

abbreviation try_then :: "'e + 'a \<Rightarrow> ('a \<Rightarrow> 'e + 'b) \<Rightarrow> 'e + 'b" where
  "try_then r f \<equiv> (case r of Inl e \<Rightarrow> Inl e | Inr a \<Rightarrow> f a)"

definition and_also :: "'e + bool \<Rightarrow> 'e + bool \<Rightarrow> 'e + bool" where
  "and_also a b = try_then a (\<lambda>x. if x then b else Inr False)"

definition json_at :: "'j json_lib \<Rightarrow> 'j \<Rightarrow> string \<Rightarrow> json_failure + 'j" where
  "json_at J j k = (case json_index J j k of None \<Rightarrow> Inl (MissingKey k) | Some v \<Rightarrow> Inr v)"

definition checked_get :: "('j \<Rightarrow> 'a option) \<Rightarrow> 'j \<Rightarrow> json_failure + 'a" where
  "checked_get get j = (case get j of None \<Rightarrow> Inl TypeError | Some a \<Rightarrow> Inr a)"

text \<open>\<^verbatim>\<open>j[k].get<T>()\<close>, and \<^verbatim>\<open>j.contains(k) && j[k].is_T()\<close>.\<close>

definition get_field ::
    "'j json_lib \<Rightarrow> ('j \<Rightarrow> 'a option) \<Rightarrow> 'j \<Rightarrow> string \<Rightarrow> json_failure + 'a" where
  "get_field J get j k = try_then (json_at J j k) (checked_get get)"

definition field_is :: "'j json_lib \<Rightarrow> ('j \<Rightarrow> bool) \<Rightarrow> 'j \<Rightarrow> string \<Rightarrow> json_failure + bool" where
  "field_is J is_type j k =
     and_also (Inr (json_contains J j k)) (try_then (json_at J j k) (\<lambda>v. Inr (is_type v)))"

section \<open>Typed lookup\<close>

text \<open>
  The reference for a checked field access: the value of the member \<open>k\<close> of \<open>j\<close>, when
  there is one and it has the wanted type.
\<close>

definition typed_field ::
    "'j json_lib \<Rightarrow> ('j \<Rightarrow> bool) \<Rightarrow> ('j \<Rightarrow> 'a option) \<Rightarrow> 'j \<Rightarrow> string \<Rightarrow> 'a option" where
  "typed_field J is_type get j k =
     (if json_contains J j k then
        (case json_index J j k of
           None \<Rightarrow> None
         | Some v \<Rightarrow> if is_type v then get v else None)
      else None)"

lemma and_also_Inr [simp]:
  "and_also (Inr a) (Inr b) = Inr (a \<and> b)"
  by (simp add: and_also_def)

lemma json_documentedD:
  assumes "json_documented J"
  shows "json_contains J j k \<Longrightarrow> json_is_object J j"
    and "json_contains J j k \<Longrightarrow> \<exists>v. json_index J j k = Some v"
    and "json_is_string J j \<Longrightarrow> json_get_string J j \<noteq> None"
    and "json_is_number_unsigned J j \<Longrightarrow> json_get_u64 J j \<noteq> None"
    and "json_is_boolean J j \<Longrightarrow> json_get_bool J j \<noteq> None"
    and "json_is_number J j \<Longrightarrow> json_get_double J j \<noteq> None"
  using assms unfolding json_documented_def by blast+

lemma field_is_documented:
  "json_documented J \<Longrightarrow>
     field_is J is_type j k =
       Inr (json_contains J j k \<and> is_type (the (json_index J j k)))"
  by (auto simp: field_is_def json_at_def and_also_def split: option.splits
      dest: json_documentedD(2))

lemma typed_field_Some_iff:
  assumes "json_documented J"
  shows "typed_field J is_type get j k = Some a \<longleftrightarrow>
     json_contains J j k \<and> is_type (the (json_index J j k)) \<and> get_field J get j k = Inr a"
  using assms by (auto simp: typed_field_def get_field_def json_at_def checked_get_def
      split: option.splits if_splits dest: json_documentedD(2))

lemma get_field_checked:
  assumes "json_documented J" and "json_contains J j k" and "is_type (the (json_index J j k))"
    and "\<And>v. is_type v \<Longrightarrow> get v \<noteq> None"
  shows "\<exists>a. get_field J get j k = Inr a \<and> typed_field J is_type get j k = Some a"
proof -
  obtain v where v: "json_index J j k = Some v"
    using json_documentedD(2) [OF assms(1,2)] by blast
  with assms(3,4) obtain a where "get v = Some a" "is_type v"
    by fastforce
  with v assms(2) show ?thesis
    by (simp add: typed_field_def get_field_def json_at_def checked_get_def)
qed

section \<open>A concrete instance\<close>

text \<open>
  A small instance of the interface, for concrete inputs: the values of the library's
  \<^verbatim>\<open>value_t\<close> that the sources distinguish, and a parser given by a finite table.
\<close>

datatype json_value =
    JNull
  | JBool bool
  | JUnsigned u64
  | JFloat rat
  | JString string
  | JArray "json_value list"
  | JObject "(string \<times> json_value) list"

fun member_of :: "json_value \<Rightarrow> string \<Rightarrow> json_value option" where
  "member_of (JObject ms) k = map_of ms k"
| "member_of _ k = None"

definition table_json :: "(string \<times> json_value) list \<Rightarrow> json_value json_lib" where
  "table_json table = \<lparr>
     json_parse = map_of table,
     json_is_object = (\<lambda>j. case j of JObject _ \<Rightarrow> True | _ \<Rightarrow> False),
     json_is_array = (\<lambda>j. case j of JArray _ \<Rightarrow> True | _ \<Rightarrow> False),
     json_is_string = (\<lambda>j. case j of JString _ \<Rightarrow> True | _ \<Rightarrow> False),
     json_is_number_unsigned = (\<lambda>j. case j of JUnsigned _ \<Rightarrow> True | _ \<Rightarrow> False),
     json_is_number = (\<lambda>j. case j of JUnsigned _ \<Rightarrow> True | JFloat _ \<Rightarrow> True | _ \<Rightarrow> False),
     json_is_boolean = (\<lambda>j. case j of JBool _ \<Rightarrow> True | _ \<Rightarrow> False),
     json_contains = (\<lambda>j k. member_of j k \<noteq> None),
     json_index = member_of,
     json_elements = (\<lambda>j. case j of JArray js \<Rightarrow> js | _ \<Rightarrow> []),
     json_get_string = (\<lambda>j. case j of JString s \<Rightarrow> Some s | _ \<Rightarrow> None),
     json_get_u64 = (\<lambda>j. case j of JUnsigned n \<Rightarrow> Some n | _ \<Rightarrow> None),
     json_get_bool = (\<lambda>j. case j of JBool b \<Rightarrow> Some b | _ \<Rightarrow> None),
     json_get_double = (\<lambda>j. case j of JUnsigned n \<Rightarrow> Some (of_int (uint n))
                                    | JFloat r \<Rightarrow> Some r | _ \<Rightarrow> None)\<rparr>"

lemma table_json_documented [simp]: "json_documented (table_json table)"
proof -
  have "json_is_object (table_json table) j" if "member_of j k \<noteq> None" for j k
    using that by (cases j) (auto simp: table_json_def)
  then show ?thesis
    by (auto simp: json_documented_def table_json_def split: json_value.splits)
qed

end
