(* ===== verification/BinanceTradeParser.thy ===== *)
theory BinanceTradeParser
  imports TradeEvent Json_Library
begin

text \<open>
  \<^verbatim>\<open>app/src/parse/BinanceTradeParser.cpp\<close>: from a raw message to an optional trade. The
  result is \<open>Inr None\<close> for \<^verbatim>\<open>std::nullopt\<close>, \<open>Inr (Some e)\<close> for an event, and \<open>Inl f\<close>
  where a library call fails outside every handler of the function, so that the failure
  would escape into the parser thread. The JSON library is the parameter \<open>J\<close>.
\<close>

section \<open>Definitions\<close>

definition unwrap_payload :: "'j json_lib \<Rightarrow> 'j \<Rightarrow> json_failure + 'j" where
  "unwrap_payload J root_json =
     (if json_contains J root_json ''data'' then json_at J root_json ''data'' else Inr root_json)"

definition has_required_fields :: "'j json_lib \<Rightarrow> 'j \<Rightarrow> json_failure + bool" where
  "has_required_fields J payload =
     and_also (field_is J (json_is_string J) payload ''s'')
    (and_also (field_is J (json_is_number_unsigned J) payload ''t'')
    (and_also (field_is J (json_is_string J) payload ''p'')
    (and_also (field_is J (json_is_string J) payload ''q'')
    (and_also (field_is J (json_is_number_unsigned J) payload ''T'')
              (field_is J (json_is_boolean J) payload ''m'')))))"

definition is_unsupported_event_type :: "'j json_lib \<Rightarrow> 'j \<Rightarrow> json_failure + bool" where
  "is_unsupported_event_type J payload =
     and_also (field_is J (json_is_string J) payload ''e'')
       (try_then (get_field J (json_get_string J) payload ''e'') (\<lambda>e. Inr (e \<noteq> ''trade'')))"

text \<open>
  The second half of \<^verbatim>\<open>BinanceTradeParser::parse\<close>, from the declaration of \<^verbatim>\<open>event\<close>: the
  handler around the two decimal conversions turns \<^verbatim>\<open>std::invalid_argument\<close> into
  \<^verbatim>\<open>nullopt\<close>.
\<close>

definition build_event :: "'j json_lib \<Rightarrow> 'j \<Rightarrow> json_failure + TradeEvent option" where
  "build_event J payload =
     try_then (get_field J (json_get_string J) payload ''s'') (\<lambda>symbol.
     try_then (get_field J (json_get_u64 J) payload ''t'') (\<lambda>trade_id.
     try_then (get_field J (json_get_u64 J) payload ''T'') (\<lambda>trade_time_ms.
     try_then (get_field J (json_get_bool J) payload ''m'') (\<lambda>buyer_is_maker.
     try_then (get_field J (json_get_string J) payload ''p'') (\<lambda>price_text.
       case Decimal_parse price_text of
         Inl _ \<Rightarrow> Inr None
       | Inr price \<Rightarrow>
           try_then (get_field J (json_get_string J) payload ''q'') (\<lambda>quantity_text.
             case Decimal_parse quantity_text of
               Inl _ \<Rightarrow> Inr None
             | Inr quantity \<Rightarrow>
                 Inr (Some \<lparr>te_symbol = symbol, te_trade_id = trade_id, te_price = price,
                            te_quantity = quantity, te_trade_time_ms = trade_time_ms,
                            te_buyer_is_maker = buyer_is_maker\<rparr>)))))))"

definition BinanceTradeParser_parse :: "'j json_lib \<Rightarrow> string \<Rightarrow> json_failure + TradeEvent option" where
  "BinanceTradeParser_parse J raw_message =
     (case json_parse J raw_message of
        None \<Rightarrow> Inr None
      | Some root_json \<Rightarrow>
          if \<not> json_is_object J root_json then Inr None
          else
            try_then (unwrap_payload J root_json) (\<lambda>payload.
              if \<not> json_is_object J payload then Inr None
              else
                try_then (is_unsupported_event_type J payload) (\<lambda>unsupported.
                  if unsupported then Inr None
                  else
                    try_then (has_required_fields J payload) (\<lambda>complete.
                      if \<not> complete then Inr None else build_event J payload))))"

section \<open>What a trade payload is\<close>

abbreviation string_field :: "'j json_lib \<Rightarrow> 'j \<Rightarrow> string \<Rightarrow> string option" where
  "string_field J \<equiv> typed_field J (json_is_string J) (json_get_string J)"

abbreviation u64_field :: "'j json_lib \<Rightarrow> 'j \<Rightarrow> string \<Rightarrow> u64 option" where
  "u64_field J \<equiv> typed_field J (json_is_number_unsigned J) (json_get_u64 J)"

abbreviation bool_field :: "'j json_lib \<Rightarrow> 'j \<Rightarrow> string \<Rightarrow> bool option" where
  "bool_field J \<equiv> typed_field J (json_is_boolean J) (json_get_bool J)"

definition payload_denotes :: "'j json_lib \<Rightarrow> 'j \<Rightarrow> TradeEvent \<Rightarrow> bool" where
  "payload_denotes J payload e \<longleftrightarrow>
     json_is_object J payload \<and>
     string_field J payload ''e'' \<in> {None, Some ''trade''} \<and>
     string_field J payload ''s'' = Some (te_symbol e) \<and>
     u64_field J payload ''t'' = Some (te_trade_id e) \<and>
     u64_field J payload ''T'' = Some (te_trade_time_ms e) \<and>
     bool_field J payload ''m'' = Some (te_buyer_is_maker e) \<and>
     (\<exists>p. string_field J payload ''p'' = Some p \<and> Decimal_parse p = Inr (te_price e)) \<and>
     (\<exists>q. string_field J payload ''q'' = Some q \<and> Decimal_parse q = Inr (te_quantity e))"

definition payload_of :: "'j json_lib \<Rightarrow> 'j \<Rightarrow> 'j" where
  "payload_of J root_json =
     (if json_contains J root_json ''data'' then the (json_index J root_json ''data'') else root_json)"

definition message_denotes :: "'j json_lib \<Rightarrow> string \<Rightarrow> TradeEvent \<Rightarrow> bool" where
  "message_denotes J msg e \<longleftrightarrow>
     (\<exists>root_json. json_parse J msg = Some root_json \<and> json_is_object J root_json
        \<and> payload_denotes J (payload_of J root_json) e)"

section \<open>Lemmas\<close>

lemma unwrap_payload_eq:
  assumes "json_documented J"
  shows "unwrap_payload J root_json = Inr (payload_of J root_json)"
  using json_documentedD(2) [OF assms, of root_json "''data''"]
  by (auto simp: unwrap_payload_def payload_of_def json_at_def)

lemma typed_field_None_or_Some:
  assumes "json_documented J" and "\<And>v. is_type v \<Longrightarrow> get v \<noteq> None"
  shows "typed_field J is_type get j k \<noteq> None \<longleftrightarrow>
     json_contains J j k \<and> is_type (the (json_index J j k))"
  using get_field_checked [OF assms(1), of j k is_type get] assms(2)
    typed_field_Some_iff [OF assms(1)] by (metis not_None_eq)

lemma field_present_iff:
  assumes "json_documented J"
  shows "string_field J j k \<noteq> None \<longleftrightarrow> json_contains J j k \<and> json_is_string J (the (json_index J j k))"
    and "u64_field J j k \<noteq> None \<longleftrightarrow>
           json_contains J j k \<and> json_is_number_unsigned J (the (json_index J j k))"
    and "bool_field J j k \<noteq> None \<longleftrightarrow> json_contains J j k \<and> json_is_boolean J (the (json_index J j k))"
  by (rule typed_field_None_or_Some [OF assms], erule json_documentedD [OF assms])+

lemma has_required_fields_eq:
  assumes "json_documented J"
  shows "has_required_fields J payload = Inr
    (string_field J payload ''s'' \<noteq> None \<and> u64_field J payload ''t'' \<noteq> None \<and>
     string_field J payload ''p'' \<noteq> None \<and> string_field J payload ''q'' \<noteq> None \<and>
     u64_field J payload ''T'' \<noteq> None \<and> bool_field J payload ''m'' \<noteq> None)"
  unfolding has_required_fields_def field_is_documented [OF assms] and_also_Inr
    field_present_iff [OF assms] ..

lemma typed_field_get:
  "json_documented J \<Longrightarrow> typed_field J is_type get j k = Some a \<Longrightarrow> get_field J get j k = Inr a"
  by (simp add: typed_field_Some_iff)

lemma is_unsupported_event_type_eq:
  assumes "json_documented J"
  shows "is_unsupported_event_type J payload =
    Inr (string_field J payload ''e'' \<notin> {None, Some ''trade''})"
proof (cases "string_field J payload ''e''")
  case None
  then have "\<not> (json_contains J payload ''e'' \<and> json_is_string J (the (json_index J payload ''e'')))"
    unfolding field_present_iff(1) [OF assms, symmetric] by simp
  with None show ?thesis
    by (auto simp: is_unsupported_event_type_def field_is_documented [OF assms] and_also_def)
next
  case (Some e)
  with typed_field_Some_iff [OF assms, of "json_is_string J" "json_get_string J" payload] show ?thesis
    by (auto simp: is_unsupported_event_type_def field_is_documented [OF assms] and_also_def)
qed

lemma build_event_eq:
  assumes "json_documented J"
    and "string_field J payload ''s'' = Some s" and "u64_field J payload ''t'' = Some i"
    and "u64_field J payload ''T'' = Some ts" and "bool_field J payload ''m'' = Some m"
    and "string_field J payload ''p'' = Some p" and "string_field J payload ''q'' = Some q"
  shows "build_event J payload = Inr
    (case (Decimal_parse p, Decimal_parse q) of
       (Inr pr, Inr qt) \<Rightarrow> Some \<lparr>te_symbol = s, te_trade_id = i, te_price = pr, te_quantity = qt,
                              te_trade_time_ms = ts, te_buyer_is_maker = m\<rparr>
     | _ \<Rightarrow> None)"
  using assms(2-)
  by (auto simp: build_event_def typed_field_get [OF assms(1)] split: sum.splits)

text \<open>The whole function as one equation over the typed fields of the payload.\<close>

lemma parse_payload_cases:
  assumes doc: "json_documented J" and root_json: "json_parse J msg = Some root_json"
    "json_is_object J root_json"
  shows "\<exists>r. BinanceTradeParser_parse J msg = Inr r
    \<and> (\<forall>e. r = Some e \<longleftrightarrow> payload_denotes J (payload_of J root_json) e)"
proof -
  let ?p = "payload_of J root_json"
  have eq: "BinanceTradeParser_parse J msg =
      (if \<not> json_is_object J ?p \<or> string_field J ?p ''e'' \<notin> {None, Some ''trade''}
          \<or> has_required_fields J ?p \<noteq> Inr True then Inr None else build_event J ?p)"
    using root_json by (auto simp: BinanceTradeParser_parse_def unwrap_payload_eq [OF doc]
        is_unsupported_event_type_eq [OF doc] has_required_fields_eq [OF doc])
  show ?thesis
  proof (cases "json_is_object J ?p \<and> string_field J ?p ''e'' \<in> {None, Some ''trade''}
      \<and> has_required_fields J ?p = Inr True")
    case False
    then have "\<not> payload_denotes J ?p e" for e
      by (auto simp: payload_denotes_def has_required_fields_eq [OF doc])
    with False eq show ?thesis by auto
  next
    case True
    then obtain s i ts m p q where f: "string_field J ?p ''s'' = Some s"
      "u64_field J ?p ''t'' = Some i" "u64_field J ?p ''T'' = Some ts"
      "bool_field J ?p ''m'' = Some m" "string_field J ?p ''p'' = Some p"
      "string_field J ?p ''q'' = Some q"
      unfolding has_required_fields_eq [OF doc] by auto
    from True eq have "BinanceTradeParser_parse J msg = build_event J ?p" by simp
    with True f show ?thesis
      by (auto simp: build_event_eq [OF doc f] payload_denotes_def split: sum.splits)
  qed
qed

lemma parse_total:
  assumes "json_documented J"
  shows "\<exists>r. BinanceTradeParser_parse J msg = Inr r"
proof (cases "\<exists>root_json. json_parse J msg = Some root_json \<and> json_is_object J root_json")
  case True
  then show ?thesis using parse_payload_cases [OF assms, of msg] by blast
next
  case False
  then show ?thesis by (auto simp: BinanceTradeParser_parse_def split: option.splits)
qed

lemma parse_Some_iff:
  assumes "json_documented J"
  shows "BinanceTradeParser_parse J msg = Inr (Some e) \<longleftrightarrow> message_denotes J msg e"
proof (cases "\<exists>root_json. json_parse J msg = Some root_json \<and> json_is_object J root_json")
  case True
  then obtain root_json where "json_parse J msg = Some root_json" "json_is_object J root_json"
    by blast
  with parse_payload_cases [OF assms] show ?thesis by (fastforce simp: message_denotes_def)
next
  case False
  then show ?thesis
    by (auto simp: BinanceTradeParser_parse_def message_denotes_def split: option.splits)
qed

section \<open>Properties\<close>

text \<open>
  C18: \<^verbatim>\<open>BinanceTradeParser::parse\<close> returns the event \<open>e\<close> exactly when the message is a
  JSON object whose payload (the member \<^verbatim>\<open>data\<close> of a combined-stream envelope, or the object
  itself) is an object with the six typed fields of \<open>e\<close>, parseable price and quantity and,
  if it names an event type, the type \<^verbatim>\<open>trade\<close>; on every other text it returns
  \<^verbatim>\<open>nullopt\<close>. In particular no message makes it throw: every index and every \<^verbatim>\<open>get\<close> is
  guarded by the check the library asks for.
\<close>

theorem BinanceTradeParser_parse_correct:
  assumes "json_documented J"
  shows "(BinanceTradeParser_parse J msg = Inr (Some e) \<longleftrightarrow> message_denotes J msg e)
     \<and> (BinanceTradeParser_parse J msg = Inr None \<longleftrightarrow> (\<nexists>e. message_denotes J msg e))"
proof -
  obtain r where "BinanceTradeParser_parse J msg = Inr r"
    using parse_total [OF assms(1)] by blast
  then show ?thesis
    unfolding parse_Some_iff [OF assms, symmetric] by (cases r; simp)
qed

text \<open>
  A combined-stream message is the raw message in an envelope. When the member
  \<^verbatim>\<open>data\<close> of an object is the payload of a raw message, both messages give the same result.
\<close>

theorem BinanceTradeParser_envelope:
  assumes "json_documented J"
    and "json_parse J enveloped = Some env" and "json_index J env ''data'' = Some payload"
    and "json_contains J env ''data''"
    and "json_parse J bare = Some payload" and "\<not> json_contains J payload ''data''"
  shows "BinanceTradeParser_parse J enveloped = BinanceTradeParser_parse J bare"
proof -
  have env: "json_is_object J env" "payload_of J env = payload" "payload_of J payload = payload"
    using assms json_documentedD(1) [OF assms(1,4)] by (simp_all add: payload_of_def)
  have "BinanceTradeParser_parse J enveloped = Inr (Some e)
      \<longleftrightarrow> BinanceTradeParser_parse J bare = Inr (Some e)" for e
    unfolding parse_Some_iff [OF assms(1)] message_denotes_def using assms env
    by (auto simp: payload_denotes_def)
  then show ?thesis
    using parse_total [OF assms(1), of enveloped] parse_total [OF assms(1), of bare]
    by (metis not_None_eq)
qed

section \<open>Witnesses\<close>

definition sample_payload :: json_value where
  "sample_payload = JObject [(''e'', JString ''trade''), (''s'', JString ''BTCUSDT''),
     (''t'', JUnsigned 12345), (''p'', JString ''43012.10''), (''q'', JString ''0.5''),
     (''T'', JUnsigned 123456785), (''m'', JBool True)]"

definition sample_lib :: "json_value json_lib" where
  "sample_lib = table_json [(''raw'', sample_payload),
     (''combined'', JObject [(''stream'', JString ''btcusdt@trade''), (''data'', sample_payload)])]"

lemma sample_lib_documented [simp]: "json_documented sample_lib"
  by (simp add: sample_lib_def)

theorem BinanceTradeParser_parse_correct_witness:
  "payload_denotes sample_lib sample_payload
     \<lparr>te_symbol = ''BTCUSDT'', te_trade_id = 12345, te_price = from_raw 4301210000000,
      te_quantity = from_raw 50000000, te_trade_time_ms = 123456785, te_buyer_is_maker = True\<rparr>"
proof -
  have "BinanceTradeParser_parse sample_lib ''raw'' = Inr (Some
     \<lparr>te_symbol = ''BTCUSDT'', te_trade_id = 12345, te_price = from_raw 4301210000000,
      te_quantity = from_raw 50000000, te_trade_time_ms = 123456785, te_buyer_is_maker = True\<rparr>)"
    by code_simp
  then have "message_denotes sample_lib ''raw''
     \<lparr>te_symbol = ''BTCUSDT'', te_trade_id = 12345, te_price = from_raw 4301210000000,
      te_quantity = from_raw 50000000, te_trade_time_ms = 123456785, te_buyer_is_maker = True\<rparr>"
    using BinanceTradeParser_parse_correct [OF sample_lib_documented] by blast
  moreover have "json_parse sample_lib ''raw'' = Some sample_payload"
    "payload_of sample_lib sample_payload = sample_payload"
    by (simp_all add: sample_lib_def table_json_def payload_of_def sample_payload_def)
  ultimately show ?thesis by (auto simp: message_denotes_def)
qed

theorem BinanceTradeParser_envelope_witness:
  "BinanceTradeParser_parse sample_lib ''combined'' = BinanceTradeParser_parse sample_lib ''raw''"
  by (rule BinanceTradeParser_envelope [OF sample_lib_documented, where payload = sample_payload
        and env = "JObject [(''stream'', JString ''btcusdt@trade''), (''data'', sample_payload)]"])
    (simp_all add: sample_lib_def table_json_def sample_payload_def)

end
