(* ===== verification/Window_Store.thy ===== *)
theory Window_Store
  imports Agg_Prelude
begin

text \<open>
  The contract between an aggregator and its clients. A store holds items, each belonging
  to a key; an item is added, and a drain removes every group whose key is complete and
  returns the digest of each removed group. The law is that a store always behaves as the
  list of items added and not yet drained. What follows for every sequence of operations is
  proved once here: the digests returned so far and the items still held account for every
  added item exactly once.
\<close>

section \<open>Sequences of operations\<close>

datatype ('t, 'c) store_op = Add 't | Drain 'c

fun run_store ::
    "('a \<Rightarrow> 't \<Rightarrow> 'a option) \<Rightarrow> ('c \<Rightarrow> 'a \<Rightarrow> 'w list \<times> 'a) \<Rightarrow> ('t, 'c) store_op list \<Rightarrow> 'a
     \<Rightarrow> ('w list \<times> 'a) option" where
  "run_store add drain [] a = Some ([], a)"
| "run_store add drain (Add t # ops) a =
     (case add a t of None \<Rightarrow> None | Some a' \<Rightarrow> run_store add drain ops a')"
| "run_store add drain (Drain c # ops) a =
     (case drain c a of (out, a') \<Rightarrow>
        map_option (\<lambda>(outs, a''). (out @ outs, a'')) (run_store add drain ops a'))"

fun added :: "('t, 'c) store_op list \<Rightarrow> 't list" where
  "added [] = []"
| "added (Add t # ops) = t # added ops"
| "added (Drain c # ops) = added ops"

lemma run_store_append:
  "run_store add drain xs a = Some (out, a1) \<Longrightarrow> run_store add drain ys a1 = Some (out', a2) \<Longrightarrow>
     run_store add drain (xs @ ys) a = Some (out @ out', a2)"
  by (induction add drain xs a arbitrary: out rule: run_store.induct)
    (auto split: option.splits prod.splits)

lemma added_append [simp]: "added (xs @ ys) = added xs @ added ys"
  by (induction xs rule: added.induct) simp_all

text \<open>
  No item comes late: none is added whose key a drain before it has already completed. The
  argument \<open>cs\<close> lists the drains so far.
\<close>

fun timely :: "('c \<Rightarrow> 'k \<Rightarrow> bool) \<Rightarrow> ('t \<Rightarrow> 'k) \<Rightarrow> 'c list \<Rightarrow> ('t, 'c) store_op list \<Rightarrow> bool" where
  "timely late key cs [] = True"
| "timely late key cs (Add t # ops) = (list_all (\<lambda>c. \<not> late c (key t)) cs \<and> timely late key cs ops)"
| "timely late key cs (Drain c # ops) = timely late key (c # cs) ops"

lemma timely_added:
  "timely late key cs ops \<Longrightarrow> t \<in> set (added ops) \<Longrightarrow> c \<in> set cs \<Longrightarrow> \<not> late c (key t)"
  by (induction late key cs ops rule: timely.induct) (auto simp: list_all_iff)

lemma timely_drained:
  "timely late key (c # cs) ops \<Longrightarrow> late c k \<Longrightarrow> filter (\<lambda>t. key t = k) (added ops) = []"
  using timely_added [of late key "c # cs" ops _ c] by (auto simp: filter_empty_conv)

text \<open>A list of groups: every group is non-empty and all its items have the group's key.\<close>

definition grouped :: "('t \<Rightarrow> 'k) \<Rightarrow> ('k \<times> 't list) list \<Rightarrow> bool" where
  "grouped key gs \<longleftrightarrow> (\<forall>(k, b) \<in> set gs. b \<noteq> [] \<and> (\<forall>t \<in> set b. key t = k))"

definition group_items :: "('k \<times> 't list) list \<Rightarrow> 't multiset" where
  "group_items gs = mset (concat (map snd gs))"

lemma grouped_append [simp]: "grouped key (gs @ hs) \<longleftrightarrow> grouped key gs \<and> grouped key hs"
  by (auto simp: grouped_def)

lemma group_items_append [simp]: "group_items (gs @ hs) = group_items gs + group_items hs"
  by (simp add: group_items_def)

text \<open>Groups with different keys are determined by the items they contain.\<close>

lemma grouped_filter:
  assumes "grouped key gs" and "distinct (map fst gs)"
  shows "filter_mset (\<lambda>t. key t = k) (group_items gs) = (case map_of gs k of None \<Rightarrow> {#} | Some b \<Rightarrow> mset b)"
  using assms
proof (induction gs)
  case (Cons g gs)
  obtain k' b where g: "g = (k', b)" by (cases g)
  have b: "b \<noteq> []" "\<forall>t \<in> set b. key t = k'" and gs: "grouped key gs" "distinct (map fst gs)" "k' \<notin> fst ` set gs"
    using Cons.prems by (auto simp: grouped_def g)
  have "filter_mset (\<lambda>t. key t = k) (mset b) = (if k' = k then mset b else {#})"
    using b(2) by (induction b) auto
  moreover have "map_of gs k' = None"
    using gs(3) by (simp add: map_of_eq_None_iff)
  ultimately show ?case
    using Cons.IH [OF gs(1,2)] by (simp add: g group_items_def)
qed (simp add: group_items_def)

lemma grouped_whole:
  assumes "grouped key gs" and "distinct (map fst gs)" and "group_items gs = mset ts"
  shows "(k, b) \<in> set gs \<Longrightarrow> mset b = mset (filter (\<lambda>t. key t = k) ts)"
    and "fst ` set gs = key ` set ts"
proof -
  show "mset b = mset (filter (\<lambda>t. key t = k) ts)" if "(k, b) \<in> set gs"
    using grouped_filter [OF assms(1,2), of k] map_of_is_SomeI [OF assms(2) that] by (simp add: assms(3))
  have "set ts = \<Union> (set ` snd ` set gs)"
    using arg_cong [OF assms(3), of set_mset] by (simp add: group_items_def)
  moreover have "fst ` set gs = key ` \<Union> (set ` snd ` set gs)"
    using assms(1) by (force simp: grouped_def image_iff neq_Nil_conv)
  ultimately show "fst ` set gs = key ` set ts" by simp
qed

section \<open>The interface\<close>

locale window_store =
  fixes rep :: "'t list \<Rightarrow> 'a \<Rightarrow> bool"
    and add :: "'a \<Rightarrow> 't \<Rightarrow> 'a option"
    and drain :: "'c \<Rightarrow> 'a \<Rightarrow> 'w list \<times> 'a"
    and key :: "'a \<Rightarrow> 't \<Rightarrow> 'k"
    and complete :: "'c \<Rightarrow> 'k \<Rightarrow> bool"
    and digest :: "'k \<Rightarrow> 't list \<Rightarrow> 'w"
  assumes rep_add: "rep ts a \<Longrightarrow> \<exists>a'. add a t = Some a' \<and> rep (ts @ [t]) a' \<and> key a' = key a"
    and rep_drain: "rep ts a \<Longrightarrow> rep (filter (\<lambda>t. \<not> complete c (key a t)) ts) (snd (drain c a))"
    and key_drain: "rep ts a \<Longrightarrow> key (snd (drain c a)) = key a"
    and drain_out: "rep ts a \<Longrightarrow> \<exists>ks. distinct ks
          \<and> set ks = {k. complete c k \<and> filter (\<lambda>t. key a t = k) ts \<noteq> []}
          \<and> fst (drain c a) = map (\<lambda>k. digest k (filter (\<lambda>t. key a t = k) ts)) ks"
begin

lemma drain_groups:
  assumes "rep ts a"
  shows "\<exists>gs. grouped (key a) gs \<and> fst (drain c a) = map (\<lambda>(k, b). digest k b) gs
     \<and> distinct (map fst gs) \<and> (\<forall>k \<in> fst ` set gs. complete c k)
     \<and> group_items gs + mset (filter (\<lambda>t. \<not> complete c (key a t)) ts) = mset ts"
proof -
  obtain ks where ks: "distinct ks"
    "set ks = {k. complete c k \<and> filter (\<lambda>t. key a t = k) ts \<noteq> []}"
    "fst (drain c a) = map (\<lambda>k. digest k (filter (\<lambda>t. key a t = k) ts)) ks"
    using drain_out [OF assms] by blast
  let ?gs = "map (\<lambda>k. (k, filter (\<lambda>t. key a t = k) ts)) ks"
  have "grouped (key a) ?gs"
    using ks(2) by (auto simp: grouped_def)
  moreover have "fst (drain c a) = map (\<lambda>(k, b). digest k b) ?gs"
    using ks(3) by simp
  moreover have "distinct (map fst ?gs)" "\<forall>k \<in> fst ` set ?gs. complete c k"
    using ks(1,2) by (simp_all add: comp_def)
  moreover have "group_items ?gs = filter_mset (\<lambda>t. key a t \<in> set ks) (mset ts)"
    using mset_concat_groups [OF ks(1), of "key a" ts] by (simp add: group_items_def comp_def)
  moreover have "filter_mset (\<lambda>t. key a t \<in> set ks) (mset ts)
      = filter_mset (\<lambda>t. complete c (key a t)) (mset ts)"
    by (rule filter_mset_cong) (auto simp: ks(2) filter_empty_conv)
  ultimately show ?thesis
    by (intro exI [of _ ?gs]) (simp add: multiset_partition [symmetric])
qed

lemma run_accounts:
  assumes "rep ts a"
  shows "\<exists>out a' gs held. run_store add drain ops a = Some (out, a') \<and> rep held a'
     \<and> key a' = key a \<and> grouped (key a) gs \<and> out = map (\<lambda>(k, b). digest k b) gs
     \<and> group_items gs + mset held = mset ts + mset (added ops)"
  using assms
proof (induction ops arbitrary: ts a)
  case Nil
  then show ?case
    by (intro exI [of _ "[]"] exI [of _ a] exI [of _ ts]) (simp add: grouped_def group_items_def)
next
  case (Cons op ops)
  show ?case
  proof (cases op)
    case (Add t)
    from rep_add [OF Cons.prems] obtain a1
      where a1: "add a t = Some a1" "rep (ts @ [t]) a1" "key a1 = key a" by blast
    from Cons.IH [OF a1(2)] Add a1 show ?thesis by simp
  next
    case (Drain c)
    let ?a1 = "snd (drain c a)" and ?ts1 = "filter (\<lambda>t. \<not> complete c (key a t)) ts"
    obtain gs where gs: "grouped (key a) gs" "fst (drain c a) = map (\<lambda>(k, b). digest k b) gs"
      "group_items gs + mset ?ts1 = mset ts"
      using drain_groups [OF Cons.prems, of c] by blast
    from Cons.IH [OF rep_drain [OF Cons.prems, of c]] key_drain [OF Cons.prems, of c]
    obtain out a' hs held where run: "run_store add drain ops ?a1 = Some (out, a')"
      "rep held a'" "key a' = key a" "grouped (key a) hs" "out = map (\<lambda>(k, b). digest k b) hs"
      "group_items hs + mset held = mset ?ts1 + mset (added ops)"
      by metis
    have "group_items (gs @ hs) + mset held = group_items gs + (group_items hs + mset held)"
      by (simp only: group_items_append add.assoc)
    also have "\<dots> = (group_items gs + mset ?ts1) + mset (added ops)"
      unfolding run(6) by (simp only: add.assoc)
    finally have "group_items (gs @ hs) + mset held = mset ts + mset (added (op # ops))"
      unfolding gs(3) using Drain by simp
    moreover have "run_store add drain (op # ops) a = Some (map (\<lambda>(k, b). digest k b) (gs @ hs), a')"
      using Drain run(1,5) gs(2) by (simp add: case_prod_unfold)
    ultimately show ?thesis
      using run(2,3,4) gs(1) by (metis grouped_append)
  qed
qed

text \<open>
  When no item comes late, no group is drained twice, and every drained group is the whole group:
  all items of its key that were ever added, in their order.
\<close>

lemma run_timely:
  assumes "rep ts a" and "timely complete (key a) cs ops"
    and "\<forall>t \<in> set ts. \<forall>c \<in> set cs. \<not> complete c (key a t)"
  shows "\<exists>out a' ks. run_store add drain ops a = Some (out, a') \<and> distinct ks
     \<and> (\<forall>k \<in> set ks. filter (\<lambda>t. key a t = k) (ts @ added ops) \<noteq> [] \<and> (\<forall>c \<in> set cs. \<not> complete c k))
     \<and> out = map (\<lambda>k. digest k (filter (\<lambda>t. key a t = k) (ts @ added ops))) ks"
  using assms
proof (induction ops arbitrary: ts a cs)
  case Nil
  then show ?case by (intro exI [of _ "[]"] exI [of _ a]) simp
next
  case (Cons op ops)
  show ?case
  proof (cases op)
    case (Add t)
    from rep_add [OF Cons.prems(1)] obtain a1
      where a1: "add a t = Some a1" "rep (ts @ [t]) a1" "key a1 = key a" by blast
    have "timely complete (key a1) cs ops" "\<forall>t' \<in> set (ts @ [t]). \<forall>c \<in> set cs. \<not> complete c (key a1 t')"
      using Cons.prems(2,3) by (auto simp: Add a1(3) list_all_iff)
    from Cons.IH [OF a1(2) this] show ?thesis
      by (simp add: Add a1(1,3))
  next
    case (Drain c)
    let ?a1 = "snd (drain c a)" and ?ts1 = "filter (\<lambda>t. \<not> complete c (key a t)) ts"
    let ?all = "\<lambda>k. filter (\<lambda>t. key a t = k) (ts @ added ops)"
    note key1 = key_drain [OF Cons.prems(1), of c]
    have later: "timely complete (key a) (c # cs) ops"
      using Cons.prems(2) by (simp add: Drain)
    have "\<forall>t \<in> set ?ts1. \<forall>c' \<in> set (c # cs). \<not> complete c' (key ?a1 t)"
      using Cons.prems(3) by (auto simp: key1)
    from Cons.IH [OF rep_drain [OF Cons.prems(1)] _ this] later obtain out a' hs where
      run: "run_store add drain ops ?a1 = Some (out, a')" "distinct hs"
      "\<forall>k \<in> set hs. filter (\<lambda>t. key a t = k) (?ts1 @ added ops) \<noteq> [] \<and> (\<forall>c' \<in> set (c # cs). \<not> complete c' k)"
      "out = map (\<lambda>k. digest k (filter (\<lambda>t. key a t = k) (?ts1 @ added ops))) hs"
      unfolding key1 by blast
    obtain ks where ks: "distinct ks" "set ks = {k. complete c k \<and> filter (\<lambda>t. key a t = k) ts \<noteq> []}"
      "fst (drain c a) = map (\<lambda>k. digest k (filter (\<lambda>t. key a t = k) ts)) ks"
      using drain_out [OF Cons.prems(1), of c] by blast
    have old: "filter (\<lambda>t. key a t = k) ts = ?all k" if "k \<in> set ks" for k
      using that ks(2) timely_drained [OF later, of k] by simp
    have new: "filter (\<lambda>t. key a t = k) (?ts1 @ added ops) = ?all k" if "k \<in> set hs" for k
      using that run(3) by (auto intro: filter_cong)
    have "fst (drain c a) @ out = map (\<lambda>k. digest k (?all k)) (ks @ hs)"
      using old new by (simp add: ks(3) run(4))
    moreover have "distinct (ks @ hs)"
      using ks(1,2) run(2,3) by auto
    moreover have "\<forall>k \<in> set (ks @ hs). ?all k \<noteq> [] \<and> (\<forall>c' \<in> set cs. \<not> complete c' k)"
      using ks(2) run(3) old new Cons.prems(3) by (auto simp: filter_empty_conv)
    moreover have "run_store add drain (op # ops) a = Some (fst (drain c a) @ out, a')"
      by (simp add: Drain run(1) case_prod_unfold)
    ultimately show ?thesis
      unfolding Drain added.simps by blast
  qed
qed

text \<open>And what is still held afterwards belongs to keys that no drain has completed.\<close>

lemma run_timely_held:
  assumes "rep ts a" and "timely complete (key a) cs ops"
    and "\<forall>t \<in> set ts. \<forall>c \<in> set cs. \<not> complete c (key a t)"
  shows "\<exists>out a' held. run_store add drain ops a = Some (out, a') \<and> rep held a' \<and> key a' = key a
     \<and> (\<forall>t \<in> set held. \<forall>c. c \<in> set cs \<or> Drain c \<in> set ops \<longrightarrow> \<not> complete c (key a t))"
  using assms
proof (induction ops arbitrary: ts a cs)
  case Nil
  then show ?case by (intro exI [of _ "[]"] exI [of _ a] exI [of _ ts]) simp
next
  case (Cons op ops)
  show ?case
  proof (cases op)
    case (Add t)
    from rep_add [OF Cons.prems(1)] obtain a1
      where a1: "add a t = Some a1" "rep (ts @ [t]) a1" "key a1 = key a" by blast
    have "timely complete (key a1) cs ops" "\<forall>t' \<in> set (ts @ [t]). \<forall>c \<in> set cs. \<not> complete c (key a1 t')"
      using Cons.prems(2,3) by (auto simp: Add a1(3) list_all_iff)
    from Cons.IH [OF a1(2) this] show ?thesis
      by (simp add: Add a1(1,3))
  next
    case (Drain c)
    let ?a1 = "snd (drain c a)" and ?ts1 = "filter (\<lambda>t. \<not> complete c (key a t)) ts"
    note key1 = key_drain [OF Cons.prems(1), of c]
    have "timely complete (key ?a1) (c # cs) ops" "\<forall>t \<in> set ?ts1. \<forall>c' \<in> set (c # cs). \<not> complete c' (key ?a1 t)"
      using Cons.prems(2,3) by (auto simp: Drain key1)
    from Cons.IH [OF rep_drain [OF Cons.prems(1)] this] show ?thesis
      unfolding key1 by (fastforce simp: Drain case_prod_unfold)
  qed
qed

end

end
