(* ===== verification/MarketDataAggregator.thy ===== *)
theory MarketDataAggregator
  imports TradeEvent Window_Store
begin

text \<open>
  \<^verbatim>\<open>app/include/agg/aggregation/WindowStats.hpp\<close>,
  \<^verbatim>\<open>app/include/agg/aggregation/MarketDataAggregator.hpp\<close> and
  \<^verbatim>\<open>app/src/aggregation/MarketDataAggregator.cpp\<close>. The nested \<^verbatim>\<open>std::map\<close> is an ordered map
  of ordered maps. \<^verbatim>\<open>trade_time_ms % window_ms_\<close> traps for a zero window, which is the value
  \<open>None\<close> of \<open>window_start\<close> and of \<open>add_trade\<close>.

  The specification: a bucket is the list of trades that fall into one (symbol, window)
  pair, and the statistics of a window are the \<open>summary\<close> of its bucket.
\<close>

section \<open>Definitions\<close>

record WindowStats =
  ws_symbol :: string
  ws_window_start_ms :: u64
  ws_trade_count :: u64
  ws_total_volume :: decimal
  ws_min_price :: decimal
  ws_max_price :: decimal
  ws_buyer_initiated_count :: u64
  ws_seller_initiated_count :: u64

definition WindowStats_default :: WindowStats where
  "WindowStats_default = \<lparr>ws_symbol = [], ws_window_start_ms = 0, ws_trade_count = 0,
     ws_total_volume = Decimal_zero, ws_min_price = Decimal_zero, ws_max_price = Decimal_zero,
     ws_buyer_initiated_count = 0, ws_seller_initiated_count = 0\<rparr>"

type_synonym symbol_windows = "(u64, WindowStats) omap"

record MarketDataAggregator =
  agg_window_ms :: u64
  agg_windows :: "(string, symbol_windows) omap"

definition MarketDataAggregator_new :: "u64 \<Rightarrow> MarketDataAggregator" where
  "MarketDataAggregator_new window_ms = \<lparr>agg_window_ms = window_ms, agg_windows = []\<rparr>"

definition window_start :: "u64 \<Rightarrow> u64 \<Rightarrow> u64 option" where
  "window_start window_ms time_ms =
     (if window_ms = 0 then None else Some (time_ms - time_ms mod window_ms))"

definition update_stats :: "TradeEvent \<Rightarrow> u64 \<Rightarrow> WindowStats option \<Rightarrow> WindowStats" where
  "update_stats trade window_start_ms entry =
     (let stats =
        (case entry of
           None \<Rightarrow>
             WindowStats_default\<lparr>ws_symbol := te_symbol trade,
               ws_window_start_ms := window_start_ms,
               ws_min_price := te_price trade, ws_max_price := te_price trade\<rparr>
         | Some stats \<Rightarrow>
             let stats = (if te_price trade < ws_min_price stats
                          then stats\<lparr>ws_min_price := te_price trade\<rparr> else stats)
             in if te_price trade > ws_max_price stats
                then stats\<lparr>ws_max_price := te_price trade\<rparr> else stats);
         stats = stats\<lparr>ws_trade_count := ws_trade_count stats + 1\<rparr>;
         stats = stats\<lparr>ws_total_volume :=
           Decimal_add (ws_total_volume stats) (Decimal_mul (te_price trade) (te_quantity trade))\<rparr>
      in if te_buyer_is_maker trade
         then stats\<lparr>ws_seller_initiated_count := ws_seller_initiated_count stats + 1\<rparr>
         else stats\<lparr>ws_buyer_initiated_count := ws_buyer_initiated_count stats + 1\<rparr>)"

definition add_trade :: "MarketDataAggregator \<Rightarrow> TradeEvent \<Rightarrow> MarketDataAggregator option" where
  "add_trade agg trade =
     (case window_start (agg_window_ms agg) (te_trade_time_ms trade) of
        None \<Rightarrow> None
      | Some window_start_ms \<Rightarrow>
          let symbol_windows =
                (case map_of (agg_windows agg) (te_symbol trade) of None \<Rightarrow> [] | Some m \<Rightarrow> m);
              stats = update_stats trade window_start_ms (map_of symbol_windows window_start_ms)
          in Some (agg\<lparr>agg_windows := omap_put (te_symbol trade)
                     (omap_put window_start_ms stats symbol_windows) (agg_windows agg)\<rparr>))"

definition window_stats :: "MarketDataAggregator \<Rightarrow> string \<Rightarrow> u64 \<Rightarrow> WindowStats option" where
  "window_stats agg symbol window_start_ms =
     (case map_of (agg_windows agg) symbol of
        None \<Rightarrow> None
      | Some symbol_windows \<Rightarrow> map_of symbol_windows window_start_ms)"

definition extract_all_windows ::
    "MarketDataAggregator \<Rightarrow> WindowStats list \<times> MarketDataAggregator" where
  "extract_all_windows agg =
     (concat (map (\<lambda>(symbol, symbol_windows). map snd symbol_windows) (agg_windows agg)),
      agg\<lparr>agg_windows := []\<rparr>)"

fun extract_from_symbol :: "u64 \<Rightarrow> symbol_windows \<Rightarrow> WindowStats list \<times> symbol_windows" where
  "extract_from_symbol current [] = ([], [])"
| "extract_from_symbol current ((window_start_ms, stats) # rest) =
     (case extract_from_symbol current rest of (result, kept) \<Rightarrow>
        if window_start_ms < current then (stats # result, kept)
        else (result, (window_start_ms, stats) # kept))"

fun extract_from_symbols ::
    "u64 \<Rightarrow> (string, symbol_windows) omap \<Rightarrow> WindowStats list \<times> (string, symbol_windows) omap" where
  "extract_from_symbols current [] = ([], [])"
| "extract_from_symbols current ((symbol, symbol_windows) # rest) =
     (case extract_from_symbol current symbol_windows of (result, kept) \<Rightarrow>
      case extract_from_symbols current rest of (results, kept_symbols) \<Rightarrow>
        (result @ results, if kept = [] then kept_symbols else (symbol, kept) # kept_symbols))"

definition extract_completed_windows ::
    "u64 \<Rightarrow> MarketDataAggregator \<Rightarrow> WindowStats list \<times> MarketDataAggregator" where
  "extract_completed_windows current_window_start_ms agg =
     (case extract_from_symbols current_window_start_ms (agg_windows agg) of
        (result, kept) \<Rightarrow> (result, agg\<lparr>agg_windows := kept\<rparr>))"

section \<open>Specification\<close>

type_synonym window_key = "string \<times> u64"

definition trade_key :: "u64 \<Rightarrow> TradeEvent \<Rightarrow> window_key" where
  "trade_key W t = (te_symbol t, te_trade_time_ms t - te_trade_time_ms t mod W)"

definition stats_key :: "WindowStats \<Rightarrow> window_key" where
  "stats_key s = (ws_symbol s, ws_window_start_ms s)"

definition bucket :: "u64 \<Rightarrow> window_key \<Rightarrow> TradeEvent list \<Rightarrow> TradeEvent list" where
  "bucket W k ts = filter (\<lambda>t. trade_key W t = k) ts"

definition notional :: "TradeEvent \<Rightarrow> decimal" where
  "notional t = Decimal_mul (te_price t) (te_quantity t)"

definition summary :: "window_key \<Rightarrow> TradeEvent list \<Rightarrow> WindowStats" where
  "summary k ts = \<lparr>ws_symbol = fst k, ws_window_start_ms = snd k,
     ws_trade_count = of_nat (length ts),
     ws_total_volume = from_raw (\<Sum>t\<leftarrow>ts. raw (notional t)),
     ws_min_price = Min (te_price ` set ts), ws_max_price = Max (te_price ` set ts),
     ws_buyer_initiated_count = of_nat (length (filter (\<lambda>t. \<not> te_buyer_is_maker t) ts)),
     ws_seller_initiated_count = of_nat (length (filter te_buyer_is_maker ts))\<rparr>"

definition spec_stats :: "u64 \<Rightarrow> TradeEvent list \<Rightarrow> window_key \<Rightarrow> WindowStats option" where
  "spec_stats W ts k = (if bucket W k ts = [] then None else Some (summary k (bucket W k ts)))"

fun add_trades :: "MarketDataAggregator \<Rightarrow> TradeEvent list \<Rightarrow> MarketDataAggregator option" where
  "add_trades agg [] = Some agg"
| "add_trades agg (t # ts) =
     (case add_trade agg t of None \<Rightarrow> None | Some agg' \<Rightarrow> add_trades agg' ts)"

definition agg_stats :: "MarketDataAggregator \<Rightarrow> window_key \<Rightarrow> WindowStats option" where
  "agg_stats agg k = window_stats agg (fst k) (snd k)"

text \<open>The invariant: strictly sorted maps, and no symbol without a window.\<close>

definition agg_wf :: "MarketDataAggregator \<Rightarrow> bool" where
  "agg_wf agg \<longleftrightarrow> omap_wf (agg_windows agg) \<and> (\<forall>m \<in> snd ` set (agg_windows agg). omap_wf m \<and> m \<noteq> [])"

definition represents :: "u64 \<Rightarrow> TradeEvent list \<Rightarrow> MarketDataAggregator \<Rightarrow> bool" where
  "represents W ts agg \<longleftrightarrow> agg_wf agg \<and> agg_window_ms agg = W \<and> agg_stats agg = spec_stats W ts"

section \<open>Single operations\<close>

lemma agg_wf_new [simp]: "agg_wf (MarketDataAggregator_new W)"
  by (simp add: agg_wf_def MarketDataAggregator_new_def)

lemma agg_wf_lookup:
  "agg_wf agg \<Longrightarrow> map_of (agg_windows agg) s = Some m \<Longrightarrow> omap_wf m \<and> m \<noteq> []"
  by (force simp: agg_wf_def dest: map_of_SomeD)

lemma agg_stats_new [simp]: "agg_stats (MarketDataAggregator_new W) = Map.empty"
  by (simp add: agg_stats_def window_stats_def MarketDataAggregator_new_def fun_eq_iff)

lemma add_trade_some:
  assumes "agg_wf agg" and "agg_window_ms agg = W" and "W \<noteq> 0"
  obtains agg' where "add_trade agg t = Some agg'" and "agg_wf agg'" and "agg_window_ms agg' = W"
    and "agg_stats agg' = (agg_stats agg)
           (trade_key W t \<mapsto> update_stats t (snd (trade_key W t)) (agg_stats agg (trade_key W t)))"
proof -
  define s w where "s = te_symbol t" and "w = snd (trade_key W t)"
  define m where "m = (case map_of (agg_windows agg) s of None \<Rightarrow> [] | Some m \<Rightarrow> m)"
  define st where "st = update_stats t w (map_of m w)"
  let ?agg' = "agg\<lparr>agg_windows := omap_put s (omap_put w st m) (agg_windows agg)\<rparr>"
  have wf: "omap_wf (agg_windows agg)" "omap_wf m"
    using assms(1) agg_wf_lookup [OF assms(1)] by (auto simp: agg_wf_def m_def split: option.splits)
  have "\<forall>m \<in> snd ` set (omap_put s (omap_put w st m) (agg_windows agg)). omap_wf m \<and> m \<noteq> []"
    using assms(1) wf(2) by (intro omap_put_values) (auto simp: agg_wf_def)
  then have wf': "agg_wf ?agg'"
    using wf(1) by (simp add: agg_wf_def)
  have key: "trade_key W t = (s, w)"
    by (simp add: trade_key_def s_def w_def)
  have some: "add_trade agg t = Some ?agg'"
    using assms(2,3) by (simp add: add_trade_def window_start_def w_def s_def m_def st_def
        trade_key_def Let_def)
  have lookup: "map_of m w = agg_stats agg (s, w)"
    by (simp add: agg_stats_def window_stats_def m_def split: option.splits)
  have "agg_stats ?agg' k = ((agg_stats agg)((s, w) \<mapsto> st)) k" for k
    using wf by (cases k) (auto simp: agg_stats_def window_stats_def m_def omap_put_lookup
        split: option.splits)
  then show ?thesis
    using that [OF some wf'] assms(2) by (simp add: lookup key st_def fun_eq_iff)
qed

text \<open>One trade extends the bucket of its key, and the new statistics are its summary.\<close>

lemma update_stats_summary:
  "update_stats t (snd k) (if ts = [] then None else Some (summary k ts)) = summary k (ts @ [t])"
  if "fst k = te_symbol t"
proof (cases "ts = []")
  case True
  then show ?thesis
    using that by (simp add: update_stats_def summary_def WindowStats_default_def notional_def
        Decimal_add_def Decimal_zero_def)
next
  case False
  define P where "P = te_price ` set ts"
  have P: "finite P" "P \<noteq> {}" "te_price ` set (ts @ [t]) = insert (te_price t) P"
    using False by (auto simp: P_def)
  define mn mx where "mn = Min P" and "mx = Max P"
  have "Min (insert (te_price t) P) = (if te_price t < mn then te_price t else mn)"
    "Max (insert (te_price t) P) = (if te_price t > mx then te_price t else mx)"
    unfolding mn_def mx_def Min_insert [OF P(1,2)] Max_insert [OF P(1,2)] min_max_strict by simp_all
  then show ?thesis
    using False unfolding summary_def P(3) P_def [symmetric] mn_def [symmetric] mx_def [symmetric]
    by (simp add: update_stats_def notional_def Decimal_add_def Let_def)
qed

section \<open>The aggregator represents a list of trades\<close>

lemma represents_new: "represents W [] (MarketDataAggregator_new W)"
  by (simp add: represents_def MarketDataAggregator_new_def [of W, THEN arg_cong, of agg_window_ms]
      spec_stats_def bucket_def fun_eq_iff)

lemma bucket_snoc: "bucket W k (ts @ [t]) = bucket W k ts @ (if trade_key W t = k then [t] else [])"
  by (simp add: bucket_def)

lemma spec_stats_snoc:
  "spec_stats W (ts @ [t]) = (spec_stats W ts)
     (trade_key W t \<mapsto> update_stats t (snd (trade_key W t)) (spec_stats W ts (trade_key W t)))"
proof
  fix k
  show "spec_stats W (ts @ [t]) k = ((spec_stats W ts)
     (trade_key W t \<mapsto> update_stats t (snd (trade_key W t)) (spec_stats W ts (trade_key W t)))) k"
  proof (cases "k = trade_key W t")
    case True
    then have "fst k = te_symbol t" by (simp add: trade_key_def)
    from update_stats_summary [OF this, of "bucket W k ts"] True show ?thesis
      by (auto simp: spec_stats_def bucket_snoc)
  qed (auto simp: spec_stats_def bucket_snoc)
qed

lemma represents_add:
  assumes "represents W ts agg" and "W \<noteq> 0"
  shows "\<exists>agg'. add_trade agg t = Some agg' \<and> represents W (ts @ [t]) agg'"
proof -
  have "agg_wf agg" "agg_window_ms agg = W" "agg_stats agg = spec_stats W ts"
    using assms(1) by (simp_all add: represents_def)
  from add_trade_some [OF this(1,2) assms(2), of t] this(3) show ?thesis
    unfolding represents_def spec_stats_snoc by metis
qed

lemma represents_add_trades:
  assumes "represents W ts agg" and "W \<noteq> 0"
  shows "\<exists>agg'. add_trades agg us = Some agg' \<and> represents W (ts @ us) agg'"
  using assms(1)
proof (induction us arbitrary: ts agg)
  case (Cons u us)
  from represents_add [OF Cons.prems assms(2), of u] obtain agg1
    where "add_trade agg u = Some agg1" "represents W (ts @ [u]) agg1" by blast
  with Cons.IH [of "ts @ [u]" agg1] show ?case by simp
qed simp

lemma agg_ext:
  assumes "agg_wf a" and "agg_wf b" and "agg_window_ms a = agg_window_ms b"
    and "agg_stats a = agg_stats b"
  shows "a = b"
proof -
  have stats: "window_stats a s w = window_stats b s w" for s w
    using fun_cong [OF assms(4), of "(s, w)"] by (simp add: agg_stats_def)
  have none: "map_of (agg_windows x) s = None \<longleftrightarrow> (\<forall>w. window_stats x s w = None)"
    if wf: "agg_wf x" for x s
  proof (cases "map_of (agg_windows x) s")
    case (Some m)
    then obtain w st m' where "m = (w, st) # m'"
      using agg_wf_lookup [OF wf Some] by (cases m) auto
    with Some have "window_stats x s w = Some st"
      by (simp add: window_stats_def)
    with Some show ?thesis by auto
  qed (simp add: window_stats_def)
  have "map_of (agg_windows a) s = map_of (agg_windows b) s" for s
  proof (cases "map_of (agg_windows a) s")
    case None
    then show ?thesis using none [OF assms(1)] none [OF assms(2)] stats by metis
  next
    case (Some m)
    then obtain n where n: "map_of (agg_windows b) s = Some n"
      using none [OF assms(1), of s] none [OF assms(2), of s] stats by force
    with Some stats [of s] have "map_of m = map_of n"
      by (simp add: window_stats_def fun_eq_iff)
    with agg_wf_lookup [OF assms(1) Some] agg_wf_lookup [OF assms(2) n] have "m = n"
      by (blast intro: omap_ext)
    with Some n show ?thesis by simp
  qed
  then have "agg_windows a = agg_windows b"
    using assms(1,2) by (intro omap_ext) (auto simp: agg_wf_def)
  with assms(3) show ?thesis by simp
qed

lemma represents_unique:
  "represents W ts a \<Longrightarrow> represents W us b \<Longrightarrow> spec_stats W ts = spec_stats W us \<Longrightarrow> a = b"
  by (auto simp: represents_def intro: agg_ext)

text \<open>A summary, and so the statistics of a list of trades, does not depend on its order.\<close>

lemma summary_mset_cong:
  assumes "mset ts = mset us"
  shows "summary k ts = summary k us"
proof -
  have "mset (filter P ts) = mset (filter P us)" for P
    using assms by simp
  then have "length (filter P ts) = length (filter P us)" for P
    by (metis size_mset)
  moreover have "(\<Sum>t\<leftarrow>ts. raw (notional t)) = (\<Sum>t\<leftarrow>us. raw (notional t))"
    using assms by (metis mset_map sum_mset_sum_list)
  moreover have "set ts = set us" "length ts = length us"
    using assms mset_eq_setD mset_eq_length by blast+
  ultimately show ?thesis
    by (simp add: summary_def)
qed

lemma spec_stats_mset_cong:
  assumes "mset ts = mset us"
  shows "spec_stats W ts = spec_stats W us"
proof
  fix k
  have b: "mset (bucket W k ts) = mset (bucket W k us)"
    using assms by (simp add: bucket_def)
  then have "bucket W k ts = [] \<longleftrightarrow> bucket W k us = []"
    by (metis mset_zero_iff)
  with summary_mset_cong [OF b] show "spec_stats W ts k = spec_stats W us k"
    by (simp add: spec_stats_def)
qed

section \<open>Extraction\<close>

text \<open>All entries of the nested map in iteration order, with their keys.\<close>

definition agg_entries :: "MarketDataAggregator \<Rightarrow> (window_key \<times> WindowStats) list" where
  "agg_entries agg =
     concat (map (\<lambda>(s, m). map (\<lambda>(w, st). ((s, w), st)) m) (agg_windows agg))"

lemma extract_all_entries:
  "extract_all_windows agg = (map snd (agg_entries agg), agg\<lparr>agg_windows := []\<rparr>)"
  by (auto simp: extract_all_windows_def agg_entries_def map_concat intro!: arg_cong [where f = concat])

lemma extract_from_symbol_eq:
  "extract_from_symbol current m =
     (map snd (filter (\<lambda>e. fst e < current) m), filter (\<lambda>e. \<not> fst e < current) m)"
  by (induction current m rule: extract_from_symbol.induct) auto

lemma extract_from_symbols_eq:
  "extract_from_symbols current ms =
     (concat (map (\<lambda>(s, m). map snd (filter (\<lambda>e. fst e < current) m)) ms),
      filter (\<lambda>e. snd e \<noteq> []) (map (\<lambda>(s, m). (s, filter (\<lambda>e. \<not> fst e < current) m)) ms))"
  by (induction current ms rule: extract_from_symbols.induct)
    (auto simp: extract_from_symbol_eq split: prod.splits)

lemma entries_of_filtered:
  "concat (map (\<lambda>(s, m). map (\<lambda>(w, st). ((s, w), st)) m)
      (filter (\<lambda>e. snd e \<noteq> []) (map (\<lambda>(s, m). (s, filter (\<lambda>e. P (fst e)) m)) ms)))
   = filter (\<lambda>(k, _). P (snd k))
       (concat (map (\<lambda>(s, m). map (\<lambda>(w, st). ((s, w), st)) m) ms))"
proof (induction ms)
  case (Cons e ms)
  obtain s m where e: "e = (s, m)" by (cases e)
  have "filter (\<lambda>(k, _). P (snd k)) (map (\<lambda>(w, st). ((s, w), st)) m)
      = map (\<lambda>(w, st). ((s, w), st)) (filter (\<lambda>e. P (fst e)) m)"
    by (induction m) auto
  with Cons e show ?case by auto
qed simp

lemma extract_completed_entries:
  "extract_completed_windows current agg =
     (map snd (filter (\<lambda>(k, _). snd k < current) (agg_entries agg)),
      agg\<lparr>agg_windows := snd (extract_from_symbols current (agg_windows agg))\<rparr>)"
  "agg_entries (snd (extract_completed_windows current agg)) =
     filter (\<lambda>(k, _). \<not> snd k < current) (agg_entries agg)"
proof -
  have "map snd (filter (\<lambda>(k, _). snd k < current)
      (concat (map (\<lambda>(s, m). map (\<lambda>(w, st). ((s, w), st)) m) ms)))
    = concat (map (\<lambda>(s, m). map snd (filter (\<lambda>e. fst e < current) m)) ms)"
    for ms :: "(string, symbol_windows) omap"
  proof (induction ms)
    case (Cons e ms)
    obtain s m where e: "e = (s, m)" by (cases e)
    have "map snd (filter (\<lambda>(k, _). snd k < current) (map (\<lambda>(w, st). ((s, w), st)) m))
        = map snd (filter (\<lambda>e. fst e < current) m)"
      by (induction m) auto
    with Cons e show ?case by simp
  qed simp
  then show "extract_completed_windows current agg =
     (map snd (filter (\<lambda>(k, _). snd k < current) (agg_entries agg)),
      agg\<lparr>agg_windows := snd (extract_from_symbols current (agg_windows agg))\<rparr>)"
    by (simp add: extract_completed_windows_def extract_from_symbols_eq agg_entries_def)
  show "agg_entries (snd (extract_completed_windows current agg)) =
     filter (\<lambda>(k, _). \<not> snd k < current) (agg_entries agg)"
    using entries_of_filtered [of "\<lambda>w. \<not> w < current" "agg_windows agg"]
    by (simp add: extract_completed_windows_def extract_from_symbols_eq agg_entries_def)
qed

lemma entries_lookup:
  assumes "agg_wf agg"
  shows "distinct (map fst (agg_entries agg))" and "map_of (agg_entries agg) = agg_stats agg"
proof -
  let ?E = "\<lambda>ms. concat (map (\<lambda>(s, m). map (\<lambda>(w, st). ((s, w), st)) m) ms)"
  have inner: "map_of (map (\<lambda>(w, st). ((s, w), st)) m) k =
      (if fst k = s then map_of m (snd k) else None)"
    for s and m :: symbol_windows and k :: window_key
    by (induction m) (auto simp: prod_eq_iff)
  have keys: "fst ` set (?E ms) \<subseteq> (fst ` set ms) \<times> UNIV" for ms :: "(string, symbol_windows) omap"
    by force
  have disj: "A \<inter> B = {}" if "A \<subseteq> {s} \<times> UNIV" "B \<subseteq> K \<times> UNIV" "s \<notin> K"
    for A B :: "window_key set" and s K
    using that by blast
  have "distinct (map fst (?E ms)) \<and> (\<forall>k. map_of (?E ms) k =
      (case map_of ms (fst k) of None \<Rightarrow> None | Some m \<Rightarrow> map_of m (snd k)))"
    if "omap_wf ms" "\<forall>m \<in> snd ` set ms. omap_wf m" for ms :: "(string, symbol_windows) omap"
    using that
  proof (induction ms)
    case (Cons e ms)
    obtain s m where e: "e = (s, m)" by (cases e)
    have m: "distinct (map fst m)" "s \<notin> fst ` set ms"
      using Cons.prems e omap_wf_distinct by auto
    have "distinct (map fst (map (\<lambda>(w, st). ((s, w), st)) m))"
      using m(1) by (induction m) (auto simp: image_iff)
    moreover have "fst ` set (map (\<lambda>(w, st). ((s, w), st)) m) \<subseteq> {s} \<times> UNIV"
      by auto
    then have "fst ` set (map (\<lambda>(w, st). ((s, w), st)) m) \<inter> fst ` set (?E ms) = {}"
      by (rule disj [OF _ keys m(2)])
    moreover have "map_of (?E ms) k = None" if "fst k = s" for k
      using disj [of "{k}" s, OF _ keys m(2)] that by (cases k) (simp add: map_of_eq_None_iff)
    ultimately show ?case
      using Cons e by (auto simp: map_add_def inner split: option.splits)
  qed simp
  then show "distinct (map fst (agg_entries agg))" "map_of (agg_entries agg) = agg_stats agg"
    using assms by (auto simp: agg_wf_def agg_entries_def agg_stats_def window_stats_def fun_eq_iff)
qed

lemma extract_completed_wf:
  assumes "agg_wf agg"
  shows "agg_wf (snd (extract_completed_windows current agg))"
proof -
  let ?f = "\<lambda>(s, m). (s, filter (\<lambda>e. \<not> fst e < current) m)"
  have fst: "map fst (map ?f ms) = map fst ms" for ms :: "(string, symbol_windows) omap"
    by (induction ms) auto
  have "omap_wf (map ?f (agg_windows agg))"
    using assms unfolding omap_wf_def fst by (simp add: agg_wf_def omap_wf_def)
  then show ?thesis
    using assms by (auto simp: agg_wf_def extract_completed_windows_def extract_from_symbols_eq)
qed

lemma extract_completed_window_ms [simp]:
  "agg_window_ms (snd (extract_completed_windows current agg)) = agg_window_ms agg"
  by (simp add: extract_completed_entries(1))

lemma bucket_filter_keys:
  "bucket W k (filter (\<lambda>t. P (trade_key W t)) ts) = (if P k then bucket W k ts else [])"
  by (induction ts) (auto simp: bucket_def)

lemma represents_extract_completed:
  assumes "represents W ts agg"
  shows "represents W (filter (\<lambda>t. \<not> snd (trade_key W t) < current) ts)
           (snd (extract_completed_windows current agg))"
proof -
  let ?agg' = "snd (extract_completed_windows current agg)"
  have wf: "agg_wf agg" "agg_wf ?agg'"
    using assms extract_completed_wf by (simp_all add: represents_def)
  have "agg_stats ?agg' k = (if snd k < current then None else agg_stats agg k)" for k
  proof -
    have "map_of (filter (\<lambda>(k, _). \<not> snd k < current) xs) k
        = (if snd k < current then None else map_of xs k)" for xs :: "(window_key \<times> WindowStats) list"
      by (induction xs) auto
    then show ?thesis
      unfolding entries_lookup(2) [OF wf(1), symmetric] entries_lookup(2) [OF wf(2), symmetric]
        extract_completed_entries(2) .
  qed
  then have "agg_stats ?agg' = spec_stats W (filter (\<lambda>t. \<not> snd (trade_key W t) < current) ts)"
    using assms bucket_filter_keys [where P = "\<lambda>k. \<not> snd k < current"]
    by (auto simp: fun_eq_iff represents_def spec_stats_def)
  with wf assms show ?thesis
    by (simp add: represents_def)
qed

lemma represents_extract_all:
  assumes "represents W ts agg"
  shows "represents W [] (snd (extract_all_windows agg))"
  using assms by (auto simp: represents_def extract_all_windows_def agg_wf_def agg_stats_def
      window_stats_def spec_stats_def bucket_def fun_eq_iff)

text \<open>What an extraction returns: the summaries of the buckets it removes, each key once.\<close>

definition summaries_of ::
    "u64 \<Rightarrow> TradeEvent list \<Rightarrow> (window_key \<Rightarrow> bool) \<Rightarrow> WindowStats list \<Rightarrow> bool" where
  "summaries_of W ts P out \<longleftrightarrow>
     (\<exists>ks. distinct ks \<and> set ks = {k. P k \<and> bucket W k ts \<noteq> []}
        \<and> out = map (\<lambda>k. summary k (bucket W k ts)) ks)"

lemma summaries_of_entries:
  assumes "represents W ts agg"
  shows "summaries_of W ts P (map snd (filter (\<lambda>(k, _). P k) (agg_entries agg)))"
proof -
  have wf: "agg_wf agg" and stats: "agg_stats agg = spec_stats W ts"
    using assms by (simp_all add: represents_def)
  note E = entries_lookup [OF wf]
  have mem: "(k, st) \<in> set (agg_entries agg) \<longleftrightarrow> spec_stats W ts k = Some st" for k st
    using E stats by (metis map_of_eq_Some_iff)
  let ?es = "filter (\<lambda>(k, _). P k) (agg_entries agg)"
  have "distinct (map fst ?es)"
    using E(1) by (metis distinct_map_filter)
  moreover have "set (map fst ?es) = {k. P k \<and> bucket W k ts \<noteq> []}"
  proof -
    have "set (map fst ?es) = {k. P k \<and> (\<exists>st. (k, st) \<in> set (agg_entries agg))}"
      by force
    then show ?thesis
      by (auto simp: mem spec_stats_def)
  qed
  moreover have "map snd ?es = map (\<lambda>k. summary k (bucket W k ts)) (map fst ?es)"
    by (auto simp: mem spec_stats_def split: if_splits)
  ultimately show ?thesis
    unfolding summaries_of_def by blast
qed

lemma represents_extract_completed_out:
  assumes "represents W ts agg"
  shows "summaries_of W ts (\<lambda>k. snd k < current) (fst (extract_completed_windows current agg))"
  using summaries_of_entries [OF assms, of "\<lambda>k. snd k < current"]
  by (simp add: extract_completed_entries(1))

lemma represents_extract_all_out:
  assumes "represents W ts agg"
  shows "summaries_of W ts (\<lambda>_. True) (fst (extract_all_windows agg))"
  using summaries_of_entries [OF assms, of "\<lambda>_. True"]
  by (simp add: extract_all_entries filter_True)

lemma spec_stats_key_cong: "trade_key V = trade_key W \<Longrightarrow> spec_stats V = spec_stats W"
  by (simp add: spec_stats_def bucket_def fun_eq_iff)

section \<open>The aggregator is a window store\<close>

text \<open>
  The two extractions as one drain: \<open>None\<close> for \<^verbatim>\<open>extract_all_windows\<close>, \<open>Some w\<close> for
  \<^verbatim>\<open>extract_completed_windows(w)\<close>.
\<close>

definition drain_windows ::
    "u64 option \<Rightarrow> MarketDataAggregator \<Rightarrow> WindowStats list \<times> MarketDataAggregator" where
  "drain_windows c agg =
     (case c of None \<Rightarrow> extract_all_windows agg | Some w \<Rightarrow> extract_completed_windows w agg)"

definition drained :: "u64 option \<Rightarrow> window_key \<Rightarrow> bool" where
  "drained c k = (case c of None \<Rightarrow> True | Some w \<Rightarrow> snd k < w)"

definition store_rep :: "TradeEvent list \<Rightarrow> MarketDataAggregator \<Rightarrow> bool" where
  "store_rep ts agg \<longleftrightarrow> agg_window_ms agg \<noteq> 0 \<and> represents (agg_window_ms agg) ts agg"

lemma new_window_ms [simp]: "agg_window_ms (MarketDataAggregator_new W) = W"
  by (simp add: MarketDataAggregator_new_def)

lemma store_rep_new: "W \<noteq> 0 \<Longrightarrow> store_rep [] (MarketDataAggregator_new W)"
  using represents_new by (simp add: store_rep_def)

lemma represents_window_ms: "represents W ts agg \<Longrightarrow> agg_window_ms agg = W"
  by (simp add: represents_def)

lemma drain_window_ms [simp]: "agg_window_ms (snd (drain_windows c agg)) = agg_window_ms agg"
  by (simp add: drain_windows_def extract_all_windows_def split: option.splits)

lemma represents_drain:
  assumes "represents W ts agg"
  shows "represents W (filter (\<lambda>t. \<not> drained c (trade_key W t)) ts) (snd (drain_windows c agg))"
    and "summaries_of W ts (drained c) (fst (drain_windows c agg))"
  using represents_extract_completed [OF assms] represents_extract_all [OF assms]
    represents_extract_completed_out [OF assms] represents_extract_all_out [OF assms]
  by (cases c; simp add: drain_windows_def drained_def [abs_def])+

interpretation agg: window_store store_rep add_trade drain_windows
  "\<lambda>agg. trade_key (agg_window_ms agg)" drained summary
proof unfold_locales
  fix ts agg t c
  assume rep: "store_rep ts agg"
  let ?W = "agg_window_ms agg"
  have W: "?W \<noteq> 0" "represents ?W ts agg"
    using rep by (simp_all add: store_rep_def)
  show "\<exists>agg'. add_trade agg t = Some agg' \<and> store_rep (ts @ [t]) agg'
      \<and> trade_key (agg_window_ms agg') = trade_key ?W"
  proof -
    obtain agg' where "add_trade agg t = Some agg'" and r: "represents ?W (ts @ [t]) agg'"
      using represents_add [OF W(2,1)] by blast
    with represents_window_ms [OF r] W(1) show ?thesis
      by (simp add: store_rep_def)
  qed
  show "store_rep (filter (\<lambda>t. \<not> drained c (trade_key ?W t)) ts) (snd (drain_windows c agg))"
    using represents_drain(1) [OF W(2)] W(1) by (simp add: store_rep_def)
  show "trade_key (agg_window_ms (snd (drain_windows c agg))) = trade_key ?W"
    by simp
  show "\<exists>ks. distinct ks
      \<and> set ks = {k. drained c k \<and> filter (\<lambda>t. trade_key ?W t = k) ts \<noteq> []}
      \<and> fst (drain_windows c agg) = map (\<lambda>k. summary k (filter (\<lambda>t. trade_key ?W t = k) ts)) ks"
    using represents_drain(2) [OF W(2)] by (simp add: summaries_of_def bucket_def)
qed

lemma add_trade_store:
  assumes "store_rep ts a" and "add_trade a t = Some a'"
  shows "store_rep (ts @ [t]) a'" and "agg_window_ms a' = agg_window_ms a"
proof -
  have "represents (agg_window_ms a) (ts @ [t]) a'"
    using represents_add [of "agg_window_ms a" ts a t] assms by (auto simp: store_rep_def)
  with represents_window_ms [OF this] assms(1)
  show "store_rep (ts @ [t]) a'" "agg_window_ms a' = agg_window_ms a"
    by (simp_all add: store_rep_def)
qed

text \<open>Every sequence of operations on a fresh aggregator goes through, and every trade is accounted for.\<close>

lemma run_store_window_ms:
  assumes "run_store add_trade drain_windows ops agg = Some (out, agg')"
  shows "agg_window_ms agg' = agg_window_ms agg"
  using assms
proof (induction ops arbitrary: agg out)
  case (Cons op ops)
  show ?case
  proof (cases op)
    case (Add t)
    then obtain a where "add_trade agg t = Some a" "run_store add_trade drain_windows ops a = Some (out, agg')"
      using Cons.prems by (auto split: option.splits)
    moreover from this(1) have "agg_window_ms a = agg_window_ms agg"
      by (auto simp: add_trade_def Let_def split: option.splits)
    ultimately show ?thesis
      using Cons.IH by metis
  next
    case (Drain c)
    with Cons show ?thesis by (auto simp: case_prod_unfold)
  qed
qed simp

lemma fresh_run:
  assumes "W \<noteq> 0"
  shows "\<exists>out a gs held. run_store add_trade drain_windows ops (MarketDataAggregator_new W) = Some (out, a)
     \<and> represents W held a \<and> grouped (trade_key W) gs \<and> out = map (\<lambda>(k, b). summary k b) gs
     \<and> group_items gs + mset held = mset (added ops)"
proof -
  from agg.run_accounts [OF store_rep_new [OF assms], of ops] obtain out a gs held
    where run: "run_store add_trade drain_windows ops (MarketDataAggregator_new W) = Some (out, a)" "store_rep held a"
      "grouped (trade_key W) gs" "out = map (\<lambda>(k, b). summary k b) gs" "group_items gs + mset held = mset (added ops)"
    unfolding new_window_ms by auto
  have "represents W held a"
    using run(2) run_store_window_ms [OF run(1)] by (simp add: store_rep_def)
  with run show ?thesis by blast
qed

text \<open>
  A well-formed window: its start is a multiple of the window size, the trade count is the sum
  of the buyer and seller counts, the minimum price is at most the maximum price.
\<close>

definition window_wf :: "u64 \<Rightarrow> WindowStats \<Rightarrow> bool" where
  "window_wf W st \<longleftrightarrow> unat (ws_window_start_ms st) mod unat W = 0
     \<and> ws_trade_count st = ws_buyer_initiated_count st + ws_seller_initiated_count st
     \<and> ws_min_price st \<le> ws_max_price st"

lemma window_start_aligned: "unat (time - time mod W :: u64) mod unat W = 0"
  unfolding unat_minus_mod by (simp add: minus_mod_eq_mult_div)

lemma summary_wf:
  assumes "b \<noteq> []" and "\<forall>t \<in> set b. trade_key W t = k"
  shows "window_wf W (summary k b)"
proof -
  obtain t where t: "t \<in> set b" "trade_key W t = k"
    using assms by (metis list.set_sel(1))
  then have "snd k = te_trade_time_ms t - te_trade_time_ms t mod W"
    by (auto simp: trade_key_def)
  then have "unat (snd k) mod unat W = 0"
    by (simp only: window_start_aligned)
  moreover have "length b = length (filter (\<lambda>t. \<not> te_buyer_is_maker t) b) + length (filter te_buyer_is_maker b)"
    using sum_length_filter_compl [of te_buyer_is_maker b] by simp
  moreover have "Min (te_price ` set b) \<le> Max (te_price ` set b)"
    using t(1) by (auto intro: order_trans [OF Min_le Max_ge])
  ultimately show ?thesis
    by (simp add: window_wf_def summary_def flip: of_nat_add)
qed

section \<open>Properties\<close>

text \<open>Three trades at 1 s windows, and a store with two windows, for the concrete inputs below.\<close>

definition example_trades :: "TradeEvent list" where
  "example_trades =
     [\<lparr>te_symbol = ''BTCUSDT'', te_trade_id = 1, te_price = from_raw 200000000,
        te_quantity = from_raw 50000000, te_trade_time_ms = 1200, te_buyer_is_maker = False\<rparr>,
      \<lparr>te_symbol = ''BTCUSDT'', te_trade_id = 2, te_price = from_raw 300000000,
        te_quantity = from_raw 50000000, te_trade_time_ms = 1900, te_buyer_is_maker = True\<rparr>,
      \<lparr>te_symbol = ''ETHUSDT'', te_trade_id = 3, te_price = from_raw 100000000,
        te_quantity = from_raw 300000000, te_trade_time_ms = 2000, te_buyer_is_maker = False\<rparr>]"

definition example_store :: MarketDataAggregator where
  "example_store = \<lparr>agg_window_ms = 1000, agg_windows =
     [(''BTCUSDT'', [(1000, WindowStats_default), (2000, WindowStats_default)])]\<rparr>"

text \<open>
  C15: functional correctness of \<^verbatim>\<open>add_trade\<close> and \<^verbatim>\<open>window_stats\<close>. After any sequence
  of trades on a fresh aggregator, the statistics of a (symbol, window) pair are the summary
  of exactly the trades whose symbol and exchange time fall into it: count, sum of truncated
  notionals, minimum and maximum price, buyer and seller counts; and there are none where no
  trade fell.
\<close>

theorem add_trades_correct:
  assumes "W \<noteq> 0"
  shows "\<exists>agg. add_trades (MarketDataAggregator_new W) ts = Some agg
     \<and> (\<forall>s w. window_stats agg s w =
          (let b = filter (\<lambda>t. te_symbol t = s \<and> te_trade_time_ms t - te_trade_time_ms t mod W = w) ts
           in if b = [] then None else Some (summary (s, w) b)))"
proof -
  obtain agg where agg: "add_trades (MarketDataAggregator_new W) ts = Some agg" "represents W ts agg"
    using represents_add_trades [OF represents_new assms, of ts] by auto
  have "window_stats agg s w = spec_stats W ts (s, w)" for s w
    using agg(2) by (metis agg_stats_def fst_conv represents_def snd_conv)
  with agg(1) show ?thesis
    by (simp add: spec_stats_def bucket_def trade_key_def Let_def)
qed

theorem add_trades_correct_witness:
  "\<exists>agg. add_trades (MarketDataAggregator_new 1000) example_trades = Some agg
     \<and> map_option ws_trade_count (window_stats agg ''BTCUSDT'' 1000) = Some 2
     \<and> map_option (raw \<circ> ws_max_price) (window_stats agg ''BTCUSDT'' 1000) = Some 300000000
     \<and> window_stats agg ''ETHUSDT'' 1000 = None"
  using add_trades_correct [of 1000 example_trades]
  by (auto simp: example_trades_def summary_def max_def less_eq_decimal_def Decimal_less_eq_def)

text \<open>
  C23: aggregation is commutative. Two permutations of the same trades give the same
  aggregator state, so the order in which trades reach a shard does not matter.
\<close>

theorem add_trades_order_independent:
  assumes "W \<noteq> 0" and "mset ts = mset us"
  shows "add_trades (MarketDataAggregator_new W) ts = add_trades (MarketDataAggregator_new W) us"
proof -
  obtain a b where a: "add_trades (MarketDataAggregator_new W) ts = Some a" "represents W ts a"
    and b: "add_trades (MarketDataAggregator_new W) us = Some b" "represents W us b"
    using represents_add_trades [OF represents_new assms(1)] by (metis append_Nil)
  have "a = b"
    using represents_unique [OF a(2) b(2) spec_stats_mset_cong [OF assms(2)]] .
  with a(1) b(1) show ?thesis by simp
qed

theorem add_trades_order_independent_witness:
  "example_trades \<noteq> rev example_trades
     \<and> add_trades (MarketDataAggregator_new 1000) example_trades
        = add_trades (MarketDataAggregator_new 1000) (rev example_trades)"
  using add_trades_order_independent [of 1000 example_trades "rev example_trades"]
  by (simp add: example_trades_def)

text \<open>
  Every trade is accounted for exactly once. For any interleaving of additions,
  periodic extractions and full extractions, late trades included, the windows handed out
  are the summaries of groups of trades with the window's symbol and time, and these groups
  together with the trades still held are exactly the trades added.
\<close>

theorem aggregator_accounts_for_every_trade:
  assumes "W \<noteq> 0"
  shows "\<exists>out agg gs held.
     run_store add_trade drain_windows ops (MarketDataAggregator_new W) = Some (out, agg)
     \<and> grouped (trade_key W) gs \<and> out = map (\<lambda>(k, b). summary k b) gs
     \<and> agg_stats agg = spec_stats W held
     \<and> group_items gs + mset held = mset (added ops)"
  using fresh_run [OF assms, of ops] unfolding represents_def by blast

theorem aggregator_accounts_for_every_trade_witness:
  "\<exists>out agg gs held.
     run_store add_trade drain_windows
       (map Add example_trades @ [Drain (Some 2000)] @ map Add example_trades)
       (MarketDataAggregator_new 1000) = Some (out, agg)
     \<and> grouped (trade_key 1000) gs \<and> out = map (\<lambda>(k, b). summary k b) gs
     \<and> size (group_items gs + mset held) = 6"
proof -
  let ?ops = "map Add example_trades @ [Drain (Some 2000)] @ map Add example_trades"
  have six: "size (mset (added ?ops)) = 6"
    by (simp add: example_trades_def)
  have "(1000::u64) \<noteq> 0" by simp
  from aggregator_accounts_for_every_trade [OF this, of ?ops] six show ?thesis
    by metis
qed

text \<open>
  C26: a late trade opens a new window. Whatever the aggregator has been through, when an
  extraction has taken a trade's window and the trade arrives after it, the aggregator has a
  fresh window with this trade alone; it is neither merged with what was extracted nor dropped.
\<close>

theorem late_trade_opens_new_window:
  assumes "W \<noteq> 0" and "drained c (trade_key W t)"
    and "run_store add_trade drain_windows (ops @ [Drain c, Add t]) (MarketDataAggregator_new W) = Some (out, agg)"
  shows "window_stats agg (te_symbol t) (snd (trade_key W t)) = Some (summary (trade_key W t) [t])"
proof -
  obtain out1 a1 held where a1: "run_store add_trade drain_windows ops (MarketDataAggregator_new W) = Some (out1, a1)"
    "represents W held a1"
    using fresh_run [OF assms(1)] by blast
  let ?a2 = "snd (drain_windows c a1)" and ?rest = "filter (\<lambda>u. \<not> drained c (trade_key W u)) held"
  obtain a3 where a3: "add_trade ?a2 t = Some a3" "represents W (?rest @ [t]) a3"
    using represents_add [OF represents_drain(1) [OF a1(2)] assms(1)] by blast
  have "run_store add_trade drain_windows [Drain c, Add t] a1 = Some (fst (drain_windows c a1), a3)"
    by (simp add: a3(1) case_prod_unfold)
  then have "agg = a3"
    using run_store_append [OF a1(1)] assms(3) by fastforce
  moreover have "bucket W (trade_key W t) (?rest @ [t]) = [t]"
    using assms(2) by (auto simp: bucket_def filter_empty_conv)
  then have "spec_stats W (?rest @ [t]) (trade_key W t) = Some (summary (trade_key W t) [t])"
    by (simp add: spec_stats_def)
  ultimately have "agg_stats agg (trade_key W t) = Some (summary (trade_key W t) [t])"
    using a3(2) by (simp add: represents_def)
  then show ?thesis
    by (simp add: agg_stats_def trade_key_def)
qed

theorem late_trade_opens_new_window_witness:
  "\<exists>out agg. run_store add_trade drain_windows
       (map Add example_trades @ [Drain (Some 2000), Add (hd example_trades)]) (MarketDataAggregator_new 1000) = Some (out, agg)
     \<and> window_stats agg ''BTCUSDT'' 1000 = Some (summary (''BTCUSDT'', 1000) [hd example_trades])"
proof -
  let ?ops = "map Add example_trades"
  have W: "(1000 :: u64) \<noteq> 0" by simp
  have key: "trade_key 1000 (hd example_trades) = (''BTCUSDT'', 1000)" "te_symbol (hd example_trades) = ''BTCUSDT''"
    by (simp_all add: example_trades_def trade_key_def)
  obtain out agg where run: "run_store add_trade drain_windows (?ops @ [Drain (Some 2000), Add (hd example_trades)])
      (MarketDataAggregator_new 1000) = Some (out, agg)"
    using fresh_run [OF W] by blast
  have "drained (Some 2000) (trade_key 1000 (hd example_trades))"
    by (simp add: key drained_def)
  from late_trade_opens_new_window [OF W this run] run show ?thesis
    unfolding key by auto
qed

text \<open>
  C24: the periodic extraction withholds the current window. \<^verbatim>\<open>extract_completed_windows\<close>
  returns exactly the windows that start strictly before its argument, removes them, and
  leaves every window at or after it as it was; no symbol is left without a window.
\<close>

theorem extract_completed_withholds:
  assumes "agg_wf agg" and "extract_completed_windows current agg = (out, agg')"
  shows "(\<forall>s w. window_stats agg' s w = (if w < current then None else window_stats agg s w))
     \<and> set out = {st. \<exists>s w. w < current \<and> window_stats agg s w = Some st} \<and> agg_wf agg'"
proof (intro conjI)
  have res: "out = fst (extract_completed_windows current agg)"
    "agg' = snd (extract_completed_windows current agg)"
    by (simp_all add: assms(2))
  note E = entries_lookup [OF assms(1)] and E' = entries_lookup [OF extract_completed_wf [OF assms(1)]]
  have filt: "map_of (filter (\<lambda>(k, _). \<not> snd k < current) xs) k
      = (if snd k < current then None else map_of xs k)" for xs :: "(window_key \<times> WindowStats) list" and k
    by (induction xs) auto
  have "agg_stats agg' k = (if snd k < current then None else agg_stats agg k)" for k
    unfolding res E(2) [symmetric] E'(2) [symmetric] extract_completed_entries(2) filt ..
  then show "\<forall>s w. window_stats agg' s w = (if w < current then None else window_stats agg s w)"
    unfolding agg_stats_def by (metis fst_conv snd_conv)
  have "(k, st) \<in> set (agg_entries agg) \<longleftrightarrow> window_stats agg (fst k) (snd k) = Some st" for k st
    using E by (metis agg_stats_def map_of_eq_Some_iff)
  then have "st \<in> set out \<longleftrightarrow> (\<exists>k. snd k < current \<and> window_stats agg (fst k) (snd k) = Some st)" for st
    by (force simp: res extract_completed_entries(1))
  then show "set out = {st. \<exists>s w. w < current \<and> window_stats agg s w = Some st}"
    by auto
  show "agg_wf agg'"
    unfolding res using assms(1) by (rule extract_completed_wf)
qed

theorem extract_completed_withholds_witness:
  "window_stats example_store ''BTCUSDT'' 1000 = Some WindowStats_default
     \<and> window_stats (snd (extract_completed_windows 2000 example_store)) ''BTCUSDT'' 1000 = None
     \<and> window_stats (snd (extract_completed_windows 2000 example_store)) ''BTCUSDT'' 2000
        = window_stats example_store ''BTCUSDT'' 2000
     \<and> window_stats example_store ''BTCUSDT'' 2000 \<noteq> None"
proof -
  have wf: "agg_wf example_store"
    by (simp add: agg_wf_def example_store_def)
  have two: "window_stats example_store ''BTCUSDT'' 1000 = Some WindowStats_default"
    "window_stats example_store ''BTCUSDT'' 2000 \<noteq> None"
    by (simp_all add: example_store_def window_stats_def)
  from extract_completed_withholds [OF wf, of 2000 "fst (extract_completed_windows 2000 example_store)"
      "snd (extract_completed_windows 2000 example_store)"] two
  show ?thesis by simp
qed

text \<open>
  The statistics of a window are consistent with each other and with its place. For
  every window of an aggregator fed with any trades: symbol and start are the ones it is filed
  under, the start is a multiple of the window size, the trade count is the sum of buyer and
  seller counts, and the minimum price is at most the maximum price.
\<close>

theorem window_stats_consistent:
  assumes "add_trades (MarketDataAggregator_new W) ts = Some agg"
    and "window_stats agg s w = Some st" and "W \<noteq> 0"
  shows "ws_symbol st = s \<and> ws_window_start_ms st = w \<and> unat w mod unat W = 0
     \<and> ws_trade_count st = ws_buyer_initiated_count st + ws_seller_initiated_count st
     \<and> ws_min_price st \<le> ws_max_price st"
proof -
  have "represents W ts agg"
    using represents_add_trades [OF represents_new assms(3), of ts] assms(1) by simp
  then have "spec_stats W ts (s, w) = Some st"
    using assms(2) by (metis agg_stats_def fst_conv represents_def snd_conv)
  then obtain b where b: "b = bucket W (s, w) ts" "b \<noteq> []" "st = summary (s, w) b"
    by (auto simp: spec_stats_def split: if_splits)
  have "window_wf W st"
    unfolding b(3) using b(1,2) by (intro summary_wf) (simp_all add: bucket_def)
  then show ?thesis
    by (simp add: window_wf_def b(3) summary_def)
qed

theorem window_stats_consistent_witness:
  "\<exists>agg st. add_trades (MarketDataAggregator_new 1000) example_trades = Some agg
     \<and> window_stats agg ''BTCUSDT'' 1000 = Some st \<and> ws_symbol st = ''BTCUSDT''
     \<and> ws_trade_count st = ws_buyer_initiated_count st + ws_seller_initiated_count st
     \<and> ws_min_price st \<le> ws_max_price st"
proof -
  obtain agg where agg: "add_trades (MarketDataAggregator_new 1000) example_trades = Some agg"
    "represents 1000 example_trades agg"
    using represents_add_trades [OF represents_new, of 1000 example_trades] by auto
  obtain st where st: "window_stats agg ''BTCUSDT'' 1000 = Some st"
    using agg(2) by (auto simp: represents_def agg_stats_def spec_stats_def bucket_def fun_eq_iff
        example_trades_def trade_key_def)
  from window_stats_consistent [OF agg(1) st] agg(1) st show ?thesis by auto
qed

text \<open>
  C27: the volume of a window is exact as long as it fits. After any trades on a fresh
  aggregator, let the trades of a window have prices and quantities that are not negative, and the
  sum of their products, each truncated to units of \<open>10\<^sup>-\<^sup>8\<close>, stay below \<open>2\<^sup>6\<^sup>3\<close> units. Then the volume
  \<^verbatim>\<open>window_stats\<close> reports is exactly this sum: neither a product nor a partial sum has overflowed.
\<close>

theorem window_volume_exact:
  assumes "W \<noteq> 0" and "add_trades (MarketDataAggregator_new W) ts = Some agg" and "window_stats agg s w = Some st"
    and "b = filter (\<lambda>t. te_symbol t = s \<and> te_trade_time_ms t - te_trade_time_ms t mod W = w) ts"
    and "\<forall>t \<in> set b. 0 \<le> sint (raw (te_price t)) \<and> 0 \<le> sint (raw (te_quantity t))"
    and "(\<Sum>t\<leftarrow>b. sint (raw (te_price t)) * sint (raw (te_quantity t)) div 100000000) < 2 ^ 63"
  shows "sint (raw (ws_total_volume st)) = (\<Sum>t\<leftarrow>b. sint (raw (te_price t)) * sint (raw (te_quantity t)) div 100000000)"
proof -
  let ?v = "\<lambda>t. sint (raw (te_price t)) * sint (raw (te_quantity t)) div 100000000"
  have "represents W ts agg"
    using represents_add_trades [OF represents_new assms(1), of ts] assms(2) by simp
  then have "spec_stats W ts (s, w) = Some st"
    using assms(3) by (metis agg_stats_def fst_conv represents_def snd_conv)
  then have st: "st = summary (s, w) b"
    by (simp add: spec_stats_def bucket_def trade_key_def assms(4) split: if_splits)
  have "raw (notional t) = word_of_int (?v t)" if "t \<in> set b" for t
    using assms(5) that by (simp add: notional_def Decimal_mul_def kScaleFactor_def sdiv_nonneg)
  then have "(\<Sum>t\<leftarrow>b. raw (notional t)) = (\<Sum>t\<leftarrow>b. word_of_int (?v t))"
    by (intro arg_cong [where f = sum_list] map_cong) simp_all
  also have "\<dots> = word_of_int (\<Sum>t\<leftarrow>b. ?v t)"
    by (induction b) simp_all
  finally have sum: "(\<Sum>t\<leftarrow>b. raw (notional t)) = word_of_int (\<Sum>t\<leftarrow>b. ?v t)" .
  have "0 \<le> (\<Sum>t\<leftarrow>b. ?v t)"
    using assms(5) by (intro sum_list_nonneg) (auto intro!: div_int_pos_iff [THEN iffD2])
  then show ?thesis
    using assms(6) by (simp add: st summary_def sum sint_word_of_int_range)
qed

theorem window_volume_exact_witness:
  "\<exists>agg st. add_trades (MarketDataAggregator_new 1000) example_trades = Some agg
     \<and> window_stats agg ''BTCUSDT'' 1000 = Some st \<and> sint (raw (ws_total_volume st)) = 250000000"
proof -
  let ?b = "filter (\<lambda>t. te_symbol t = ''BTCUSDT'' \<and> te_trade_time_ms t - te_trade_time_ms t mod 1000 = 1000) example_trades"
  obtain agg where agg: "add_trades (MarketDataAggregator_new 1000) example_trades = Some agg"
    "represents 1000 example_trades agg"
    using represents_add_trades [OF represents_new, of 1000 example_trades] by auto
  obtain st where st: "window_stats agg ''BTCUSDT'' 1000 = Some st"
    using agg(2) by (auto simp: represents_def agg_stats_def spec_stats_def bucket_def fun_eq_iff
        example_trades_def trade_key_def)
  have b: "?b = take 2 example_trades"
    by (simp add: example_trades_def)
  have vals: "map (\<lambda>t. (sint (raw (te_price t)), sint (raw (te_quantity t)))) (take 2 example_trades)
      = [(200000000, 50000000), (300000000, 50000000)]"
    by code_simp
  then have pos: "\<forall>t \<in> set (take 2 example_trades). 0 \<le> sint (raw (te_price t)) \<and> 0 \<le> sint (raw (te_quantity t))"
    by (simp add: example_trades_def)
  have sum: "(\<Sum>t\<leftarrow>take 2 example_trades. sint (raw (te_price t)) * sint (raw (te_quantity t)) div 100000000) = 250000000"
    using vals by (simp add: example_trades_def)
  have "(1000 :: u64) \<noteq> 0" by simp
  from window_volume_exact [OF this agg(1) st b [symmetric] pos] agg(1) st show ?thesis
    unfolding sum by simp
qed

end
