(* ===== verification/StatsSerializer.thy ===== *)
theory StatsSerializer
  imports MarketDataAggregator
begin

text \<open>
  \<^verbatim>\<open>app/include/agg/output/StatsSnapshot.hpp\<close> and
  \<^verbatim>\<open>app/src/output/StatsSerializer.cpp\<close>, with what it uses of \<^verbatim>\<open><ctime>\<close>:
  \<^verbatim>\<open>std::gmtime\<close> (the proleptic Gregorian date of a non-negative time, a null pointer when
  the year does not fit an \<^verbatim>\<open>int\<close>) and \<^verbatim>\<open>std::strftime\<close> for the one format used (which
  leaves the buffer indeterminate when the text and its terminator do not fit). Both failures
  are the value \<open>None\<close>; neither can occur.

  The specification: a closed formula for the day number of a date, and what a printed block
  shows of a snapshot. A reader of whole files is in \<open>Output_Reader\<close>.
\<close>

section \<open>Calendar time\<close>

definition leap_year :: "nat \<Rightarrow> bool" where
  "leap_year y \<longleftrightarrow> 4 dvd y \<and> (\<not> 100 dvd y \<or> 400 dvd y)"

definition days_in_year :: "nat \<Rightarrow> nat" where
  "days_in_year y = (if leap_year y then 366 else 365)"

definition month_lengths :: "nat \<Rightarrow> nat list" where
  "month_lengths y = [31, if leap_year y then 29 else 28, 31, 30, 31, 30, 31, 31, 30, 31, 30, 31]"

function find_year :: "nat \<Rightarrow> nat \<Rightarrow> nat \<times> nat" where
  "find_year y days =
     (if days < days_in_year y then (y, days) else find_year (Suc y) (days - days_in_year y))"
  by pat_completeness auto
termination
  by (relation "measure snd") (auto simp: days_in_year_def)

declare find_year.simps [simp del]

fun find_month :: "nat list \<Rightarrow> nat \<Rightarrow> nat \<times> nat" where
  "find_month [] days = (0, days)"
| "find_month (l # ls) days =
     (if days < l then (0, days)
      else case find_month ls (days - l) of (m, d) \<Rightarrow> (Suc m, d))"

text \<open>The fields of \<^verbatim>\<open>std::tm\<close>: years since 1900, months from 0, days of the month from 1.\<close>

record tm =
  tm_year :: nat
  tm_mon :: nat
  tm_mday :: nat
  tm_hour :: nat
  tm_min :: nat
  tm_sec :: nat

definition gmtime :: "nat \<Rightarrow> tm option" where
  "gmtime seconds =
     (case find_year 1970 (seconds div 86400) of (y, yday) \<Rightarrow>
      case find_month (month_lengths y) yday of (m, d) \<Rightarrow>
        if y - 1900 < 2 ^ 31 then
          Some \<lparr>tm_year = y - 1900, tm_mon = m, tm_mday = d + 1,
            tm_hour = seconds mod 86400 div 3600, tm_min = seconds mod 3600 div 60,
            tm_sec = seconds mod 60\<rparr>
        else None)"

definition pad_left :: "nat \<Rightarrow> string \<Rightarrow> string" where
  "pad_left n s = replicate (n - length s) (CHR ''0'') @ s"

definition iso8601_text :: "tm \<Rightarrow> string" where
  "iso8601_text t =
     nat_to_string (tm_year t + 1900) @ ''-'' @ pad_left 2 (nat_to_string (tm_mon t + 1)) @ ''-''
     @ pad_left 2 (nat_to_string (tm_mday t)) @ ''T'' @ pad_left 2 (nat_to_string (tm_hour t)) @ '':''
     @ pad_left 2 (nat_to_string (tm_min t)) @ '':'' @ pad_left 2 (nat_to_string (tm_sec t)) @ ''Z''"

definition strftime :: "nat \<Rightarrow> tm \<Rightarrow> string option" where
  "strftime maxsize t = (if length (iso8601_text t) + 1 \<le> maxsize then Some (iso8601_text t) else None)"

definition format_iso8601_utc :: "u64 \<Rightarrow> string option" where
  "format_iso8601_utc epoch_ms =
     (let seconds = nat (sint (epoch_ms div 1000))
      in case gmtime seconds of None \<Rightarrow> None | Some tm_utc \<Rightarrow> strftime 32 tm_utc)"

section \<open>Snapshots and their text\<close>

record StatsSnapshot =
  snap_window_start_ms :: u64
  snap_windows :: "WindowStats list"

definition StatsSnapshot_default :: StatsSnapshot where
  "StatsSnapshot_default = \<lparr>snap_window_start_ms = 0, snap_windows = []\<rparr>"

definition u64_to_string :: "u64 \<Rightarrow> string" where
  "u64_to_string w = nat_to_string (unat w)"

definition window_line :: "WindowStats \<Rightarrow> string" where
  "window_line window =
     ''symbol='' @ ws_symbol window
     @ '' trades='' @ u64_to_string (ws_trade_count window)
     @ '' volume='' @ Decimal_to_string (ws_total_volume window)
     @ '' min='' @ Decimal_to_string (ws_min_price window)
     @ '' max='' @ Decimal_to_string (ws_max_price window)
     @ '' buy='' @ u64_to_string (ws_buyer_initiated_count window)
     @ '' sell='' @ u64_to_string (ws_seller_initiated_count window)
     @ [CHR 0x0A]"

definition serialize :: "StatsSnapshot \<Rightarrow> string option" where
  "serialize snapshot =
     (if snap_windows snapshot = [] then Some []
      else
        (case format_iso8601_utc (snap_window_start_ms snapshot) of
           None \<Rightarrow> None
         | Some timestamp \<Rightarrow>
             let output = ''timestamp='' @ timestamp @ [CHR 0x0A];
                 output = foldl (\<lambda>output window. output @ window_line window) output
                            (snap_windows snapshot)
             in Some (output @ [CHR 0x0A])))"

section \<open>The calendar is right\<close>

text \<open>
  The day number of a date by a closed formula, counted from 1970-01-01: the leap days before
  a year \<open>y\<close> are the multiples of 4, less those of 100, plus those of 400, below \<open>y\<close>.
\<close>

definition day_number :: "nat \<Rightarrow> nat \<Rightarrow> nat \<Rightarrow> int" where
  "day_number y m d =
     365 * (int y - 1970) + ((int y - 1) div 4 - (int y - 1) div 100 + (int y - 1) div 400 - 477)
     + int (sum_list (take m (month_lengths y))) + int d - 1"

definition valid_date :: "nat \<Rightarrow> nat \<Rightarrow> nat \<Rightarrow> bool" where
  "valid_date y m d \<longleftrightarrow> m < 12 \<and> 1 \<le> d \<and> d \<le> month_lengths y ! m"

text \<open>The broken-down time \<open>t\<close> is a valid date and time of day, \<open>seconds\<close> after the epoch.\<close>

definition utc_of :: "tm \<Rightarrow> nat \<Rightarrow> bool" where
  "utc_of t seconds \<longleftrightarrow>
     valid_date (tm_year t + 1900) (tm_mon t) (tm_mday t)
     \<and> tm_hour t < 24 \<and> tm_min t < 60 \<and> tm_sec t < 60
     \<and> day_number (tm_year t + 1900) (tm_mon t) (tm_mday t) * 86400
         + int (tm_hour t * 3600 + tm_min t * 60 + tm_sec t) = int seconds"

definition year_start :: "nat \<Rightarrow> int" where
  "year_start y =
     365 * (int y - 1970) + ((int y - 1) div 4 - (int y - 1) div 100 + (int y - 1) div 400 - 477)"

lemma month_lengths_simps [simp]:
  "length (month_lengths y) = 12" "sum_list (month_lengths y) = days_in_year y"
  by (simp_all add: month_lengths_def days_in_year_def)

lemma div_step:
  assumes "0 < y"
  shows "int y div int n = (int y - 1) div int n + (if n dvd y then 1 else 0)"
proof -
  obtain z where y: "y = Suc z" using assms by (cases y) auto
  have "Suc z div n = z div n + (if n dvd Suc z then 1 else 0)"
    by (simp add: div_Suc dvd_eq_mod_eq_0)
  from arg_cong [OF this, of int] show ?thesis
    by (simp add: y zdiv_int)
qed

lemma year_start_Suc: "0 < y \<Longrightarrow> year_start (Suc y) = year_start y + int (days_in_year y)"
proof -
  assume y: "0 < y"
  have "(4::nat) dvd 100" "(100::nat) dvd 400"
    by simp_all
  then have "100 dvd y \<Longrightarrow> 4 dvd y" "400 dvd y \<Longrightarrow> 100 dvd y"
    by (blast intro: dvd_trans)+
  then have leap: "(if 4 dvd y then 1 else 0) - (if 100 dvd y then 1 else 0) + (if 400 dvd y then 1 else 0)
      = int (days_in_year y) - 365"
    by (simp add: days_in_year_def leap_year_def)
  define a b c where "a = (int y - 1) div 4" and "b = (int y - 1) div 100" and "c = (int y - 1) div 400"
  have "int y div 4 = a + (if 4 dvd y then 1 else 0)" "int y div 100 = b + (if 100 dvd y then 1 else 0)"
    "int y div 400 = c + (if 400 dvd y then 1 else 0)"
    using div_step [OF y, of 4] div_step [OF y, of 100] div_step [OF y, of 400]
    unfolding a_def b_def c_def by (simp_all only: of_nat_numeral)
  moreover have "year_start y = 365 * (int y - 1970) + (a - b + c - 477)"
    unfolding year_start_def a_def b_def c_def ..
  moreover have "year_start (Suc y) = 365 * (int y + 1 - 1970) + (int y div 4 - int y div 100 + int y div 400 - 477)"
    by (simp add: year_start_def)
  ultimately show ?thesis
    using leap by (simp only:) (simp add: algebra_simps)
qed

lemma find_year_correct:
  assumes "find_year y days = (y', yday)" and "0 < y"
  shows "y \<le> y' \<and> yday < days_in_year y' \<and> 365 * (y' - y) \<le> days
     \<and> year_start y' + int yday = year_start y + int days"
  using assms
proof (induction y days rule: find_year.induct)
  case (1 y days)
  consider "days < days_in_year y" "(y', yday) = (y, days)"
    | "\<not> days < days_in_year y" "find_year (Suc y) (days - days_in_year y) = (y', yday)"
    using "1.prems"(1) by (subst (asm) find_year.simps) (auto split: if_splits)
  then show ?case
  proof cases
    case 2
    have "365 \<le> days_in_year y"
      by (simp add: days_in_year_def)
    with 2(1) "1.IH" [OF 2] year_start_Suc [OF "1.prems"(2)] show ?thesis
      by auto
  qed auto
qed

lemma find_month_correct:
  assumes "find_month ls days = (m, d)" and "days < sum_list ls"
  shows "m < length ls \<and> d < ls ! m \<and> sum_list (take m ls) + d = days"
  using assms
proof (induction ls days arbitrary: m d rule: find_month.induct)
  case (2 l ls days)
  show ?case
  proof (cases "days < l")
    case False
    then obtain m' where "m = Suc m'" "find_month ls (days - l) = (m', d)"
      using "2.prems"(1) by (auto split: prod.splits)
    moreover have "days - l < sum_list ls" "l \<le> days"
      using False "2.prems"(2) by auto
    ultimately show ?thesis
      using "2.IH" [OF False, of m' d] by auto
  qed (use 2 in simp)
qed simp

text \<open>\<open>gmtime\<close> never fails on a 64-bit count of milliseconds, and inverts the formula.\<close>

lemma gmtime_correct:
  assumes "seconds < 2 * 10 ^ 16"
  shows "\<exists>t. gmtime seconds = Some t \<and> utc_of t seconds \<and> tm_year t < 10 ^ 9 - 1900"
proof -
  obtain y yday where y: "find_year 1970 (seconds div 86400) = (y, yday)"
    by (cases "find_year 1970 (seconds div 86400)")
  obtain m d where m: "find_month (month_lengths y) yday = (m, d)"
    by (cases "find_month (month_lengths y) yday")
  have Y: "1970 \<le> y" "yday < days_in_year y" "365 * (y - 1970) \<le> seconds div 86400"
    "year_start y + int yday = int (seconds div 86400)"
    using find_year_correct [OF y] by (simp_all add: year_start_def)
  have M: "m < 12" "d < month_lengths y ! m" "sum_list (take m (month_lengths y)) + d = yday"
    using find_month_correct [OF m] Y(2) by simp_all
  have bound: "y - 1900 < 10 ^ 9 - 1900"
    using Y(1,3) assms by simp
  have "day_number y m (d + 1) = int (seconds div 86400)"
    using Y(4) M(3) by (simp add: day_number_def year_start_def)
  moreover have "seconds mod 86400 div 3600 * 3600 + seconds mod 3600 div 60 * 60 + seconds mod 60
      = seconds mod 86400"
  proof -
    have "seconds mod 86400 mod 3600 = seconds mod 3600" "seconds mod 3600 mod 60 = seconds mod 60"
      by (simp_all add: mod_mod_cancel)
    then show ?thesis
      by (metis add.assoc div_mult_mod_eq)
  qed
  ultimately have "day_number y m (d + 1) * 86400 + int (seconds mod 86400 div 3600 * 3600
      + seconds mod 3600 div 60 * 60 + seconds mod 60) = int seconds"
    by (simp add: zdiv_int zmod_int)
  with Y(1) M bound show ?thesis
    by (simp add: gmtime_def y m utc_of_def valid_date_def less_mult_imp_div_less)
qed

lemma seconds_of_ms:
  "nat (sint (e div 1000)) = unat e div 1000" "unat e div 1000 < 2 * 10 ^ 16" for e :: u64
proof -
  have "unat e < 2 ^ 64"
    using unsigned_less [of e, where ?'a = nat] by simp
  then show less: "unat e div 1000 < 2 * 10 ^ 16" by simp
  have "unat (e div 1000) = unat e div 1000"
    by (simp add: unat_div)
  then have "e div 1000 = word_of_int (int (unat e div 1000))"
    by (simp flip: \<open>unat (e div 1000) = unat e div 1000\<close>)
  then show "nat (sint (e div 1000)) = unat e div 1000"
    using less sint_word_of_int_range [of "int (unat e div 1000)"] by simp
qed

section \<open>The text determines the time\<close>

lemma pad_left_digits [simp]:
  "list_all isdigit (pad_left n s) = list_all isdigit s" "digits_value (pad_left n s) = digits_value s"
  by (auto simp: pad_left_def digits_value_append list_all_iff isdigit_def)

lemma pad_left_2: "n < 100 \<Longrightarrow> length (pad_left 2 (nat_to_string n)) = 2"
  using nat_to_string_length [of n 2] by (simp add: pad_left_def)

lemma pad_left_2_text:
  assumes "n < 100"
  shows "pad_left 2 (nat_to_string n) = [digit_char (n div 10), digit_char (n mod 10)]"
proof (cases "n < 10")
  case True
  have "CHR ''0'' = digit_char 0"
    by (simp add: digit_char_def char_of_def bit_0)
  with True show ?thesis
    by (simp add: pad_left_def nat_to_string.simps)
next
  case False
  then have "nat_to_string n = [digit_char (n div 10), digit_char (n mod 10)]"
    using assms by (simp add: nat_to_string.simps [of n] nat_to_string.simps [of "n div 10"])
  then show ?thesis
    by (simp add: pad_left_def)
qed

lemma month_length_le: "m < 12 \<Longrightarrow> month_lengths y ! m \<le> 31"
proof -
  assume "m < 12"
  then have "month_lengths y ! m \<in> set (month_lengths y)" by simp
  then show ?thesis by (auto simp: month_lengths_def split: if_splits)
qed

lemma iso8601_text_length:
  assumes "utc_of t seconds" and "tm_year t < 10 ^ 9 - 1900"
  shows "length (iso8601_text t) \<le> 25"
  using assms nat_to_string_length [of "tm_year t + 1900" 9] month_length_le [of "tm_mon t" "tm_year t + 1900"]
  by (simp add: iso8601_text_def utc_of_def valid_date_def pad_left_2)

lemma padded_inj:
  assumes "pad_left 2 (nat_to_string a) @ c # r = pad_left 2 (nat_to_string b) @ c # r'"
    and "\<not> isdigit c"
  shows "a = b \<and> r = r'"
proof -
  have "pad_left 2 (nat_to_string a) = pad_left 2 (nat_to_string b) \<and> c = c \<and> r = r'"
    by (rule separated_inj [OF assms(1), where P = isdigit]) (simp_all add: assms(2))
  then show ?thesis
    by (metis nat_to_string_value pad_left_digits(2))
qed

lemma iso8601_text_inj:
  assumes "iso8601_text s = iso8601_text t"
  shows "s = t"
proof -
  have sep: "\<not> isdigit (CHR ''-'')" "\<not> isdigit (CHR ''T'')" "\<not> isdigit (CHR '':'')" "\<not> isdigit (CHR ''Z'')"
    by (simp_all add: isdigit_def)
  have "nat_to_string (tm_year s + 1900) = nat_to_string (tm_year t + 1900) \<and> CHR ''-'' = CHR ''-''
    \<and> tl (dropWhile isdigit (iso8601_text s)) = tl (dropWhile isdigit (iso8601_text t))"
    using assms sep(1) separated_inj [OF assms [unfolded iso8601_text_def append_Cons append_Nil],
        where P = isdigit] by simp
  then have y: "tm_year s = tm_year t" by simp
  note rest = assms [unfolded iso8601_text_def y same_append_eq append_Cons append_Nil list.inject]
  from padded_inj [OF _ sep(1)] padded_inj [OF _ sep(2)] padded_inj [OF _ sep(3)]
    padded_inj [OF _ sep(4)] rest
  have "tm_mon s + 1 = tm_mon t + 1 \<and> tm_mday s = tm_mday t \<and> tm_hour s = tm_hour t
    \<and> tm_min s = tm_min t \<and> tm_sec s = tm_sec t"
    by metis
  with y show ?thesis by simp
qed

lemma format_iso8601_utc_some:
  obtains t where "format_iso8601_utc e = Some (iso8601_text t)" and "utc_of t (unat e div 1000)"
    and "length (iso8601_text t) \<le> 25"
proof -
  obtain t where t: "gmtime (unat e div 1000) = Some t" "utc_of t (unat e div 1000)"
    "length (iso8601_text t) \<le> 25"
    using gmtime_correct [OF seconds_of_ms(2)] iso8601_text_length by blast
  then have "format_iso8601_utc e = Some (iso8601_text t)"
    by (simp add: format_iso8601_utc_def Let_def seconds_of_ms(1) strftime_def)
  with t(2,3) show ?thesis by (blast intro: that)
qed

lemma format_iso8601_utc_eq_iff:
  "format_iso8601_utc d = format_iso8601_utc e \<longleftrightarrow> unat d div 1000 = unat e div 1000"
proof
  assume eq: "format_iso8601_utc d = format_iso8601_utc e"
  obtain s where s: "format_iso8601_utc d = Some (iso8601_text s)" "utc_of s (unat d div 1000)"
    by (rule format_iso8601_utc_some)
  obtain t where t: "format_iso8601_utc e = Some (iso8601_text t)" "utc_of t (unat e div 1000)"
    by (rule format_iso8601_utc_some)
  have "s = t"
    using eq s(1) t(1) by (auto dest: iso8601_text_inj)
  with s(2) t(2) show "unat d div 1000 = unat e div 1000"
    by (simp add: utc_of_def)
qed (simp add: format_iso8601_utc_def seconds_of_ms(1))

section \<open>The text determines the statistics\<close>

text \<open>
  What a line shows of a window: everything but the start, which the block's timestamp has.
\<close>

definition shown :: "WindowStats \<Rightarrow> WindowStats" where
  "shown w = w\<lparr>ws_window_start_ms := 0\<rparr>"

definition field_char :: "char \<Rightarrow> bool" where
  "field_char c \<longleftrightarrow> c \<noteq> CHR '' '' \<and> c \<noteq> CHR 0x0A"

definition plain_symbol :: "WindowStats \<Rightarrow> bool" where
  "plain_symbol w \<longleftrightarrow> list_all field_char (ws_symbol w)"

lemma serialize_eq:
  "serialize snap =
     (if snap_windows snap = [] then Some []
      else map_option (\<lambda>timestamp. ''timestamp='' @ timestamp @ [CHR 0x0A]
             @ concat (map window_line (snap_windows snap)) @ [CHR 0x0A])
           (format_iso8601_utc (snap_window_start_ms snap)))"
proof -
  have "foldl (\<lambda>output window. output @ window_line window) start ws
      = start @ concat (map window_line ws)" for start ws
    by (induction ws arbitrary: start) simp_all
  then show ?thesis
    by (simp add: serialize_def Let_def split: option.splits)
qed

lemma isdigit_field_char: "isdigit c \<Longrightarrow> field_char c"
  by (auto simp: isdigit_def field_char_def)

lemma u64_to_string_inj [simp]: "u64_to_string a = u64_to_string b \<longleftrightarrow> a = b"
  by (simp add: u64_to_string_def word_unat_eq_iff)

lemma digits_field_chars: "list_all isdigit s \<Longrightarrow> list_all field_char s"
  by (auto simp: list_all_iff isdigit_field_char)

lemma iso8601_text_field_chars [simp]: "list_all field_char (iso8601_text t)"
proof -
  have "list_all field_char (nat_to_string n)" "list_all field_char (pad_left 2 (nat_to_string n))" for n
    by (rule digits_field_chars, simp)+
  then show ?thesis
    by (simp add: iso8601_text_def field_char_def)
qed

lemma numbers_field_chars [simp]:
  "list_all field_char (u64_to_string n)" "list_all field_char (Decimal_to_string d)"
proof -
  show "list_all field_char (u64_to_string n)"
    unfolding u64_to_string_def by (rule digits_field_chars) simp
  have "field_char (CHR ''-'')" "field_char (CHR ''+'')" "field_char (CHR ''.'')"
    by (simp_all add: field_char_def)
  then show "list_all field_char (Decimal_to_string d)"
    using isdigit_field_char Decimal_to_string_chars by (metis list_all_iff)
qed

lemma separators [simp]: "\<not> field_char (CHR '' '')" "\<not> field_char (CHR 0x0A)"
  by (simp_all add: field_char_def)

lemma field_inj:
  assumes "x @ c # r = y @ c # r'" and "list_all field_char x" and "list_all field_char y"
    and "\<not> field_char c"
  shows "x = y \<and> r = r'"
  using separated_inj [OF assms(1-3)] assms(4) by blast

lemma field_eq_iff:
  assumes "list_all field_char x" and "list_all field_char y" and "\<not> field_char c"
  shows "x @ c # r = y @ c # r' \<longleftrightarrow> x = y \<and> r = r'"
  using field_inj [OF _ assms] by auto

lemma window_line_inj:
  assumes "window_line v @ r = window_line w @ r'" and "plain_symbol v" and "plain_symbol w"
  shows "shown v = shown w \<and> r = r'"
proof -
  note eq = assms(1) [unfolded window_line_def append_assoc append_Cons append_Nil list.inject simp_thms]
  have s: "ws_symbol v = ws_symbol w"
    using field_inj [OF eq] assms(2,3) by (simp add: plain_symbol_def)
  note eq1 = eq [unfolded this same_append_eq list.inject simp_thms]
  have t: "u64_to_string (ws_trade_count v) = u64_to_string (ws_trade_count w)"
    using field_inj [OF eq1] by simp
  note eq2 = eq1 [unfolded this same_append_eq list.inject simp_thms]
  have vol: "Decimal_to_string (ws_total_volume v) = Decimal_to_string (ws_total_volume w)"
    using field_inj [OF eq2] by simp
  note eq3 = eq2 [unfolded this same_append_eq list.inject simp_thms]
  have mn: "Decimal_to_string (ws_min_price v) = Decimal_to_string (ws_min_price w)"
    using field_inj [OF eq3] by simp
  note eq4 = eq3 [unfolded this same_append_eq list.inject simp_thms]
  have mx: "Decimal_to_string (ws_max_price v) = Decimal_to_string (ws_max_price w)"
    using field_inj [OF eq4] by simp
  note eq5 = eq4 [unfolded this same_append_eq list.inject simp_thms]
  have b: "u64_to_string (ws_buyer_initiated_count v) = u64_to_string (ws_buyer_initiated_count w)"
    using field_inj [OF eq5] by simp
  note eq6 = eq5 [unfolded this same_append_eq list.inject simp_thms]
  have "u64_to_string (ws_seller_initiated_count v) = u64_to_string (ws_seller_initiated_count w) \<and> r = r'"
    using field_inj [OF eq6] by simp
  with s t vol mn mx b show ?thesis
    by (cases v; cases w) (simp add: shown_def)
qed

lemma window_line_shown [simp]: "window_line (shown w) = window_line w"
  by (simp add: shown_def window_line_def)

lemma window_lines_inj:
  assumes "concat (map window_line vs) = concat (map window_line ws)"
    and "list_all plain_symbol vs" and "list_all plain_symbol ws"
  shows "map shown vs = map shown ws"
  using assms
proof (induction vs arbitrary: ws)
  case Nil
  then show ?case by (cases ws) (auto simp: window_line_def)
next
  case (Cons v vs)
  then obtain w ws' where ws: "ws = w # ws'"
    by (cases ws) (auto simp: window_line_def)
  have "shown v = shown w \<and> concat (map window_line vs) = concat (map window_line ws')"
    by (rule window_line_inj) (use Cons.prems ws in simp_all)
  with Cons ws show ?case by simp
qed

lemma window_lines_cong:
  assumes "map shown vs = map shown ws"
  shows "concat (map window_line vs) = concat (map window_line ws)"
  using arg_cong [OF assms, of "\<lambda>us. concat (map window_line us)"] by (simp add: comp_def)

section \<open>Properties\<close>

text \<open>
  C35: the timestamp is the exact UTC time. For every 64-bit count of milliseconds neither
  \<^verbatim>\<open>gmtime\<close> nor \<^verbatim>\<open>strftime\<close> fails (the text and its terminator fit the buffer of 32 bytes), and
  the text reads year, month, day, hour, minute and second in this order, as in
  2026-01-12T14:23:20Z with two digits for all but the year, of the valid Gregorian date and time of day
  that lie exactly \<open>epoch_ms div 1000\<close> seconds after 1970-01-01T00:00:00Z.
\<close>

theorem format_iso8601_utc_correct:
  "\<exists>year month day hour minute second.
     format_iso8601_utc epoch_ms = Some (nat_to_string year
       @ [CHR ''-'', digit_char (month div 10), digit_char (month mod 10),
          CHR ''-'', digit_char (day div 10), digit_char (day mod 10),
          CHR ''T'', digit_char (hour div 10), digit_char (hour mod 10),
          CHR '':'', digit_char (minute div 10), digit_char (minute mod 10),
          CHR '':'', digit_char (second div 10), digit_char (second mod 10), CHR ''Z''])
     \<and> length (nat_to_string year) + 16 < 32
     \<and> 1 \<le> month \<and> month \<le> 12 \<and> 1 \<le> day \<and> day \<le> month_lengths year ! (month - 1)
     \<and> hour < 24 \<and> minute < 60 \<and> second < 60
     \<and> day_number year (month - 1) day * 86400 + int (hour * 3600 + minute * 60 + second) = int (unat epoch_ms div 1000)"
proof -
  obtain t where t: "format_iso8601_utc epoch_ms = Some (iso8601_text t)" "utc_of t (unat epoch_ms div 1000)"
    "length (iso8601_text t) \<le> 25"
    by (rule format_iso8601_utc_some)
  have u: "tm_mon t < 12" "1 \<le> tm_mday t" "tm_mday t \<le> month_lengths (tm_year t + 1900) ! tm_mon t"
    "tm_hour t < 24" "tm_min t < 60" "tm_sec t < 60"
    using t(2) by (simp_all add: utc_of_def valid_date_def)
  have "tm_mday t < 100"
    using u(3) month_length_le [OF u(1), of "tm_year t + 1900"] by simp
  with u have shape: "iso8601_text t = nat_to_string (tm_year t + 1900)
       @ [CHR ''-'', digit_char ((tm_mon t + 1) div 10), digit_char ((tm_mon t + 1) mod 10),
          CHR ''-'', digit_char (tm_mday t div 10), digit_char (tm_mday t mod 10),
          CHR ''T'', digit_char (tm_hour t div 10), digit_char (tm_hour t mod 10),
          CHR '':'', digit_char (tm_min t div 10), digit_char (tm_min t mod 10),
          CHR '':'', digit_char (tm_sec t div 10), digit_char (tm_sec t mod 10), CHR ''Z'']"
    unfolding iso8601_text_def by (subst pad_left_2_text, simp)+ simp
  have size: "length (nat_to_string (tm_year t + 1900)) + 16 < 32"
    using t(3) unfolding shape length_append by simp
  have mon: "tm_mon t + 1 - 1 = tm_mon t" "1 \<le> tm_mon t + 1" "tm_mon t + 1 \<le> 12"
    using u(1) by simp_all
  have time: "day_number (tm_year t + 1900) (tm_mon t) (tm_mday t) * 86400
      + int (tm_hour t * 3600 + tm_min t * 60 + tm_sec t) = int (unat epoch_ms div 1000)"
    using t(2) unfolding utc_of_def by blast
  show ?thesis
    by (intro exI [of _ "tm_year t + 1900"] exI [of _ "tm_mon t + 1"] exI [of _ "tm_mday t"]
        exI [of _ "tm_hour t"] exI [of _ "tm_min t"] exI [of _ "tm_sec t"], unfold mon(1))
      (intro conjI t(1) [unfolded shape] size mon u time)
qed

text \<open>
  Timestamps keep whole seconds only. Two window starts print the same timestamp exactly
  when they lie in the same second, so windows shorter than a second get blocks with equal
  timestamps, and windows of whole seconds never do.
\<close>

theorem format_iso8601_utc_same_second:
  "format_iso8601_utc a = format_iso8601_utc b \<longleftrightarrow> unat a div 1000 = unat b div 1000"
  by (rule format_iso8601_utc_eq_iff)

text \<open>
  A written block determines what was written. Two non-empty snapshots whose symbols
  have no blank and no newline serialize to the same text exactly when their starts lie in the
  same second and they list the same statistics in the same order; nothing of a window is lost
  or mixed up with its neighbour in the text.
\<close>

theorem serialize_injective:
  assumes "snap_windows a \<noteq> []" and "snap_windows b \<noteq> []"
    and "list_all plain_symbol (snap_windows a)" and "list_all plain_symbol (snap_windows b)"
  shows "serialize a = serialize b \<longleftrightarrow>
     unat (snap_window_start_ms a) div 1000 = unat (snap_window_start_ms b) div 1000
     \<and> map shown (snap_windows a) = map shown (snap_windows b)"
proof -
  obtain s where s: "format_iso8601_utc (snap_window_start_ms a) = Some (iso8601_text s)"
    by (rule format_iso8601_utc_some)
  obtain t where t: "format_iso8601_utc (snap_window_start_ms b) = Some (iso8601_text t)"
    by (rule format_iso8601_utc_some)
  let ?la = "concat (map window_line (snap_windows a)) @ [CHR 0x0A]"
  let ?lb = "concat (map window_line (snap_windows b)) @ [CHR 0x0A]"
  have "serialize a = serialize b \<longleftrightarrow> iso8601_text s @ CHR 0x0A # ?la = iso8601_text t @ CHR 0x0A # ?lb"
    using assms(1,2) by (simp add: serialize_eq s t)
  also have "\<dots> \<longleftrightarrow> iso8601_text s = iso8601_text t \<and> ?la = ?lb"
    by (rule field_eq_iff) simp_all
  also have "iso8601_text s = iso8601_text t \<longleftrightarrow>
      unat (snap_window_start_ms a) div 1000 = unat (snap_window_start_ms b) div 1000"
    using s t by (metis format_iso8601_utc_eq_iff option.inject)
  also have "?la = ?lb \<longleftrightarrow> map shown (snap_windows a) = map shown (snap_windows b)"
    unfolding append_same_eq using window_lines_inj [OF _ assms(3,4)] window_lines_cong by blast
  finally show ?thesis .
qed

definition example_snapshot :: StatsSnapshot where
  "example_snapshot = \<lparr>snap_window_start_ms = 1768227800000,
     snap_windows = [\<lparr>ws_symbol = ''BTCUSDT'', ws_window_start_ms = 1768227800000, ws_trade_count = 154,
       ws_total_volume = from_raw 2351000000, ws_min_price = from_raw 4301210000000,
       ws_max_price = from_raw 4318940000000, ws_buyer_initiated_count = 82,
       ws_seller_initiated_count = 72\<rparr>]\<rparr>"

text \<open>The documented example block, printed.\<close>

lemma example_timestamp: "format_iso8601_utc 1768227800000 = Some ''2026-01-12T14:23:20Z''"
proof -
  have year: "find_year 1970 20465 = (2026, 11)"
    by (simp add: find_year.simps days_in_year_def leap_year_def)
  have "gmtime 1768227800 = Some \<lparr>tm_year = 126, tm_mon = 0, tm_mday = 12,
      tm_hour = 14, tm_min = 23, tm_sec = 20\<rparr>"
    by (simp add: gmtime_def year month_lengths_def)
  then show ?thesis
    by (simp add: format_iso8601_utc_def Let_def seconds_of_ms(1) strftime_def iso8601_text_def
        pad_left_def nat_to_string.simps digit_char_def char_of_def bit_0)
qed

lemma example_block:
  "serialize example_snapshot = Some (''timestamp=2026-01-12T14:23:20Z'' @ [CHR 0x0A]
     @ ''symbol=BTCUSDT trades=154 volume=23.51 min=43012.1 max=43189.4 buy=82 sell=72''
     @ [CHR 0x0A, CHR 0x0A])"
proof -
  have "concat (map window_line (snap_windows example_snapshot))
      = ''symbol=BTCUSDT trades=154 volume=23.51 min=43012.1 max=43189.4 buy=82 sell=72'' @ [CHR 0x0A]"
    by code_simp
  moreover have "snap_windows example_snapshot \<noteq> []"
    "snap_window_start_ms example_snapshot = 1768227800000"
    by (simp_all add: example_snapshot_def)
  ultimately show ?thesis
    by (simp add: serialize_eq example_timestamp)
qed

theorem serialize_injective_witness:
  "serialize example_snapshot
     = serialize (example_snapshot\<lparr>snap_window_start_ms := 1768227800999\<rparr>)
   \<and> serialize example_snapshot
     \<noteq> serialize (example_snapshot\<lparr>snap_window_start_ms := 1768227801000\<rparr>)"
proof -
  have ok: "snap_windows example_snapshot \<noteq> []" "list_all plain_symbol (snap_windows example_snapshot)"
    by (simp_all add: example_snapshot_def plain_symbol_def field_char_def)
  have start: "unat (snap_window_start_ms example_snapshot) div 1000 = 1768227800"
    by (simp add: example_snapshot_def)
  have upd: "snap_windows (example_snapshot\<lparr>snap_window_start_ms := w\<rparr>) = snap_windows example_snapshot"
    for w by simp
  show ?thesis
    using serialize_injective [of example_snapshot "example_snapshot\<lparr>snap_window_start_ms := 1768227800999\<rparr>"]
      serialize_injective [of example_snapshot "example_snapshot\<lparr>snap_window_start_ms := 1768227801000\<rparr>"]
    unfolding upd start using ok by simp
qed

end
