(* ===== verification/OutputSink.thy ===== *)
theory OutputSink
  imports Agg_Prelude
begin

text \<open>
  \<^verbatim>\<open>app/include/agg/output/OutputSink.hpp\<close>, the abstract destination of text blocks, as a
  locale, and \<^verbatim>\<open>app/src/output/FileOutputSink.cpp\<close>, the implementation the program uses.

  A write returns whether it succeeded (\<open>False\<close> is the \<^verbatim>\<open>std::runtime_error\<close>) and the new
  state. The file system is not part of the program: \<open>device\<close> gives the number of bytes of a
  text it accepts when the file holds the given content.
\<close>

section \<open>Writing blocks to a sink\<close>

text \<open>The loop of a client: write the blocks one after the other, an exception ends it.\<close>

fun write_blocks :: "(string \<Rightarrow> 's \<Rightarrow> bool \<times> 's) \<Rightarrow> string list \<Rightarrow> 's \<Rightarrow> bool \<times> 's" where
  "write_blocks write [] s = (True, s)"
| "write_blocks write (b # bs) s =
     (case write b s of (ok, s') \<Rightarrow> if ok then write_blocks write bs s' else (False, s'))"

locale output_sink =
  fixes content :: "'s \<Rightarrow> string"
    and put :: "string \<Rightarrow> 's \<Rightarrow> bool \<times> 's"
  assumes write_verbatim: "put t s = (True, s') \<Longrightarrow> content s' = content s @ t"
    and write_failed: "put t s = (False, s') \<Longrightarrow>
          \<exists>part. length part \<le> length t \<and> part = take (length part) t
            \<and> content s' = content s @ part"
begin

lemma write_blocks_append:
  "write_blocks put (bs @ cs) s =
     (case write_blocks put bs s of (ok, s') \<Rightarrow> if ok then write_blocks put cs s' else (False, s'))"
  by (induction bs arbitrary: s) (auto split: prod.splits)

lemma write_blocks_verbatim:
  "write_blocks put bs s = (True, s') \<Longrightarrow> content s' = content s @ concat bs"
proof (induction bs arbitrary: s)
  case (Cons b bs)
  then obtain s1 where "put b s = (True, s1)" "write_blocks put bs s1 = (True, s')"
    by (auto split: prod.splits if_splits)
  with Cons.IH [of s1] write_verbatim show ?case by simp
qed simp

text \<open>A failure leaves whole blocks and at most one torn one: what is there is a prefix.\<close>

lemma write_blocks_prefix:
  "write_blocks put bs s = (ok, s') \<Longrightarrow>
     \<exists>out. content s' = content s @ out \<and> out = take (length out) (concat bs)"
proof (induction bs arbitrary: s)
  case (Cons b bs)
  obtain ok1 s1 where w: "put b s = (ok1, s1)" by (cases "put b s")
  show ?case
  proof (cases ok1)
    case True
    with w Cons.prems have run: "write_blocks put bs s1 = (ok, s')" by simp
    have "content s1 = content s @ b"
      using w True by (intro write_verbatim) simp
    moreover obtain out where "content s' = content s1 @ out" "out = take (length out) (concat bs)"
      using Cons.IH [OF run] by blast
    ultimately have "content s' = content s @ (b @ out)"
      "b @ out = take (length (b @ out)) (concat (b # bs))" by simp_all
    then show ?thesis by blast
  next
    case False
    with w Cons.prems have "s' = s1" by simp
    moreover obtain part where "length part \<le> length b" "part = take (length part) b"
      "content s1 = content s @ part"
      using write_failed [of b s s1] w False by auto
    ultimately have "content s' = content s @ part" "part = take (length part) (concat (b # bs))"
      by simp_all
    then show ?thesis by blast
  qed
qed simp

end

section \<open>FileOutputSink\<close>

record FileOutputSink =
  fs_file :: string
  fs_good :: bool

text \<open>
  The constructor opens for appending: what the file holds stays, \<open>None\<close> for a path the file
  system does not open. A stream that has failed once stays failed, and \<^verbatim>\<open><<\<close> then writes
  nothing.
\<close>

definition FileOutputSink_new :: "(string \<Rightarrow> string option) \<Rightarrow> string \<Rightarrow> FileOutputSink option" where
  "FileOutputSink_new open_append path =
     (case open_append path of
        None \<Rightarrow> None
      | Some existing \<Rightarrow> Some \<lparr>fs_file = existing, fs_good = True\<rparr>)"

definition stream_put :: "(string \<Rightarrow> string \<Rightarrow> nat) \<Rightarrow> string \<Rightarrow> FileOutputSink \<Rightarrow> FileOutputSink" where
  "stream_put device text sink =
     (if \<not> fs_good sink then sink
      else
        let n = device (fs_file sink) text
        in sink\<lparr>fs_file := fs_file sink @ take n text, fs_good := length text \<le> n\<rparr>)"

definition FileOutputSink_write ::
    "(string \<Rightarrow> string \<Rightarrow> nat) \<Rightarrow> string \<Rightarrow> FileOutputSink \<Rightarrow> bool \<times> FileOutputSink" where
  "FileOutputSink_write device text sink =
     (let sink = stream_put device text sink in (fs_good sink, sink))"

interpretation file_sink: output_sink fs_file "FileOutputSink_write device" for device
proof unfold_locales
  fix t :: string and s s' :: FileOutputSink
  show "fs_file s' = fs_file s @ t" if "FileOutputSink_write device t s = (True, s')"
    using that by (auto simp: FileOutputSink_write_def stream_put_def Let_def split: if_splits)
  show "\<exists>part. length part \<le> length t \<and> part = take (length part) t \<and> fs_file s' = fs_file s @ part"
    if "FileOutputSink_write device t s = (False, s')"
    using that by (intro exI [of _ "if fs_good s then take (device (fs_file s) t) t else []"])
      (auto simp: FileOutputSink_write_def stream_put_def Let_def min_def split: if_splits)
qed

section \<open>Properties\<close>

text \<open>
  The file is only ever appended to, in order. Whatever the device does, after writing
  any blocks to a sink opened on a file, the file is its old content followed by a prefix of
  the concatenation of the blocks; it is all of them when no write threw.
\<close>

theorem FileOutputSink_appends:
  assumes "FileOutputSink_new open_append path = Some sink" and "open_append path = Some existing"
    and "write_blocks (FileOutputSink_write device) blocks sink = (ok, sink')"
  shows "\<exists>out. fs_file sink' = existing @ out \<and> out = take (length out) (concat blocks)
     \<and> (ok \<longrightarrow> out = concat blocks)"
proof -
  have old: "fs_file sink = existing"
    using assms(1,2) by (auto simp: FileOutputSink_new_def)
  obtain out where out: "fs_file sink' = existing @ out" "out = take (length out) (concat blocks)"
    using file_sink.write_blocks_prefix [OF assms(3)] old by auto
  moreover have "out = concat blocks" if ok
    using file_sink.write_blocks_verbatim [of device blocks sink sink'] assms(3) that out(1) old by simp
  ultimately show ?thesis by blast
qed

theorem FileOutputSink_appends_witness:
  "\<exists>ok sink'. write_blocks (FileOutputSink_write (\<lambda>file _. 5 - length file)) [''ab'', ''cd'']
       \<lparr>fs_file = ''xy'', fs_good = True\<rparr> = (ok, sink') \<and> \<not> ok \<and> take 2 (fs_file sink') = ''xy''
     \<and> drop 2 (fs_file sink') = take 3 ''abcd''"
proof -
  let ?s = "\<lparr>fs_file = ''xy'', fs_good = True\<rparr>"
  have run: "write_blocks (FileOutputSink_write (\<lambda>file _. 5 - length file)) [''ab'', ''cd''] ?s
      = (False, \<lparr>fs_file = ''xyabc'', fs_good = False\<rparr>)"
    by (simp add: FileOutputSink_write_def stream_put_def Let_def)
  have new: "FileOutputSink_new (\<lambda>_. Some ''xy'') ''out'' = Some ?s"
    by (simp add: FileOutputSink_new_def)
  from FileOutputSink_appends [OF new refl run] run show ?thesis
    by auto
qed

end
