(* ===== verification/Blocking_Queue.thy ===== *)
theory Blocking_Queue
  imports Agg_Prelude
begin

text \<open>
  The contract between the stages of the pipeline and the queues between them. A queue holds
  a list of items up to a capacity and can be closed for good. An operation that would block
  in a state is \<open>None\<close> there. The laws are one step each; what follows for every
  interleaving of the calls of any number of threads is proved once here.
\<close>

section \<open>Sequences of completed calls\<close>

datatype 'a queue_op = Push 'a | Pop | Shutdown

text \<open>
  What a call returns: whether a push was accepted, the item of a pop, or that the queue is
  closed and empty. A call that blocks does not complete and leaves no trace.
\<close>

datatype 'a queue_event = Accepted 'a | Rejected 'a | Popped 'a | Drained | Closed

fun run_queue ::
    "('a \<Rightarrow> 'q \<Rightarrow> (bool \<times> 'q) option) \<Rightarrow> ('q \<Rightarrow> ('a option \<times> 'q) option) \<Rightarrow> ('q \<Rightarrow> 'q)
     \<Rightarrow> 'a queue_op list \<Rightarrow> 'q \<Rightarrow> 'a queue_event list \<times> 'q" where
  "run_queue push pop shutdown [] q = ([], q)"
| "run_queue push pop shutdown (Push x # ops) q =
     (case push x q of
        None \<Rightarrow> run_queue push pop shutdown ops q
      | Some (ok, q') \<Rightarrow>
          (case run_queue push pop shutdown ops q' of
             (es, q'') \<Rightarrow> ((if ok then Accepted x else Rejected x) # es, q'')))"
| "run_queue push pop shutdown (Pop # ops) q =
     (case pop q of
        None \<Rightarrow> run_queue push pop shutdown ops q
      | Some (r, q') \<Rightarrow>
          (case run_queue push pop shutdown ops q' of
             (es, q'') \<Rightarrow> ((case r of None \<Rightarrow> Drained | Some x \<Rightarrow> Popped x) # es, q'')))"
| "run_queue push pop shutdown (Shutdown # ops) q =
     (case run_queue push pop shutdown ops (shutdown q) of (es, q'') \<Rightarrow> (Closed # es, q''))"

definition accepted_items :: "'a queue_event list \<Rightarrow> 'a list" where
  "accepted_items es = concat (map (\<lambda>e. case e of Accepted x \<Rightarrow> [x] | _ \<Rightarrow> []) es)"

definition popped_items :: "'a queue_event list \<Rightarrow> 'a list" where
  "popped_items es = concat (map (\<lambda>e. case e of Popped x \<Rightarrow> [x] | _ \<Rightarrow> []) es)"

lemma item_simps [simp]:
  "accepted_items [] = []" "popped_items [] = []"
  "accepted_items (Accepted x # es) = x # accepted_items es"
  "accepted_items (Rejected x # es) = accepted_items es"
  "accepted_items (Popped x # es) = accepted_items es"
  "accepted_items (Drained # es) = accepted_items es"
  "accepted_items (Closed # es) = accepted_items es"
  "popped_items (Accepted x # es) = popped_items es"
  "popped_items (Rejected x # es) = popped_items es"
  "popped_items (Popped x # es) = x # popped_items es"
  "popped_items (Drained # es) = popped_items es"
  "popped_items (Closed # es) = popped_items es"
  by (simp_all add: accepted_items_def popped_items_def)

section \<open>The interface\<close>

locale blocking_queue =
  fixes contents :: "'q \<Rightarrow> 'a list" and room :: "'q \<Rightarrow> nat" and closed :: "'q \<Rightarrow> bool"
    and push :: "'a \<Rightarrow> 'q \<Rightarrow> (bool \<times> 'q) option"
    and pop :: "'q \<Rightarrow> ('a option \<times> 'q) option"
    and shutdown :: "'q \<Rightarrow> 'q"
  assumes push_blocks: "push x q = None \<longleftrightarrow> \<not> closed q \<and> room q \<le> length (contents q)"
    and push_ok: "push x q = Some (b, q') \<Longrightarrow>
          (b \<longleftrightarrow> \<not> closed q) \<and> contents q' = (if b then contents q @ [x] else contents q)
          \<and> room q' = room q \<and> closed q' = closed q"
    and pop_blocks: "pop q = None \<longleftrightarrow> \<not> closed q \<and> contents q = []"
    and pop_ok: "pop q = Some (r, q') \<Longrightarrow>
          (case r of None \<Rightarrow> contents q = [] \<and> q' = q | Some x \<Rightarrow> contents q = x # contents q')
          \<and> room q' = room q \<and> closed q' = closed q"
    and shutdown_ok: "contents (shutdown q) = contents q" "room (shutdown q) = room q"
          "closed (shutdown q)"
begin

lemma run_fifo:
  "run_queue push pop shutdown ops q = (es, q') \<Longrightarrow>
     contents q @ accepted_items es = popped_items es @ contents q'"
proof (induction ops arbitrary: q es q')
  case (Cons op ops)
  show ?case
  proof (cases op)
    case (Push x)
    show ?thesis
    proof (cases "push x q")
      case (Some r)
      obtain b q1 where r: "r = (b, q1)" by (cases r)
      obtain es1 where run: "run_queue push pop shutdown ops q1 = (es1, q')"
        "es = (if b then Accepted x else Rejected x) # es1"
        using Cons.prems Push Some r by (auto split: prod.splits)
      from Cons.IH [OF run(1)] push_ok [OF Some [unfolded r]] run(2) show ?thesis
        by (cases b) auto
    qed (use Cons Push in simp)
  next
    case Pop
    show ?thesis
    proof (cases "pop q")
      case (Some p)
      obtain r q1 where p: "p = (r, q1)" by (cases p)
      obtain es1 where run: "run_queue push pop shutdown ops q1 = (es1, q')"
        "es = (case r of None \<Rightarrow> Drained | Some x \<Rightarrow> Popped x) # es1"
        using Cons.prems Pop Some p by (auto split: prod.splits)
      from Cons.IH [OF run(1)] pop_ok [OF Some [unfolded p]] run(2) show ?thesis
        by (cases r) auto
    qed (use Cons Pop in simp)
  next
    case Shutdown
    obtain es1 where run: "run_queue push pop shutdown ops (shutdown q) = (es1, q')" "es = Closed # es1"
      using Cons.prems Shutdown by (auto split: prod.splits)
    from Cons.IH [OF run(1)] run(2) show ?thesis
      by (simp add: shutdown_ok)
  qed
qed simp

lemma run_bounded:
  "run_queue push pop shutdown ops q = (es, q') \<Longrightarrow> length (contents q) \<le> room q \<Longrightarrow>
     room q' = room q \<and> length (contents q') \<le> room q"
proof (induction ops arbitrary: q es q')
  case (Cons op ops)
  have step: "room q1 = room q \<Longrightarrow> length (contents q1) \<le> room q \<Longrightarrow>
      run_queue push pop shutdown ops q1 = (es1, q') \<Longrightarrow> ?case" for q1 es1
    using Cons.IH [of q1 es1 q'] by simp
  show ?case
  proof (cases op)
    case (Push x)
    show ?thesis
    proof (cases "push x q")
      case (Some r)
      obtain b q1 where r: "r = (b, q1)" by (cases r)
      have "\<not> (\<not> closed q \<and> room q \<le> length (contents q))"
        using Some by (simp flip: push_blocks [of x])
      with push_ok [OF Some [unfolded r]] Cons.prems(2)
      have "room q1 = room q" "length (contents q1) \<le> room q" by auto
      moreover obtain es1 where "run_queue push pop shutdown ops q1 = (es1, q')"
        using Cons.prems(1) Push Some r by (auto split: prod.splits)
      ultimately show ?thesis by (rule step)
    qed (use Cons Push in simp)
  next
    case Pop
    show ?thesis
    proof (cases "pop q")
      case (Some p)
      obtain r q1 where p: "p = (r, q1)" by (cases p)
      have "room q1 = room q" "length (contents q1) \<le> room q"
        using pop_ok [OF Some [unfolded p]] Cons.prems(2) by (auto split: option.splits)
      moreover obtain es1 where "run_queue push pop shutdown ops q1 = (es1, q')"
        using Cons.prems(1) Pop Some p by (auto split: prod.splits)
      ultimately show ?thesis by (rule step)
    qed (use Cons Pop in simp)
  next
    case Shutdown
    then obtain es1 where "run_queue push pop shutdown ops (shutdown q) = (es1, q')"
      using Cons.prems by (auto split: prod.splits)
    from step [OF _ _ this] Cons.prems(2) show ?thesis by (simp add: shutdown_ok)
  qed
qed simp

text \<open>A closed queue accepts nothing and never blocks; popping as often as it has items drains it.\<close>

lemma closed_calls:
  assumes "closed q"
  shows "\<exists>q'. push x q = Some (False, q')" and "\<exists>r q'. pop q = Some (r, q') \<and> closed q'"
proof -
  obtain b q' where "push x q = Some (b, q')"
    using assms push_blocks [of x q] by fastforce
  with push_ok [OF this] assms show "\<exists>q'. push x q = Some (False, q')" by auto
  obtain r q1 where "pop q = Some (r, q1)"
    using assms pop_blocks [of q] by fastforce
  with pop_ok [OF this] assms show "\<exists>r q'. pop q = Some (r, q') \<and> closed q'" by auto
qed

lemma drain:
  assumes "closed q" and "n = length (contents q)"
  shows "\<exists>q'. run_queue push pop shutdown (replicate n Pop @ [Pop]) q
            = (map Popped (contents q) @ [Drained], q') \<and> contents q' = []"
  using assms
proof (induction n arbitrary: q)
  case 0
  then obtain r q1 where "pop q = Some (r, q1)" "closed q1"
    using closed_calls(2) by blast
  with 0 pop_ok [OF this(1)] show ?case
    by (cases r) auto
next
  case (Suc n)
  then obtain r q1 where pop: "pop q = Some (r, q1)" "closed q1"
    using closed_calls(2) by blast
  obtain x where x: "r = Some x" "contents q = x # contents q1"
    using Suc.prems pop_ok [OF pop(1)] by (cases r) auto
  have "n = length (contents q1)"
    using Suc.prems(2) x(2) by simp
  from Suc.IH [OF pop(2) this] pop(1) x show ?case by auto
qed

end

end
