(* ===== verification/BoundedQueue.thy ===== *)
theory BoundedQueue
  imports Blocking_Queue
begin

text \<open>
  \<^verbatim>\<open>app/include/agg/runtime/BoundedQueue.hpp\<close>, at two levels. The critical sections of
  \<^verbatim>\<open>push\<close>, \<^verbatim>\<open>pop\<close> and \<^verbatim>\<open>shutdown\<close> are functions on the guarded state, \<open>None\<close> where the
  wait condition does not hold. The monitor adds what the critical sections leave open: the
  threads asleep in \<^verbatim>\<open>wait\<close>, the ones woken but not yet holding the mutex, and the
  notifications that a call still has to send after it has released the mutex.
\<close>

section \<open>Critical sections\<close>

record 'a BoundedQueue =
  bq_items :: "'a list"
  bq_capacity :: nat
  bq_shutdown :: bool

definition BoundedQueue_new :: "nat \<Rightarrow> 'a BoundedQueue" where
  "BoundedQueue_new capacity = \<lparr>bq_items = [], bq_capacity = capacity, bq_shutdown = False\<rparr>"

definition push_ready :: "'a BoundedQueue \<Rightarrow> bool" where
  "push_ready q \<longleftrightarrow> bq_shutdown q \<or> length (bq_items q) < bq_capacity q"

definition bq_push :: "'a \<Rightarrow> 'a BoundedQueue \<Rightarrow> (bool \<times> 'a BoundedQueue) option" where
  "bq_push item q =
     (if \<not> push_ready q then None
      else if bq_shutdown q then Some (False, q)
      else Some (True, q\<lparr>bq_items := bq_items q @ [item]\<rparr>))"

definition pop_ready :: "'a BoundedQueue \<Rightarrow> bool" where
  "pop_ready q \<longleftrightarrow> bq_shutdown q \<or> bq_items q \<noteq> []"

definition bq_pop :: "'a BoundedQueue \<Rightarrow> ('a option \<times> 'a BoundedQueue) option" where
  "bq_pop q =
     (if \<not> pop_ready q then None
      else if bq_items q = [] then Some (None, q)
      else Some (Some (hd (bq_items q)), q\<lparr>bq_items := tl (bq_items q)\<rparr>))"

definition bq_set_shutdown :: "'a BoundedQueue \<Rightarrow> 'a BoundedQueue" where
  "bq_set_shutdown q = q\<lparr>bq_shutdown := True\<rparr>"

definition bq_size :: "'a BoundedQueue \<Rightarrow> nat" where
  "bq_size q = length (bq_items q)"

lemmas bq_defs = bq_push_def bq_pop_def push_ready_def pop_ready_def bq_set_shutdown_def

interpretation bq: blocking_queue bq_items bq_capacity bq_shutdown bq_push bq_pop bq_set_shutdown
  by unfold_locales (auto simp: bq_defs split: if_splits option.splits)

section \<open>The monitor\<close>

text \<open>
  Producers asleep on \<^verbatim>\<open>not_full_\<close> and consumers asleep on \<^verbatim>\<open>not_empty_\<close> are told apart
  only by what they wait to do, so a list of the producers' items and a number of consumers is
  enough; a woken thread still has to take the mutex and test its condition again. The
  counters are the calls between the release of the mutex and their notification.
\<close>

record 'a monitor =
  m_queue :: "'a BoundedQueue"
  m_sleeping_push :: "'a list"
  m_woken_push :: "'a list"
  m_sleeping_pop :: nat
  m_woken_pop :: nat
  m_notify_not_empty :: nat
  m_notify_not_full :: nat
  m_notify_all_not_full :: nat
  m_notify_all_not_empty :: nat

definition monitor_new :: "nat \<Rightarrow> 'a monitor" where
  "monitor_new capacity = \<lparr>m_queue = BoundedQueue_new capacity, m_sleeping_push = [],
     m_woken_push = [], m_sleeping_pop = 0, m_woken_pop = 0, m_notify_not_empty = 0,
     m_notify_not_full = 0, m_notify_all_not_full = 0, m_notify_all_not_empty = 0\<rparr>"

text \<open>
  The critical section a producer runs when it gets the mutex, first or after a wake-up:
  sleep, fail, or push and owe a notification; and the same for a consumer.
\<close>

definition enter_push :: "'a \<Rightarrow> 'a monitor \<Rightarrow> 'a monitor" where
  "enter_push item m =
     (case bq_push item (m_queue m) of
        None \<Rightarrow> m\<lparr>m_sleeping_push := m_sleeping_push m @ [item]\<rparr>
      | Some (False, q) \<Rightarrow> m\<lparr>m_queue := q\<rparr>
      | Some (True, q) \<Rightarrow> m\<lparr>m_queue := q, m_notify_not_empty := m_notify_not_empty m + 1\<rparr>)"

definition enter_pop :: "'a monitor \<Rightarrow> 'a monitor" where
  "enter_pop m =
     (case bq_pop (m_queue m) of
        None \<Rightarrow> m\<lparr>m_sleeping_pop := m_sleeping_pop m + 1\<rparr>
      | Some (None, q) \<Rightarrow> m\<lparr>m_queue := q\<rparr>
      | Some (Some item, q) \<Rightarrow> m\<lparr>m_queue := q, m_notify_not_full := m_notify_not_full m + 1\<rparr>)"

text \<open>
  One step of some thread. A wake-up of a sleeping thread is by \<^verbatim>\<open>notify_one\<close>, by
  \<^verbatim>\<open>notify_all\<close>, or spurious.
\<close>

inductive monitor_step :: "'a monitor \<Rightarrow> 'a monitor \<Rightarrow> bool" where
  call_push: "monitor_step m (enter_push item m)"
| call_pop: "monitor_step m (enter_pop m)"
| retry_push: "m_woken_push m = us @ item # vs \<Longrightarrow>
     monitor_step m (enter_push item (m\<lparr>m_woken_push := us @ vs\<rparr>))"
| retry_pop: "m_woken_pop m = Suc n \<Longrightarrow> monitor_step m (enter_pop (m\<lparr>m_woken_pop := n\<rparr>))"
| notify_not_empty: "m_notify_not_empty m = Suc k \<Longrightarrow> m_sleeping_pop m = Suc n \<Longrightarrow>
     monitor_step m (m\<lparr>m_notify_not_empty := k, m_sleeping_pop := n, m_woken_pop := m_woken_pop m + 1\<rparr>)"
| notify_not_empty_none: "m_notify_not_empty m = Suc k \<Longrightarrow> m_sleeping_pop m = 0 \<Longrightarrow>
     monitor_step m (m\<lparr>m_notify_not_empty := k\<rparr>)"
| notify_not_full: "m_notify_not_full m = Suc k \<Longrightarrow> m_sleeping_push m = us @ item # vs \<Longrightarrow>
     monitor_step m (m\<lparr>m_notify_not_full := k, m_sleeping_push := us @ vs,
       m_woken_push := m_woken_push m @ [item]\<rparr>)"
| notify_not_full_none: "m_notify_not_full m = Suc k \<Longrightarrow> m_sleeping_push m = [] \<Longrightarrow>
     monitor_step m (m\<lparr>m_notify_not_full := k\<rparr>)"
| shutdown: "monitor_step m (m\<lparr>m_queue := bq_set_shutdown (m_queue m),
       m_notify_all_not_full := m_notify_all_not_full m + 1\<rparr>)"
| notify_all_not_full: "m_notify_all_not_full m = Suc k \<Longrightarrow>
     monitor_step m (m\<lparr>m_notify_all_not_full := k, m_sleeping_push := [],
       m_woken_push := m_woken_push m @ m_sleeping_push m,
       m_notify_all_not_empty := m_notify_all_not_empty m + 1\<rparr>)"
| notify_all_not_empty: "m_notify_all_not_empty m = Suc k \<Longrightarrow>
     monitor_step m (m\<lparr>m_notify_all_not_empty := k, m_sleeping_pop := 0,
       m_woken_pop := m_woken_pop m + m_sleeping_pop m\<rparr>)"
| spurious_push: "m_sleeping_push m = us @ item # vs \<Longrightarrow>
     monitor_step m (m\<lparr>m_sleeping_push := us @ vs, m_woken_push := m_woken_push m @ [item]\<rparr>)"
| spurious_pop: "m_sleeping_pop m = Suc n \<Longrightarrow>
     monitor_step m (m\<lparr>m_sleeping_pop := n, m_woken_pop := m_woken_pop m + 1\<rparr>)"

text \<open>
  The invariant: every item a sleeping consumer could take is covered by a consumer already
  woken or a notification still to come; every free slot a sleeping producer could use likewise;
  and nobody sleeps on a closed queue unless the waking notification is still to come.
\<close>

definition monitor_inv :: "'a monitor \<Rightarrow> bool" where
  "monitor_inv m \<longleftrightarrow>
     length (bq_items (m_queue m)) \<le> bq_capacity (m_queue m)
     \<and> (m_sleeping_pop m > 0 \<and> \<not> bq_shutdown (m_queue m) \<longrightarrow>
          length (bq_items (m_queue m)) \<le> m_woken_pop m + m_notify_not_empty m)
     \<and> (m_sleeping_push m \<noteq> [] \<and> \<not> bq_shutdown (m_queue m) \<longrightarrow>
          bq_capacity (m_queue m) - length (bq_items (m_queue m))
            \<le> length (m_woken_push m) + m_notify_not_full m)
     \<and> (bq_shutdown (m_queue m) \<longrightarrow>
          (m_sleeping_push m \<noteq> [] \<longrightarrow> m_notify_all_not_full m > 0)
          \<and> (m_sleeping_pop m > 0 \<longrightarrow> m_notify_all_not_full m > 0 \<or> m_notify_all_not_empty m > 0))"

lemma monitor_inv_new: "monitor_inv (monitor_new capacity)"
  by (simp add: monitor_inv_def monitor_new_def BoundedQueue_new_def)

lemma enter_push_inv:
  assumes "monitor_inv (m\<lparr>m_woken_push := us @ item # vs\<rparr>) \<or> (us = m_woken_push m \<and> vs = [] \<and> monitor_inv m)"
  shows "monitor_inv (enter_push item (m\<lparr>m_woken_push := us @ vs\<rparr>))"
  using assms
  by (auto simp: monitor_inv_def enter_push_def bq_defs split: if_splits bool.splits)

lemma enter_pop_inv:
  assumes "monitor_inv (m\<lparr>m_woken_pop := Suc n\<rparr>) \<or> (n = m_woken_pop m \<and> monitor_inv m)"
  shows "monitor_inv (enter_pop (m\<lparr>m_woken_pop := n\<rparr>))"
  using assms
  by (auto simp: monitor_inv_def enter_pop_def bq_defs split: if_splits option.splits)

lemma monitor_step_inv:
  assumes "monitor_step m m'" and "monitor_inv m"
  shows "monitor_inv m'"
  using assms
proof (induction rule: monitor_step.induct)
  case (call_push m item)
  then show ?case using enter_push_inv [where m = m and us = "m_woken_push m" and item = item and vs = "[]"] by simp
next
  case (call_pop m)
  then show ?case using enter_pop_inv [where m = m and n = "m_woken_pop m"] by simp
next
  case (retry_push m us item vs)
  then have "m\<lparr>m_woken_push := us @ item # vs\<rparr> = m" by simp
  then have "monitor_inv (m\<lparr>m_woken_push := us @ item # vs\<rparr>)"
    using retry_push(2) by (simp only:)
  then show ?case by (intro enter_push_inv disjI1)
next
  case (retry_pop m n)
  then have "m\<lparr>m_woken_pop := Suc n\<rparr> = m" by simp
  then have "monitor_inv (m\<lparr>m_woken_pop := Suc n\<rparr>)"
    using retry_pop(2) by (simp only:)
  then show ?case by (intro enter_pop_inv disjI1)
qed (auto simp: monitor_inv_def bq_set_shutdown_def)

lemma monitor_reachable_inv: "monitor_step\<^sup>*\<^sup>* (monitor_new capacity) m \<Longrightarrow> monitor_inv m"
  by (induction rule: rtranclp_induct) (auto intro: monitor_inv_new monitor_step_inv)

definition quiescent :: "'a monitor \<Rightarrow> bool" where
  "quiescent m \<longleftrightarrow> m_woken_push m = [] \<and> m_woken_pop m = 0 \<and> m_notify_not_empty m = 0
     \<and> m_notify_not_full m = 0 \<and> m_notify_all_not_full m = 0 \<and> m_notify_all_not_empty m = 0"

section \<open>Properties\<close>

text \<open>
  C22: the queue is a bounded FIFO channel. For any interleaving of the calls of any number
  of threads on a fresh queue, the items accepted are the items popped, in the same order,
  followed by the items still queued; the queue never exceeds its capacity.
\<close>

theorem BoundedQueue_fifo:
  assumes "run_queue bq_push bq_pop bq_set_shutdown ops (BoundedQueue_new capacity) = (es, q)"
  shows "accepted_items es = popped_items es @ bq_items q \<and> length (bq_items q) \<le> capacity"
  using bq.run_fifo [OF assms] bq.run_bounded [OF assms] by (simp add: BoundedQueue_new_def)

text \<open>
  Shutdown drains. After \<^verbatim>\<open>shutdown\<close> every push returns false at once, and the next
  pops return exactly the items that were queued, in order, and then \<^verbatim>\<open>nullopt\<close>; none of
  them blocks.
\<close>

theorem BoundedQueue_shutdown_drains:
  "(\<exists>q'. bq_push x (bq_set_shutdown q) = Some (False, q'))
   \<and> (\<exists>q'. run_queue bq_push bq_pop bq_set_shutdown (replicate (bq_size q) Pop @ [Pop])
             (bq_set_shutdown q) = (map Popped (bq_items q) @ [Drained], q') \<and> bq_items q' = [])"
  using bq.closed_calls(1) [of "bq_set_shutdown q" x] bq.drain [of "bq_set_shutdown q" "bq_size q"]
  by (simp add: bq_size_def bq_set_shutdown_def)

text \<open>
  C14: no wake-up is lost. Whatever the interleaving of calls, wake-ups (spurious ones
  included) and late notifications, once no notification is outstanding and no woken thread is
  on its way to the mutex, a consumer sleeps only on an empty open queue and a producer only on
  a full open queue; so a single \<^verbatim>\<open>notify_one\<close> per call suffices, shutdown leaves nobody
  asleep, and producers and consumers of a queue with room never sleep at the same time.
\<close>

theorem BoundedQueue_no_lost_wakeup:
  assumes "monitor_step\<^sup>*\<^sup>* (monitor_new capacity) m" and "quiescent m"
  shows "(m_sleeping_pop m > 0 \<longrightarrow> bq_items (m_queue m) = [] \<and> \<not> bq_shutdown (m_queue m))
     \<and> (m_sleeping_push m \<noteq> [] \<longrightarrow>
          length (bq_items (m_queue m)) = bq_capacity (m_queue m) \<and> \<not> bq_shutdown (m_queue m))
     \<and> (bq_capacity (m_queue m) > 0 \<longrightarrow> m_sleeping_pop m = 0 \<or> m_sleeping_push m = [])"
  using monitor_reachable_inv [OF assms(1)] assms(2)
  by (auto simp: monitor_inv_def quiescent_def)

theorem BoundedQueue_fifo_witness:
  "popped_items (fst (run_queue bq_push bq_pop bq_set_shutdown
       [Push (1::nat), Push 2, Push 3, Pop, Push 4, Shutdown, Push 5, Pop] (BoundedQueue_new 2))) = [1, 2]
   \<and> accepted_items (fst (run_queue bq_push bq_pop bq_set_shutdown
       [Push (1::nat), Push 2, Push 3, Pop, Push 4, Shutdown, Push 5, Pop] (BoundedQueue_new 2))) = [1, 2, 4]"
  using BoundedQueue_fifo [of "[Push (1::nat), Push 2, Push 3, Pop, Push 4, Shutdown, Push 5, Pop]" 2]
  by (simp add: BoundedQueue_new_def bq_defs)

theorem BoundedQueue_no_lost_wakeup_witness:
  "\<exists>m :: nat monitor. monitor_step\<^sup>*\<^sup>* (monitor_new 1) m \<and> quiescent m \<and> m_sleeping_push m = [2]
     \<and> length (bq_items (m_queue m)) = bq_capacity (m_queue m)"
proof -
  let ?m1 = "enter_push 1 (monitor_new 1) :: nat monitor"
  let ?m2 = "enter_push 2 ?m1"
  let ?m3 = "?m2\<lparr>m_notify_not_empty := 0\<rparr>"
  have "monitor_step\<^sup>*\<^sup>* (monitor_new 1) ?m2"
    by (meson monitor_step.call_push r_into_rtranclp rtranclp.rtrancl_into_rtrancl)
  moreover have "monitor_step ?m2 ?m3"
    by (rule monitor_step.notify_not_empty_none)
      (simp_all add: enter_push_def monitor_new_def BoundedQueue_new_def bq_defs)
  ultimately have reach: "monitor_step\<^sup>*\<^sup>* (monitor_new 1) ?m3"
    by (rule rtranclp.rtrancl_into_rtrancl)
  have shape: "quiescent ?m3" "m_sleeping_push ?m3 = [2]"
    by (simp_all add: quiescent_def enter_push_def monitor_new_def BoundedQueue_new_def bq_defs)
  from BoundedQueue_no_lost_wakeup [OF reach shape(1)] reach shape show ?thesis
    by (metis list.distinct(1))
qed

end
