(* ===== verification/MarketDataPipeline.thy ===== *)
theory MarketDataPipeline
  imports BinanceTradeParser StatsSerializer OutputSink BoundedQueue
begin

text \<open>
  \<^verbatim>\<open>app/include/agg/runtime/MarketDataPipeline.hpp\<close> and
  \<^verbatim>\<open>app/src/runtime/MarketDataPipeline.cpp\<close>.

  The state has the members of the class and, for every thread, the point it has reached
  with the local variables it holds there. A step is what a thread does between two points at
  which another thread can interfere: one queue operation, one locked section of a shard, or
  the writing of a batch of windows, which only the writer thread or, after joining it, the
  stopping thread does. An exception that leaves a thread and a division by zero end the
  process (\<open>pl_terminated\<close>).

  Parameters: the JSON library, \<^verbatim>\<open>std::hash<std::string>\<close>, whose values are unspecified, and the
  sink's \<^verbatim>\<open>write\<close>. \<^verbatim>\<open>std::sort\<close> by symbol is \<^const>\<open>sort_key\<close>; it is applied to windows
  with distinct symbols, for which every sorting algorithm gives the same list.
\<close>

section \<open>State\<close>

record Shard =
  sh_queue :: "TradeEvent BoundedQueue"
  sh_aggregator :: MarketDataAggregator

datatype parser_state = ParserOff | ParserPop | ParserPush TradeEvent nat | ParserDone

datatype agg_state = AggPop | AggAdd TradeEvent | AggDone

datatype writer_state =
    WriterOff
  | WriterWait
  | WriterExtract u64 nat "WindowStats list"
  | WriterDone

datatype stop_state =
    StopIdle
  | StopJoinWriter
  | StopJoinParser
  | StopShutShards nat
  | StopJoinAggs nat
  | StopExtract nat "WindowStats list"
  | Stopped

record 's MarketDataPipeline =
  pl_window_ms :: u64
  pl_flush_interval_ms :: u64
  pl_raw_queue :: "string BoundedQueue"
  pl_shards :: "Shard list"
  pl_sink :: 's
  pl_parser :: parser_state
  pl_aggs :: "agg_state list"
  pl_writer :: writer_state
  pl_stopper :: stop_state
  pl_stop_requested :: bool
  pl_terminated :: bool

definition Shard_new :: "u64 \<Rightarrow> nat \<Rightarrow> Shard" where
  "Shard_new window_ms queue_capacity =
     \<lparr>sh_queue = BoundedQueue_new queue_capacity, sh_aggregator = MarketDataAggregator_new window_ms\<rparr>"

definition MarketDataPipeline_new ::
    "u64 \<Rightarrow> u64 \<Rightarrow> nat \<Rightarrow> 's \<Rightarrow> nat \<Rightarrow> 's MarketDataPipeline" where
  "MarketDataPipeline_new window_ms flush_interval_ms queue_capacity sink aggregator_threads =
     (let shard_count = max aggregator_threads 1;
          per_shard_capacity = max (queue_capacity div shard_count) 1
      in \<lparr>pl_window_ms = window_ms, pl_flush_interval_ms = flush_interval_ms,
          pl_raw_queue = BoundedQueue_new queue_capacity,
          pl_shards = replicate shard_count (Shard_new window_ms per_shard_capacity),
          pl_sink = sink, pl_parser = ParserOff, pl_aggs = [], pl_writer = WriterOff,
          pl_stopper = StopIdle, pl_stop_requested = False, pl_terminated = False\<rparr>)"

text \<open>
  The constructor with its exception: \<^verbatim>\<open>shards_.reserve\<close> throws \<^verbatim>\<open>std::length_error\<close>, the value \<open>None\<close>, for
  more shards than \<open>max_shards\<close>, the \<^verbatim>\<open>max_size\<close> of the vector, which the library implementation fixes. Once it
  has returned, the object is the one above.
\<close>

definition MarketDataPipeline_construct ::
    "nat \<Rightarrow> u64 \<Rightarrow> u64 \<Rightarrow> nat \<Rightarrow> 's \<Rightarrow> nat \<Rightarrow> 's MarketDataPipeline option" where
  "MarketDataPipeline_construct max_shards window_ms flush_interval_ms queue_capacity sink aggregator_threads =
     (if max_shards < max aggregator_threads 1 then None
      else Some (MarketDataPipeline_new window_ms flush_interval_ms queue_capacity sink aggregator_threads))"

section \<open>Writing windows\<close>

definition add_to_snapshots :: "(u64, StatsSnapshot) omap \<Rightarrow> WindowStats \<Rightarrow> (u64, StatsSnapshot) omap" where
  "add_to_snapshots snapshots_by_window window =
     (let snapshot = (case map_of snapshots_by_window (ws_window_start_ms window) of
                        None \<Rightarrow> StatsSnapshot_default | Some s \<Rightarrow> s);
          snapshot = snapshot\<lparr>snap_window_start_ms := ws_window_start_ms window,
                              snap_windows := snap_windows snapshot @ [window]\<rparr>
      in omap_put (ws_window_start_ms window) snapshot snapshots_by_window)"

fun write_snapshots ::
    "(string \<Rightarrow> 's \<Rightarrow> bool \<times> 's) \<Rightarrow> (u64, StatsSnapshot) omap \<Rightarrow> 's \<Rightarrow> bool \<times> 's" where
  "write_snapshots put [] sink = (True, sink)"
| "write_snapshots put ((window_start_ms, snapshot) # rest) sink =
     (case serialize (snapshot\<lparr>snap_windows := sort_key ws_symbol (snap_windows snapshot)\<rparr>) of
        None \<Rightarrow> (False, sink)
      | Some t \<Rightarrow>
          if t = [] then write_snapshots put rest sink
          else (case put t sink of
                  (ok, sink') \<Rightarrow> if ok then write_snapshots put rest sink' else (False, sink')))"

definition write_windows ::
    "(string \<Rightarrow> 's \<Rightarrow> bool \<times> 's) \<Rightarrow> WindowStats list \<Rightarrow> 's \<Rightarrow> bool \<times> 's" where
  "write_windows put windows sink =
     (if windows = [] then (True, sink)
      else write_snapshots put (foldl add_to_snapshots [] windows) sink)"

section \<open>Flushing\<close>

text \<open>
  The two flushes as the functions they are in the source, without interference: one
  extraction per shard, in shard order, then the writing. \<open>drain_shards c\<close> is the loop over
  the shards, with \<open>c\<close> as in \<^const>\<open>drain_windows\<close>.
\<close>

fun drain_shards :: "u64 option \<Rightarrow> Shard list \<Rightarrow> WindowStats list \<times> Shard list" where
  "drain_shards c [] = ([], [])"
| "drain_shards c (shard # shards) =
     (case drain_windows c (sh_aggregator shard) of (shard_windows, a) \<Rightarrow>
      case drain_shards c shards of (windows, shards') \<Rightarrow>
        (shard_windows @ windows, shard\<lparr>sh_aggregator := a\<rparr> # shards'))"

definition flush_completed_windows ::
    "(string \<Rightarrow> 's \<Rightarrow> bool \<times> 's) \<Rightarrow> u64 \<Rightarrow> 's MarketDataPipeline \<Rightarrow> (bool \<times> 's MarketDataPipeline) option" where
  "flush_completed_windows put now_ms p =
     (case window_start (pl_window_ms p) now_ms of
        None \<Rightarrow> None
      | Some current_window_start_ms \<Rightarrow>
          (case drain_shards (Some current_window_start_ms) (pl_shards p) of (windows, shards) \<Rightarrow>
           case write_windows put windows (pl_sink p) of (ok, sink) \<Rightarrow>
             Some (ok, p\<lparr>pl_shards := shards, pl_sink := sink\<rparr>)))"

definition flush_remaining_windows ::
    "(string \<Rightarrow> 's \<Rightarrow> bool \<times> 's) \<Rightarrow> 's MarketDataPipeline \<Rightarrow> bool \<times> 's MarketDataPipeline" where
  "flush_remaining_windows put p =
     (case drain_shards None (pl_shards p) of (windows, shards) \<Rightarrow>
      case write_windows put windows (pl_sink p) of (ok, sink) \<Rightarrow>
        (ok, p\<lparr>pl_shards := shards, pl_sink := sink\<rparr>))"

section \<open>The stages\<close>

definition submit_raw_message ::
    "string \<Rightarrow> 's MarketDataPipeline \<Rightarrow> (bool \<times> 's MarketDataPipeline) option" where
  "submit_raw_message raw_message p =
     (case bq_push raw_message (pl_raw_queue p) of
        None \<Rightarrow> None
      | Some (ok, q) \<Rightarrow> Some (ok, p\<lparr>pl_raw_queue := q\<rparr>))"

definition shard_index_for_symbol :: "(string \<Rightarrow> nat) \<Rightarrow> 's MarketDataPipeline \<Rightarrow> string \<Rightarrow> nat" where
  "shard_index_for_symbol hash p symbol = hash symbol mod length (pl_shards p)"

definition set_shard_queue ::
    "nat \<Rightarrow> TradeEvent BoundedQueue \<Rightarrow> 's MarketDataPipeline \<Rightarrow> 's MarketDataPipeline" where
  "set_shard_queue i q p = p\<lparr>pl_shards := (pl_shards p)[i := (pl_shards p ! i)\<lparr>sh_queue := q\<rparr>]\<rparr>"

definition set_shard_aggregator ::
    "nat \<Rightarrow> MarketDataAggregator \<Rightarrow> 's MarketDataPipeline \<Rightarrow> 's MarketDataPipeline" where
  "set_shard_aggregator i a p =
     p\<lparr>pl_shards := (pl_shards p)[i := (pl_shards p ! i)\<lparr>sh_aggregator := a\<rparr>]\<rparr>"

definition start :: "'s MarketDataPipeline \<Rightarrow> 's MarketDataPipeline option" where
  "start p =
     (if pl_parser p = ParserOff \<and> pl_stopper p = StopIdle
      then Some (p\<lparr>pl_parser := ParserPop, pl_aggs := replicate (length (pl_shards p)) AggPop,
                   pl_writer := WriterWait\<rparr>)
      else None)"

definition run_parser_stage ::
    "'j json_lib \<Rightarrow> (string \<Rightarrow> nat) \<Rightarrow> 's MarketDataPipeline \<Rightarrow> 's MarketDataPipeline option" where
  "run_parser_stage J hash p =
     (case pl_parser p of
        ParserPop \<Rightarrow>
          (case bq_pop (pl_raw_queue p) of
             None \<Rightarrow> None
           | Some (None, q) \<Rightarrow> Some (p\<lparr>pl_raw_queue := q, pl_parser := ParserDone\<rparr>)
           | Some (Some raw_message, q) \<Rightarrow>
               (case BinanceTradeParser_parse J raw_message of
                  Inl _ \<Rightarrow> Some (p\<lparr>pl_raw_queue := q, pl_terminated := True\<rparr>)
                | Inr None \<Rightarrow> Some (p\<lparr>pl_raw_queue := q\<rparr>)
                | Inr (Some trade) \<Rightarrow>
                    Some (p\<lparr>pl_raw_queue := q, pl_parser :=
                      ParserPush trade (shard_index_for_symbol hash p (te_symbol trade))\<rparr>)))
      | ParserPush trade shard_index \<Rightarrow>
          (case bq_push trade (sh_queue (pl_shards p ! shard_index)) of
             None \<Rightarrow> None
           | Some (_, q) \<Rightarrow> Some ((set_shard_queue shard_index q p)\<lparr>pl_parser := ParserPop\<rparr>))
      | _ \<Rightarrow> None)"

definition run_aggregation_stage :: "nat \<Rightarrow> 's MarketDataPipeline \<Rightarrow> 's MarketDataPipeline option" where
  "run_aggregation_stage i p =
     (if length (pl_aggs p) \<le> i then None
      else
        (case pl_aggs p ! i of
           AggPop \<Rightarrow>
             (case bq_pop (sh_queue (pl_shards p ! i)) of
                None \<Rightarrow> None
              | Some (None, q) \<Rightarrow>
                  Some ((set_shard_queue i q p)\<lparr>pl_aggs := (pl_aggs p)[i := AggDone]\<rparr>)
              | Some (Some trade, q) \<Rightarrow>
                  Some ((set_shard_queue i q p)\<lparr>pl_aggs := (pl_aggs p)[i := AggAdd trade]\<rparr>))
         | AggAdd trade \<Rightarrow>
             (case add_trade (sh_aggregator (pl_shards p ! i)) trade of
                None \<Rightarrow> Some (p\<lparr>pl_terminated := True\<rparr>)
              | Some a \<Rightarrow>
                  Some ((set_shard_aggregator i a p)\<lparr>pl_aggs := (pl_aggs p)[i := AggPop]\<rparr>))
         | AggDone \<Rightarrow> None))"

text \<open>
  What a step shows: an accepted or rejected message, a trade added to the aggregator of a
  shard, an extraction from it (\<open>None\<close> for \<^verbatim>\<open>extract_all_windows\<close>), a batch of windows handed to
  \<^verbatim>\<open>write_windows\<close>, or nothing.
\<close>

datatype pipeline_event =
    Submitted string bool
  | Added nat TradeEvent
  | Extracted nat "u64 option"
  | Flushed "WindowStats list"
  | Internal

definition aggregation_event :: "nat \<Rightarrow> 's MarketDataPipeline \<Rightarrow> pipeline_event" where
  "aggregation_event i p = (case pl_aggs p ! i of AggAdd trade \<Rightarrow> Added i trade | _ \<Rightarrow> Internal)"

text \<open>
  The writer thread: the timed wait (\<open>now_ms\<close> is the system clock when it times out), the
  locked extraction from one shard after the other, and the writing.
\<close>

definition run_writer_stage ::
    "(string \<Rightarrow> 's \<Rightarrow> bool \<times> 's) \<Rightarrow> u64 \<Rightarrow> 's MarketDataPipeline
     \<Rightarrow> (pipeline_event \<times> 's MarketDataPipeline) option" where
  "run_writer_stage put now_ms p =
     (case pl_writer p of
        WriterWait \<Rightarrow>
          if pl_stop_requested p then Some (Internal, p\<lparr>pl_writer := WriterDone\<rparr>)
          else
            (case window_start (pl_window_ms p) now_ms of
               None \<Rightarrow> Some (Internal, p\<lparr>pl_terminated := True\<rparr>)
             | Some current_window_start_ms \<Rightarrow>
                 Some (Internal, p\<lparr>pl_writer := WriterExtract current_window_start_ms 0 []\<rparr>))
      | WriterExtract current_window_start_ms i windows \<Rightarrow>
          if i < length (pl_shards p) then
            (case extract_completed_windows current_window_start_ms (sh_aggregator (pl_shards p ! i)) of
               (shard_windows, a) \<Rightarrow>
                 Some (Extracted i (Some current_window_start_ms), (set_shard_aggregator i a p)
                   \<lparr>pl_writer := WriterExtract current_window_start_ms (Suc i) (windows @ shard_windows)\<rparr>))
          else
            (case write_windows put windows (pl_sink p) of
               (ok, sink) \<Rightarrow>
                 Some (Flushed windows,
                   p\<lparr>pl_sink := sink, pl_writer := WriterWait, pl_terminated := \<not> ok\<rparr>))
      | _ \<Rightarrow> None)"

text \<open>
  The thread that calls \<^verbatim>\<open>stop\<close>, step by step; a join is a step that is enabled when the
  joined thread has finished or was never started. A later call starts over.
\<close>

definition stop ::
    "(string \<Rightarrow> 's \<Rightarrow> bool \<times> 's) \<Rightarrow> 's MarketDataPipeline
     \<Rightarrow> (pipeline_event \<times> 's MarketDataPipeline) option" where
  "stop put p =
     (case pl_stopper p of
        StopIdle \<Rightarrow> Some (Internal, p\<lparr>pl_stop_requested := True, pl_stopper := StopJoinWriter\<rparr>)
      | StopJoinWriter \<Rightarrow>
          if pl_writer p = WriterOff \<or> pl_writer p = WriterDone
          then Some (Internal, p\<lparr>pl_raw_queue := bq_set_shutdown (pl_raw_queue p),
                                 pl_stopper := StopJoinParser\<rparr>)
          else None
      | StopJoinParser \<Rightarrow>
          if pl_parser p = ParserOff \<or> pl_parser p = ParserDone
          then Some (Internal, p\<lparr>pl_stopper := StopShutShards 0\<rparr>) else None
      | StopShutShards i \<Rightarrow>
          if i < length (pl_shards p)
          then Some (Internal, (set_shard_queue i (bq_set_shutdown (sh_queue (pl_shards p ! i))) p)
                 \<lparr>pl_stopper := StopShutShards (Suc i)\<rparr>)
          else Some (Internal, p\<lparr>pl_stopper := StopJoinAggs 0\<rparr>)
      | StopJoinAggs i \<Rightarrow>
          if i < length (pl_aggs p)
          then (if pl_aggs p ! i = AggDone
                then Some (Internal, p\<lparr>pl_stopper := StopJoinAggs (Suc i)\<rparr>) else None)
          else Some (Internal, p\<lparr>pl_stopper := StopExtract 0 []\<rparr>)
      | StopExtract i windows \<Rightarrow>
          if i < length (pl_shards p) then
            (case extract_all_windows (sh_aggregator (pl_shards p ! i)) of
               (shard_windows, a) \<Rightarrow>
                 Some (Extracted i None, (set_shard_aggregator i a p)
                   \<lparr>pl_stopper := StopExtract (Suc i) (windows @ shard_windows)\<rparr>))
          else
            (case write_windows put windows (pl_sink p) of
               (ok, sink) \<Rightarrow>
                 Some (Flushed windows,
                   p\<lparr>pl_sink := sink, pl_stopper := Stopped, pl_terminated := \<not> ok\<rparr>))
      | Stopped \<Rightarrow> Some (Internal, p\<lparr>pl_stop_requested := True, pl_stopper := StopJoinWriter\<rparr>))"

section \<open>Interleaving\<close>

datatype pipeline_action =
    Start
  | Submit string
  | ParserRuns
  | AggregatorRuns nat
  | WriterRuns u64
  | StopRuns

definition pipeline_step ::
    "'j json_lib \<Rightarrow> (string \<Rightarrow> nat) \<Rightarrow> (string \<Rightarrow> 's \<Rightarrow> bool \<times> 's) \<Rightarrow> pipeline_action
     \<Rightarrow> 's MarketDataPipeline \<Rightarrow> (pipeline_event \<times> 's MarketDataPipeline) option" where
  "pipeline_step J hash put act p =
     (if pl_terminated p then None
      else
        (case act of
           Start \<Rightarrow> map_option (Pair Internal) (start p)
         | Submit msg \<Rightarrow> map_option (\<lambda>(ok, p'). (Submitted msg ok, p')) (submit_raw_message msg p)
         | ParserRuns \<Rightarrow> map_option (Pair Internal) (run_parser_stage J hash p)
         | AggregatorRuns i \<Rightarrow> map_option (Pair (aggregation_event i p)) (run_aggregation_stage i p)
         | WriterRuns now_ms \<Rightarrow> run_writer_stage put now_ms p
         | StopRuns \<Rightarrow> stop put p))"

text \<open>The states that some interleaving of the threads reaches, with the events on the way.\<close>

inductive pipeline_run ::
    "'j json_lib \<Rightarrow> (string \<Rightarrow> nat) \<Rightarrow> (string \<Rightarrow> 's \<Rightarrow> bool \<times> 's) \<Rightarrow> 's MarketDataPipeline
     \<Rightarrow> pipeline_event list \<Rightarrow> 's MarketDataPipeline \<Rightarrow> bool"
  for J hash put p0 where
  run_start: "pipeline_run J hash put p0 [] p0"
| run_step: "pipeline_run J hash put p0 es p \<Longrightarrow> pipeline_step J hash put act p = Some (e, p') \<Longrightarrow>
     pipeline_run J hash put p0 (es @ [e]) p'"

text \<open>A schedule, executed: \<open>None\<close> when an action of it is not enabled.\<close>

fun run_actions ::
    "'j json_lib \<Rightarrow> (string \<Rightarrow> nat) \<Rightarrow> (string \<Rightarrow> 's \<Rightarrow> bool \<times> 's) \<Rightarrow> pipeline_action list
     \<Rightarrow> 's MarketDataPipeline \<Rightarrow> (pipeline_event list \<times> 's MarketDataPipeline) option" where
  "run_actions J hash put [] p = Some ([], p)"
| "run_actions J hash put (act # acts) p =
     (case pipeline_step J hash put act p of
        None \<Rightarrow> None
      | Some (e, p') \<Rightarrow> map_option (\<lambda>(es, p''). (e # es, p'')) (run_actions J hash put acts p'))"

lemma run_actions_run:
  assumes "run_actions J hash put acts p = Some (es, p')" and "pipeline_run J hash put p0 es0 p"
  shows "pipeline_run J hash put p0 (es0 @ es) p'"
  using assms
proof (induction acts arbitrary: p es0 es)
  case (Cons act acts)
  then obtain e p1 es1 where step: "pipeline_step J hash put act p = Some (e, p1)"
    "run_actions J hash put acts p1 = Some (es1, p')" "es = e # es1"
    by (auto split: option.splits)
  from Cons.IH [OF step(2) run_step [OF Cons.prems(2) step(1)]] step(3) show ?case by simp
qed simp

definition accepted_messages :: "pipeline_event list \<Rightarrow> string list" where
  "accepted_messages es = concat (map (\<lambda>e. case e of Submitted m ok \<Rightarrow> if ok then [m] else [] | _ \<Rightarrow> []) es)"

definition flushed_windows :: "pipeline_event list \<Rightarrow> WindowStats list" where
  "flushed_windows es = concat (map (\<lambda>e. case e of Flushed ws \<Rightarrow> ws | _ \<Rightarrow> []) es)"

section \<open>What a batch of windows writes\<close>

text \<open>
  The reference: the distinct window starts in ascending order, and for each of them one
  block with the windows that start there, ordered by symbol.
\<close>

definition snapshot_at :: "u64 \<Rightarrow> WindowStats list \<Rightarrow> StatsSnapshot" where
  "snapshot_at w ws = \<lparr>snap_window_start_ms = w, snap_windows = filter (\<lambda>x. ws_window_start_ms x = w) ws\<rparr>"

definition block :: "u64 \<Rightarrow> WindowStats list \<Rightarrow> string" where
  "block w ws = the (serialize \<lparr>snap_window_start_ms = w,
     snap_windows = sort_key ws_symbol (filter (\<lambda>x. ws_window_start_ms x = w) ws)\<rparr>)"

definition window_starts :: "WindowStats list \<Rightarrow> u64 list" where
  "window_starts ws = sorted_list_of_set (ws_window_start_ms ` set ws)"

definition blocks :: "WindowStats list \<Rightarrow> string list" where
  "blocks ws = map (\<lambda>w. block w ws) (window_starts ws)"

lemma snapshots_lookup:
  "omap_wf (foldl add_to_snapshots [] ws)
   \<and> map_of (foldl add_to_snapshots [] ws) w
       = (if filter (\<lambda>x. ws_window_start_ms x = w) ws = [] then None else Some (snapshot_at w ws))"
proof (induction ws arbitrary: w rule: rev_induct)
  case (snoc x ws)
  let ?m = "foldl add_to_snapshots [] ws"
  have wf: "omap_wf ?m"
    using snoc by blast
  have at: "map_of ?m v = (if filter (\<lambda>x. ws_window_start_ms x = v) ws = [] then None else Some (snapshot_at v ws))" for v
    using snoc by blast
  obtain snap where snap: "(case map_of ?m (ws_window_start_ms x) of
      None \<Rightarrow> StatsSnapshot_default | Some s \<Rightarrow> s) = snap" by blast
  then have "snap_windows snap = filter (\<lambda>y. ws_window_start_ms y = ws_window_start_ms x) ws"
    by (auto simp: at snapshot_at_def StatsSnapshot_default_def split: if_splits)
  then have step: "foldl add_to_snapshots [] (ws @ [x]) = omap_put (ws_window_start_ms x)
      (snapshot_at (ws_window_start_ms x) (ws @ [x])) ?m"
    by (cases snap) (simp add: add_to_snapshots_def Let_def snap snapshot_at_def)
  show ?case
    unfolding step using wf by (auto simp: omap_put_lookup at snapshot_at_def)
qed simp

lemma snapshots_eq:
  "foldl add_to_snapshots [] ws = map (\<lambda>w. (w, snapshot_at w ws)) (window_starts ws)"
proof (rule omap_ext)
  show "omap_wf (foldl add_to_snapshots [] ws)"
    using snapshots_lookup by blast
  show "omap_wf (map (\<lambda>w. (w, snapshot_at w ws)) (window_starts ws))"
    by (simp add: omap_wf_def window_starts_def comp_def strict_sorted_iff)
  show "map_of (foldl add_to_snapshots [] ws) = map_of (map (\<lambda>w. (w, snapshot_at w ws)) (window_starts ws))"
    using snapshots_lookup [of ws]
    by (auto simp: fun_eq_iff map_of_map_restrict restrict_map_def window_starts_def filter_empty_conv)
qed

lemma serialize_some:
  assumes "snap_windows snap \<noteq> []"
  shows "\<exists>t. serialize snap = Some t \<and> t \<noteq> []"
proof -
  obtain t where "format_iso8601_utc (snap_window_start_ms snap) = Some (iso8601_text t)"
    by (rule format_iso8601_utc_some)
  with assms show ?thesis by (simp add: serialize_eq)
qed

lemma write_snapshots_blocks:
  assumes "\<forall>w \<in> set vs. filter (\<lambda>x. ws_window_start_ms x = w) ws \<noteq> []"
  shows "write_snapshots put (map (\<lambda>w. (w, snapshot_at w ws)) vs) sink
     = write_blocks put (map (\<lambda>w. block w ws) vs) sink"
  using assms
proof (induction vs arbitrary: sink)
  case (Cons w vs)
  let ?snap = "\<lparr>snap_window_start_ms = w,
     snap_windows = sort_key ws_symbol (filter (\<lambda>x. ws_window_start_ms x = w) ws)\<rparr>"
  have sorted: "(snapshot_at w ws)\<lparr>snap_windows := sort_key ws_symbol (snap_windows (snapshot_at w ws))\<rparr> = ?snap"
    by (simp add: snapshot_at_def)
  have "set (snap_windows ?snap) \<noteq> {}"
    using Cons.prems by (auto simp: filter_empty_conv)
  then have "snap_windows ?snap \<noteq> []"
    by (metis empty_set)
  then obtain t where "serialize ?snap = Some t" "t \<noteq> []"
    using serialize_some by blast
  with Cons show ?case
    by (simp add: sorted block_def [of w] split: prod.splits)
qed simp

lemma write_windows_eq: "write_windows put ws sink = write_blocks put (blocks ws) sink"
proof (cases "ws = []")
  case False
  have "\<forall>w \<in> set (window_starts ws). filter (\<lambda>x. ws_window_start_ms x = w) ws \<noteq> []"
    by (auto simp: window_starts_def filter_empty_conv)
  from write_snapshots_blocks [OF this] False show ?thesis
    by (simp add: write_windows_def snapshots_eq blocks_def)
qed (simp add: write_windows_def blocks_def window_starts_def)

text \<open>For windows with distinct keys the blocks do not depend on the order of the batch.\<close>

lemma blocks_mset_cong:
  assumes "mset vs = mset ws" and "inj_on stats_key (set vs)"
  shows "blocks vs = blocks ws"
proof -
  have sets: "set vs = set ws"
    using assms(1) by (rule mset_eq_setD)
  have "sort_key ws_symbol (filter (\<lambda>x. ws_window_start_ms x = w) vs)
      = sort_key ws_symbol (filter (\<lambda>x. ws_window_start_ms x = w) ws)" for w
  proof (rule sort_key_inj_key_eq)
    show "mset (filter (\<lambda>x. ws_window_start_ms x = w) vs)
        = mset (sort_key ws_symbol (filter (\<lambda>x. ws_window_start_ms x = w) ws))"
      using assms(1) by simp
    show "inj_on ws_symbol (set (filter (\<lambda>x. ws_window_start_ms x = w) vs))"
      using assms(2) by (auto simp: inj_on_def stats_key_def)
  qed simp
  then show ?thesis
    by (simp add: blocks_def block_def window_starts_def sets)
qed

section \<open>Sharding\<close>

lemma drain_shards_out:
  "fst (drain_shards c shards) = concat (map (\<lambda>s. fst (drain_windows c (sh_aggregator s))) shards)"
  by (induction c shards rule: drain_shards.induct) (auto split: prod.splits)

lemma drain_shards_state:
  "snd (drain_shards c shards)
     = map (\<lambda>s. s\<lparr>sh_aggregator := snd (drain_windows c (sh_aggregator s))\<rparr>) shards"
  by (induction c shards rule: drain_shards.induct) (auto split: prod.splits)

lemma bucket_routed:
  "bucket W k (filter (\<lambda>t. idx (te_symbol t) = i) ts) = (if idx (fst k) = i then bucket W k ts else [])"
  by (induction ts) (auto simp: bucket_def trade_key_def)

text \<open>
  The summaries of the parts a routing by symbol makes are together the summaries of the
  whole, since no bucket is split.
\<close>

lemma summaries_of_routed:
  assumes "\<And>i. i < n \<Longrightarrow> summaries_of W (filter (\<lambda>t. idx (te_symbol t) = i) ts) P (outs i)"
    and "\<And>s. idx s < n"
  shows "summaries_of W ts P (concat (map outs [0..<n]))"
proof -
  define F where "F = (\<lambda>k. summary k (bucket W k ts))"
  define Q where "Q = (\<lambda>i ks. distinct ks
      \<and> set ks = {k. idx (fst k) = i \<and> P k \<and> bucket W k ts \<noteq> []} \<and> outs i = map F ks)"
  have "\<exists>ks. Q i ks" if i: "i < n" for i
  proof -
    obtain ks where ks: "distinct ks" "set ks = {k. P k \<and> bucket W k (filter (\<lambda>t. idx (te_symbol t) = i) ts) \<noteq> []}"
      "outs i = map (\<lambda>k. summary k (bucket W k (filter (\<lambda>t. idx (te_symbol t) = i) ts))) ks"
      using assms(1) [OF i] unfolding summaries_of_def by blast
    then show ?thesis
      by (intro exI [of _ ks]) (auto simp: bucket_routed F_def Q_def split: if_splits)
  qed
  then obtain ks where "\<And>i. i < n \<Longrightarrow> Q i (ks i)"
    by metis
  then have ks: "\<And>i. i < n \<Longrightarrow> distinct (ks i)"
    "\<And>i. i < n \<Longrightarrow> set (ks i) = {k. idx (fst k) = i \<and> P k \<and> bucket W k ts \<noteq> []}"
    "\<And>i. i < n \<Longrightarrow> outs i = map F (ks i)"
    unfolding Q_def by blast+
  let ?all = "concat (map ks [0..<n])"
  have "distinct (concat (map ks [0..<m]))" if "m \<le> n" for m
    using that by (induction m) (auto simp: ks(1,2))
  moreover have "set ?all = {k. P k \<and> bucket W k ts \<noteq> []}"
    using assms(2) by (auto simp: ks(2))
  moreover have "concat (map outs [0..<n]) = map F ?all"
    unfolding map_concat map_map by (rule arg_cong [of _ _ concat]) (simp add: ks(3))
  ultimately show ?thesis
    unfolding summaries_of_def F_def by blast
qed

lemma summaries_of_unique:
  assumes "summaries_of W ts P vs" and "summaries_of W ts P ws"
  shows "mset vs = mset ws" and "inj_on stats_key (set vs)"
proof -
  obtain ks where ks: "distinct ks" "set ks = {k. P k \<and> bucket W k ts \<noteq> []}"
    "vs = map (\<lambda>k. summary k (bucket W k ts)) ks"
    using assms(1) unfolding summaries_of_def by blast
  obtain ls where ls: "distinct ls" "set ls = {k. P k \<and> bucket W k ts \<noteq> []}"
    "ws = map (\<lambda>k. summary k (bucket W k ts)) ls"
    using assms(2) unfolding summaries_of_def by blast
  have "mset ks = mset ls"
    using ks(1,2) ls(1,2) by (simp flip: set_eq_iff_mset_eq_distinct)
  then show "mset vs = mset ws"
    unfolding ks(3) ls(3) by (simp only: mset_map)
  have "stats_key (summary k b) = k" for k b
    by (simp add: stats_key_def summary_def)
  then show "inj_on stats_key (set vs)"
    by (auto simp: ks(3) inj_on_def)
qed

lemma summaries_of_mset_cong:
  assumes "mset ts = mset us"
  shows "summaries_of W ts P ws = summaries_of W us P ws"
proof -
  have "mset (bucket W k ts) = mset (bucket W k us)" for k
    using assms by (simp add: bucket_def)
  then have "bucket W k ts = [] \<longleftrightarrow> bucket W k us = []"
    "summary k (bucket W k ts) = summary k (bucket W k us)" for k
    by (metis mset_zero_iff, rule summary_mset_cong)
  then show ?thesis
    by (simp add: summaries_of_def)
qed

lemma add_trades_represents:
  "W \<noteq> 0 \<Longrightarrow> add_trades (MarketDataAggregator_new W) ts = Some a \<Longrightarrow> represents W ts a"
  using represents_add_trades [OF represents_new, of W ts] by auto

text \<open>The trades are routed to the shards of a pipeline by symbol, and each shard has aggregated its part.\<close>

definition routed_trades :: "(string \<Rightarrow> nat) \<Rightarrow> u64 \<Rightarrow> TradeEvent list \<Rightarrow> 's MarketDataPipeline \<Rightarrow> bool" where
  "routed_trades hash W ts p \<longleftrightarrow> pl_shards p \<noteq> [] \<and>
     (\<forall>i < length (pl_shards p).
        add_trades (MarketDataAggregator_new W) (filter (\<lambda>t. shard_index_for_symbol hash p (te_symbol t) = i) ts)
        = Some (sh_aggregator (pl_shards p ! i)))"

lemma routed_represents:
  assumes "W \<noteq> 0" and "routed_trades hash W ts p" and "i < length (pl_shards p)"
  shows "represents W (filter (\<lambda>t. shard_index_for_symbol hash p (te_symbol t) = i) ts) (sh_aggregator (pl_shards p ! i))"
  using assms(2,3) by (auto simp: routed_trades_def intro: add_trades_represents [OF assms(1)])

lemma routed_drain:
  assumes "W \<noteq> 0" and "routed_trades hash W ts p"
  shows "summaries_of W ts (drained c) (fst (drain_shards c (pl_shards p)))"
proof -
  let ?idx = "shard_index_for_symbol hash p" and ?n = "length (pl_shards p)"
  let ?outs = "\<lambda>i. fst (drain_windows c (sh_aggregator (pl_shards p ! i)))"
  have "?idx s < ?n" for s
    using assms(2) by (simp add: shard_index_for_symbol_def routed_trades_def)
  moreover have "summaries_of W (filter (\<lambda>t. ?idx (te_symbol t) = i) ts) (drained c) (?outs i)"
    if "i < ?n" for i
    using routed_represents [OF assms that] by (rule represents_drain(2))
  ultimately have "summaries_of W ts (drained c) (concat (map ?outs [0..<?n]))"
    by (intro summaries_of_routed)
  moreover have "map ?outs [0..<?n] = map (\<lambda>s. fst (drain_windows c (sh_aggregator s))) (pl_shards p)"
    by (rule nth_equalityI) simp_all
  ultimately show ?thesis
    by (simp add: drain_shards_out)
qed

text \<open>What a shard keeps: the statistics of the windows that are not drained.\<close>

lemma represents_window_stats: "represents W ts a \<Longrightarrow> window_stats a s w = spec_stats W ts (s, w)"
  by (metis agg_stats_def fst_conv represents_def snd_conv)

lemma routed_kept:
  assumes "W \<noteq> 0" and "routed_trades hash W ts p" and "snd (drain_shards c (pl_shards p)) = shards"
  shows "window_stats (sh_aggregator (shards ! shard_index_for_symbol hash p s)) s w
     = (if drained c (s, w) then None else spec_stats W ts (s, w))"
proof -
  let ?i = "shard_index_for_symbol hash p s"
  have i: "?i < length (pl_shards p)"
    using assms(2) by (simp add: shard_index_for_symbol_def routed_trades_def)
  note R = represents_drain(1) [OF routed_represents [OF assms(1,2) i], of c]
  have "spec_stats W (filter (\<lambda>t. \<not> drained c (trade_key W t)) us) k = (if drained c k then None else spec_stats W us k)"
    for us k
    using bucket_filter_keys [of W k "\<lambda>k. \<not> drained c k" us] by (simp add: spec_stats_def)
  moreover have "spec_stats W (filter (\<lambda>t. shard_index_for_symbol hash p (te_symbol t) = ?i) ts) (s, w) = spec_stats W ts (s, w)"
    by (simp add: spec_stats_def bucket_routed)
  ultimately show ?thesis
    using represents_window_stats [OF R] i by (simp add: assms(3) [symmetric] drain_shards_state del: filter_filter)
qed

text \<open>A window starts before the current one exactly when it has ended.\<close>

lemma ended_iff:
  assumes "W \<noteq> 0" and "unat w mod unat W = 0"
  shows "w < now - now mod W \<longleftrightarrow> unat w + unat W \<le> unat (now :: u64)"
proof -
  define a where "a = unat w div unat W"
  then have a: "unat w = a * unat W"
    using assms(2) by (simp add: mod_eq_0_iff_dvd)
  have W: "0 < unat W"
    using assms(1) by (simp add: unat_gt_0)
  have "unat (now - now mod W) = unat now div unat W * unat W"
    unfolding unat_minus_mod by (simp add: minus_mod_eq_div_mult)
  then have "w < now - now mod W \<longleftrightarrow> a < unat now div unat W"
    using W by (simp add: word_less_nat_alt a)
  also have "\<dots> \<longleftrightarrow> (a + 1) * unat W \<le> unat now"
    using W by (simp add: Suc_le_eq [symmetric] less_eq_div_iff_mult_less_eq)
  finally show ?thesis
    by (simp add: a algebra_simps)
qed

lemma bucket_aligned: "bucket W (s, w) ts \<noteq> [] \<Longrightarrow> unat w mod unat W = 0"
  by (auto simp: bucket_def filter_empty_conv trade_key_def window_start_aligned)

section \<open>Properties\<close>

text \<open>
  C17: a flush writes exactly the specified text. For any batch of windows,
  \<^verbatim>\<open>write_windows\<close> writes one block per distinct window start, in ascending order of start,
  each with the windows of that start in ascending order of symbol, and stops at the first
  write that throws; an empty batch writes nothing.
\<close>

theorem write_windows_correct:
  "write_windows put ws sink =
     write_blocks put
       (map (\<lambda>w. the (serialize \<lparr>snap_window_start_ms = w,
               snap_windows = sort_key ws_symbol (filter (\<lambda>x. ws_window_start_ms x = w) ws)\<rparr>))
          (sorted_list_of_set (ws_window_start_ms ` set ws))) sink"
  unfolding write_windows_eq blocks_def block_def window_starts_def ..

text \<open>
  C6: sharding does not show in the output. Let the trades be routed to the shards by
  symbol, whatever the hash function and the number of shards, and let a single-shard run
  receive the same trades in any order. A periodic flush for the same current window, and the
  final flush, write the same bytes in both.
\<close>

theorem sharded_output_identical:
  assumes "W \<noteq> 0" and "pl_shards p \<noteq> []"
    and "\<forall>i < length (pl_shards p).
           add_trades (MarketDataAggregator_new W)
             (filter (\<lambda>t. shard_index_for_symbol hash p (te_symbol t) = i) ts)
           = Some (sh_aggregator (pl_shards p ! i))"
    and "add_trades (MarketDataAggregator_new W) us = Some (sh_aggregator single)"
    and "mset us = mset ts"
  shows "write_windows put (fst (drain_shards c (pl_shards p))) sink
     = write_windows put (fst (drain_shards c [single])) sink"
proof -
  have "routed_trades hash W ts p"
    using assms(2,3) by (simp add: routed_trades_def)
  note all = routed_drain [OF assms(1) this, of c]
  have "summaries_of W us (drained c) (fst (drain_shards c [single]))"
    using represents_drain(2) [OF add_trades_represents [OF assms(1,4)], of c]
    by (simp add: drain_shards_out del: drain_shards.simps)
  then have one: "summaries_of W ts (drained c) (fst (drain_shards c [single]))"
    by (simp add: summaries_of_mset_cong [OF assms(5)])
  show ?thesis
    unfolding write_windows_eq
    using blocks_mset_cong [OF summaries_of_unique(1) [OF all one] summaries_of_unique(2) [OF all one]]
    by simp
qed

text \<open>
  C16: what the two flushes write and leave. Let the trades be routed to the shards by symbol.
  \<^verbatim>\<open>flush_completed_windows\<close> at time \<open>now\<close> hands to \<^verbatim>\<open>write_windows\<close> the summaries of exactly the windows with a
  trade that have ended by then, each once, and keeps exactly the others in their shards;
  \<^verbatim>\<open>flush_remaining_windows\<close> hands over the summaries of all windows with a trade and keeps none.
\<close>

theorem flush_windows_correct:
  assumes "W \<noteq> 0" and "pl_window_ms p = W" and "pl_shards p \<noteq> []"
    and "\<forall>i < length (pl_shards p).
           add_trades (MarketDataAggregator_new W)
             (filter (\<lambda>t. shard_index_for_symbol hash p (te_symbol t) = i) ts)
           = Some (sh_aggregator (pl_shards p ! i))"
  shows "(\<exists>ks ok p'. flush_completed_windows put now p = Some (ok, p')
        \<and> distinct ks
        \<and> set ks = {(s, w). unat w + unat W \<le> unat now \<and> bucket W (s, w) ts \<noteq> []}
        \<and> write_windows put (map (\<lambda>k. summary k (bucket W k ts)) ks) (pl_sink p) = (ok, pl_sink p')
        \<and> (\<forall>s w. window_stats (sh_aggregator (pl_shards p' ! shard_index_for_symbol hash p s)) s w
             = (if unat w + unat W \<le> unat now \<or> bucket W (s, w) ts = [] then None
                else Some (summary (s, w) (bucket W (s, w) ts)))))
     \<and> (\<exists>ks ok p'. flush_remaining_windows put p = (ok, p')
        \<and> distinct ks
        \<and> set ks = {k. bucket W k ts \<noteq> []}
        \<and> write_windows put (map (\<lambda>k. summary k (bucket W k ts)) ks) (pl_sink p) = (ok, pl_sink p')
        \<and> (\<forall>s w. window_stats (sh_aggregator (pl_shards p' ! shard_index_for_symbol hash p s)) s w = None))"
proof
  have routed: "routed_trades hash W ts p"
    using assms(3,4) by (simp add: routed_trades_def)
  note out = routed_drain [OF assms(1) routed, unfolded summaries_of_def]
    and kept = routed_kept [OF assms(1) routed refl]
  let ?c = "now - now mod W"
  have ended: "snd k < ?c \<longleftrightarrow> unat (snd k) + unat W \<le> unat now" if "bucket W k ts \<noteq> []" for k
    using ended_iff [OF assms(1) bucket_aligned] that by (cases k) simp
  obtain ks where ks: "distinct ks" "set ks = {k. drained (Some ?c) k \<and> bucket W k ts \<noteq> []}"
    "fst (drain_shards (Some ?c) (pl_shards p)) = map (\<lambda>k. summary k (bucket W k ts)) ks"
    using out by blast
  obtain ok sink where put: "write_windows put (map (\<lambda>k. summary k (bucket W k ts)) ks) (pl_sink p) = (ok, sink)"
    by (cases "write_windows put (map (\<lambda>k. summary k (bucket W k ts)) ks) (pl_sink p)")
  let ?p = "p\<lparr>pl_shards := snd (drain_shards (Some ?c) (pl_shards p)), pl_sink := sink\<rparr>"
  have "flush_completed_windows put now p = Some (ok, ?p)"
    using assms(1,2) put by (simp add: flush_completed_windows_def window_start_def case_prod_unfold ks(3))
  moreover have "set ks = {(s, w). unat w + unat W \<le> unat now \<and> bucket W (s, w) ts \<noteq> []}"
    using ks(2) ended by (auto simp: drained_def)
  moreover have "window_stats (sh_aggregator (pl_shards ?p ! shard_index_for_symbol hash p s)) s w
      = (if unat w + unat W \<le> unat now \<or> bucket W (s, w) ts = [] then None
         else Some (summary (s, w) (bucket W (s, w) ts)))" for s w
    using kept [of "Some ?c" s w] ended [of "(s, w)"] by (auto simp: spec_stats_def drained_def)
  ultimately show "\<exists>ks ok p'. flush_completed_windows put now p = Some (ok, p')
        \<and> distinct ks
        \<and> set ks = {(s, w). unat w + unat W \<le> unat now \<and> bucket W (s, w) ts \<noteq> []}
        \<and> write_windows put (map (\<lambda>k. summary k (bucket W k ts)) ks) (pl_sink p) = (ok, pl_sink p')
        \<and> (\<forall>s w. window_stats (sh_aggregator (pl_shards p' ! shard_index_for_symbol hash p s)) s w
             = (if unat w + unat W \<le> unat now \<or> bucket W (s, w) ts = [] then None
                else Some (summary (s, w) (bucket W (s, w) ts))))"
    using ks(1) put by (intro exI [of _ ks] exI [of _ ok] exI [of _ ?p]) simp
  obtain ks where ks: "distinct ks" "set ks = {k. bucket W k ts \<noteq> []}"
    "fst (drain_shards None (pl_shards p)) = map (\<lambda>k. summary k (bucket W k ts)) ks"
    using out [of None] by (auto simp: drained_def)
  obtain ok sink where put: "write_windows put (map (\<lambda>k. summary k (bucket W k ts)) ks) (pl_sink p) = (ok, sink)"
    by (cases "write_windows put (map (\<lambda>k. summary k (bucket W k ts)) ks) (pl_sink p)")
  with ks kept [of None] show "\<exists>ks ok p'. flush_remaining_windows put p = (ok, p')
        \<and> distinct ks
        \<and> set ks = {k. bucket W k ts \<noteq> []}
        \<and> write_windows put (map (\<lambda>k. summary k (bucket W k ts)) ks) (pl_sink p) = (ok, pl_sink p')
        \<and> (\<forall>s w. window_stats (sh_aggregator (pl_shards p' ! shard_index_for_symbol hash p s)) s w = None)"
    by (intro exI [of _ ks] exI [of _ ok]
          exI [of _ "p\<lparr>pl_shards := snd (drain_shards None (pl_shards p)), pl_sink := sink\<rparr>"])
      (simp add: flush_remaining_windows_def case_prod_unfold drained_def)
qed

text \<open>Two shards, one per symbol.\<close>

abbreviation split_hash :: "string \<Rightarrow> nat" where
  "split_hash s \<equiv> if s = ''ETHUSDT'' then 1 else 0"

abbreviation split_shards :: "MarketDataAggregator \<Rightarrow> MarketDataAggregator \<Rightarrow> Shard list" where
  "split_shards b c \<equiv> [\<lparr>sh_queue = BoundedQueue_new 8, sh_aggregator = b\<rparr>,
     \<lparr>sh_queue = BoundedQueue_new 8, sh_aggregator = c\<rparr>]"

lemma split_aggregators:
  obtains a b c where "add_trades (MarketDataAggregator_new 1000) example_trades = Some a"
    "add_trades (MarketDataAggregator_new 1000) (take 2 example_trades) = Some b"
    "add_trades (MarketDataAggregator_new 1000) (drop 2 example_trades) = Some c"
proof -
  have "\<exists>a. add_trades (MarketDataAggregator_new 1000) ts = Some a" for ts
    using represents_add_trades [OF represents_new, of 1000 ts] by auto
  then show thesis
    using that by metis
qed

lemma split_routed:
  assumes "add_trades (MarketDataAggregator_new 1000) (take 2 example_trades) = Some b"
    and "add_trades (MarketDataAggregator_new 1000) (drop 2 example_trades) = Some c"
    and "pl_shards p = split_shards b c"
  shows "\<forall>i < length (pl_shards p). add_trades (MarketDataAggregator_new 1000)
      (filter (\<lambda>t. shard_index_for_symbol split_hash p (te_symbol t) = i) example_trades) = Some (sh_aggregator (pl_shards p ! i))"
proof -
  have parts: "filter (\<lambda>t. shard_index_for_symbol split_hash p (te_symbol t) = 0) example_trades = take 2 example_trades"
    "filter (\<lambda>t. shard_index_for_symbol split_hash p (te_symbol t) = 1) example_trades = drop 2 example_trades"
    using assms(3) by (simp_all add: shard_index_for_symbol_def example_trades_def)
  have "add_trades (MarketDataAggregator_new 1000)
      (filter (\<lambda>t. shard_index_for_symbol split_hash p (te_symbol t) = i) example_trades)
    = Some (sh_aggregator (pl_shards p ! i))" if "i = 0 \<or> i = 1" for i
    using that parts assms by auto
  then show ?thesis
    using assms(3) by (auto simp: less_Suc_eq)
qed

theorem sharded_output_identical_witness:
  "\<exists>a b c. add_trades (MarketDataAggregator_new 1000) example_trades = Some a
     \<and> add_trades (MarketDataAggregator_new 1000) (take 2 example_trades) = Some b
     \<and> add_trades (MarketDataAggregator_new 1000) (drop 2 example_trades) = Some c
     \<and> write_windows (\<lambda>t s. (True, s @ [t])) (fst (drain_shards None (split_shards b c))) []
       = write_windows (\<lambda>t s. (True, s @ [t])) (fst (drain_shards None
          [\<lparr>sh_queue = BoundedQueue_new 16, sh_aggregator = a\<rparr>])) []"
proof -
  obtain a b c where abc: "add_trades (MarketDataAggregator_new 1000) example_trades = Some a"
    "add_trades (MarketDataAggregator_new 1000) (take 2 example_trades) = Some b"
    "add_trades (MarketDataAggregator_new 1000) (drop 2 example_trades) = Some c"
    by (rule split_aggregators)
  let ?p = "(MarketDataPipeline_new 1000 5000 16 () 2)\<lparr>pl_shards := split_shards b c\<rparr>"
    and ?single = "\<lparr>sh_queue = BoundedQueue_new 16, sh_aggregator = a\<rparr>"
  have p: "pl_shards ?p = split_shards b c" "pl_shards ?p \<noteq> []" and W: "(1000 :: u64) \<noteq> 0" by simp_all
  have single: "add_trades (MarketDataAggregator_new 1000) example_trades = Some (sh_aggregator ?single)"
    by (simp add: abc(1))
  from sharded_output_identical [OF W p(2) split_routed [OF abc(2,3) p(1)] single refl,
      of "\<lambda>t s. (True, s @ [t])" None "[]"] abc show ?thesis
    unfolding p(1) by blast
qed

theorem flush_windows_correct_witness:
  "\<exists>b c ok p'. add_trades (MarketDataAggregator_new 1000) (take 2 example_trades) = Some b
     \<and> add_trades (MarketDataAggregator_new 1000) (drop 2 example_trades) = Some c
     \<and> flush_completed_windows (\<lambda>t s. (True, s @ [t])) 2999
         ((MarketDataPipeline_new 1000 5000 16 [] 2)\<lparr>pl_shards := split_shards b c\<rparr>) = Some (ok, p')
     \<and> write_windows (\<lambda>t s. (True, s @ [t])) [summary (''BTCUSDT'', 1000) (take 2 example_trades)] [] = (ok, pl_sink p')
     \<and> window_stats (sh_aggregator (pl_shards p' ! 0)) ''BTCUSDT'' 1000 = None
     \<and> window_stats (sh_aggregator (pl_shards p' ! 1)) ''ETHUSDT'' 2000
         = Some (summary (''ETHUSDT'', 2000) (drop 2 example_trades))"
proof -
  obtain b c where bc: "add_trades (MarketDataAggregator_new 1000) (take 2 example_trades) = Some b"
    "add_trades (MarketDataAggregator_new 1000) (drop 2 example_trades) = Some c"
    using split_aggregators by metis
  let ?p = "(MarketDataPipeline_new 1000 5000 16 ([] :: string list) 2)\<lparr>pl_shards := split_shards b c\<rparr>"
    and ?put = "\<lambda>t s. (True, s @ [t])"
  have p: "pl_shards ?p = split_shards b c" "pl_shards ?p \<noteq> []" "pl_window_ms ?p = 1000" "pl_sink ?p = []"
    and W: "(1000 :: u64) \<noteq> 0" by (simp_all add: MarketDataPipeline_new_def Let_def)
  have idx: "shard_index_for_symbol split_hash ?p ''BTCUSDT'' = 0" "shard_index_for_symbol split_hash ?p ''ETHUSDT'' = 1"
    by (simp_all add: shard_index_for_symbol_def)
  have key: "bucket 1000 k example_trades = (if k = (''BTCUSDT'', 1000) then take 2 example_trades
      else if k = (''ETHUSDT'', 2000) then drop 2 example_trades else [])" for k
    by (auto simp: bucket_def example_trades_def trade_key_def)
  obtain ks ok p' where flush: "flush_completed_windows ?put 2999 ?p = Some (ok, p')" "distinct ks"
    "set ks = {(s, w). unat w + unat (1000 :: u64) \<le> unat (2999 :: u64) \<and> bucket 1000 (s, w) example_trades \<noteq> []}"
    "write_windows ?put (map (\<lambda>k. summary k (bucket 1000 k example_trades)) ks) [] = (ok, pl_sink p')"
    "\<And>s w. window_stats (sh_aggregator (pl_shards p' ! shard_index_for_symbol split_hash ?p s)) s w
      = (if unat w + unat (1000 :: u64) \<le> unat (2999 :: u64) \<or> bucket 1000 (s, w) example_trades = [] then None
         else Some (summary (s, w) (bucket 1000 (s, w) example_trades)))"
    using flush_windows_correct [OF W p(3,2) split_routed [OF bc p(1)], of ?put 2999] unfolding p(4) by blast
  have "set ks = {(''BTCUSDT'', 1000)}"
    unfolding flush(3) key by (auto simp: example_trades_def)
  with flush(2) have "ks = [(''BTCUSDT'', 1000)]"
    by (cases ks rule: remdups_adj.cases) auto
  with flush(4) have "write_windows ?put [summary (''BTCUSDT'', 1000) (take 2 example_trades)] [] = (ok, pl_sink p')"
    by (simp add: key)
  moreover have "window_stats (sh_aggregator (pl_shards p' ! 0)) ''BTCUSDT'' 1000 = None"
    using flush(5) [of "''BTCUSDT''" 1000] unfolding idx by simp
  moreover have "window_stats (sh_aggregator (pl_shards p' ! 1)) ''ETHUSDT'' 2000
      = Some (summary (''ETHUSDT'', 2000) (drop 2 example_trades))"
    using flush(5) [of "''ETHUSDT''" 2000] unfolding idx key by (simp add: example_trades_def)
  ultimately show ?thesis
    using bc flush(1) by blast
qed

end
