(* ===== verification/Pipeline_Shutdown.thy ===== *)
theory Pipeline_Shutdown
  imports MarketDataPipeline
begin

text \<open>
  The threads of the pipeline: which order of shutting down the stages keep, that no
  interleaving loses or duplicates a trade, and that \<^verbatim>\<open>stop\<close> cannot get stuck. All by
  invariants over the step relation of \<open>MarketDataPipeline\<close>.
\<close>

section \<open>Access to the shards\<close>

abbreviation shard_queue :: "'s MarketDataPipeline \<Rightarrow> nat \<Rightarrow> TradeEvent BoundedQueue" where
  "shard_queue p i \<equiv> sh_queue (pl_shards p ! i)"

abbreviation shard_agg :: "'s MarketDataPipeline \<Rightarrow> nat \<Rightarrow> MarketDataAggregator" where
  "shard_agg p i \<equiv> sh_aggregator (pl_shards p ! i)"

lemma set_shard_queue_simps [simp]:
  "pl_window_ms (set_shard_queue i q p) = pl_window_ms p"
  "pl_raw_queue (set_shard_queue i q p) = pl_raw_queue p"
  "pl_sink (set_shard_queue i q p) = pl_sink p"
  "pl_parser (set_shard_queue i q p) = pl_parser p"
  "pl_aggs (set_shard_queue i q p) = pl_aggs p"
  "pl_writer (set_shard_queue i q p) = pl_writer p"
  "pl_stopper (set_shard_queue i q p) = pl_stopper p"
  "pl_stop_requested (set_shard_queue i q p) = pl_stop_requested p"
  "pl_terminated (set_shard_queue i q p) = pl_terminated p"
  "length (pl_shards (set_shard_queue i q p)) = length (pl_shards p)"
  "j < length (pl_shards p) \<Longrightarrow> shard_queue (set_shard_queue i q p) j = (if i = j then q else shard_queue p j)"
  by (simp_all add: set_shard_queue_def)

lemma set_shard_queue_agg [simp]: "shard_agg (set_shard_queue i q p) j = shard_agg p j"
  by (cases "i < length (pl_shards p)") (simp_all add: set_shard_queue_def nth_list_update list_update_beyond)

lemma set_shard_aggregator_simps [simp]:
  "pl_window_ms (set_shard_aggregator i a p) = pl_window_ms p"
  "pl_raw_queue (set_shard_aggregator i a p) = pl_raw_queue p"
  "pl_sink (set_shard_aggregator i a p) = pl_sink p"
  "pl_parser (set_shard_aggregator i a p) = pl_parser p"
  "pl_aggs (set_shard_aggregator i a p) = pl_aggs p"
  "pl_writer (set_shard_aggregator i a p) = pl_writer p"
  "pl_stopper (set_shard_aggregator i a p) = pl_stopper p"
  "pl_stop_requested (set_shard_aggregator i a p) = pl_stop_requested p"
  "pl_terminated (set_shard_aggregator i a p) = pl_terminated p"
  "length (pl_shards (set_shard_aggregator i a p)) = length (pl_shards p)"
  "j < length (pl_shards p) \<Longrightarrow> shard_agg (set_shard_aggregator i a p) j = (if i = j then a else shard_agg p j)"
  by (simp_all add: set_shard_aggregator_def)

lemma set_shard_aggregator_queue [simp]: "shard_queue (set_shard_aggregator i a p) j = shard_queue p j"
  by (cases "i < length (pl_shards p)") (simp_all add: set_shard_aggregator_def nth_list_update list_update_beyond)

section \<open>The shutdown order\<close>

text \<open>How far a call of \<^verbatim>\<open>stop\<close> has come: shards closed, threads joined, shards emptied.\<close>

fun shut_upto :: "nat \<Rightarrow> stop_state \<Rightarrow> nat" where
  "shut_upto n (StopShutShards i) = i"
| "shut_upto n (StopJoinAggs i) = n"
| "shut_upto n (StopExtract i ws) = n"
| "shut_upto n Stopped = n"
| "shut_upto n _ = 0"

fun joined_upto :: "nat \<Rightarrow> stop_state \<Rightarrow> nat" where
  "joined_upto n (StopJoinAggs i) = i"
| "joined_upto n (StopExtract i ws) = n"
| "joined_upto n Stopped = n"
| "joined_upto n _ = 0"

fun emptied_upto :: "nat \<Rightarrow> stop_state \<Rightarrow> nat" where
  "emptied_upto n (StopExtract i ws) = i"
| "emptied_upto n Stopped = n"
| "emptied_upto n _ = 0"

definition parser_over :: "'s MarketDataPipeline \<Rightarrow> bool" where
  "parser_over p \<longleftrightarrow> pl_parser p = ParserOff \<or> pl_parser p = ParserDone"

definition writer_over :: "'s MarketDataPipeline \<Rightarrow> bool" where
  "writer_over p \<longleftrightarrow> pl_writer p = WriterOff \<or> pl_writer p = WriterDone"

definition past_writer :: "stop_state \<Rightarrow> bool" where
  "past_writer st \<longleftrightarrow> st \<noteq> StopIdle \<and> st \<noteq> StopJoinWriter"

definition past_parser :: "stop_state \<Rightarrow> bool" where
  "past_parser st \<longleftrightarrow> past_writer st \<and> st \<noteq> StopJoinParser"

text \<open>
  The threads: either none or all are started; a thread that is done left its queue closed
  and empty; the parser has an existing shard in hand.
\<close>

definition threads_inv :: "'s MarketDataPipeline \<Rightarrow> bool" where
  "threads_inv p \<longleftrightarrow>
     0 < length (pl_shards p)
     \<and> (\<forall>i < length (pl_shards p). 0 < bq_capacity (shard_queue p i))
     \<and> (if pl_parser p = ParserOff then pl_aggs p = [] \<and> pl_writer p = WriterOff
        else length (pl_aggs p) = length (pl_shards p) \<and> pl_writer p \<noteq> WriterOff)
     \<and> (\<forall>t i. pl_parser p = ParserPush t i \<longrightarrow> i < length (pl_shards p))
     \<and> (pl_parser p = ParserDone \<longrightarrow> bq_shutdown (pl_raw_queue p) \<and> bq_items (pl_raw_queue p) = [])
     \<and> (\<forall>i < length (pl_aggs p). pl_aggs p ! i = AggDone \<longrightarrow>
          bq_shutdown (shard_queue p i) \<and> bq_items (shard_queue p i) = [])"

text \<open>
  The order: writer before the raw queue, parser before the shard queues, shard queues
  before the joins, joins before the final extraction.
\<close>

definition order_inv :: "'s MarketDataPipeline \<Rightarrow> bool" where
  "order_inv p \<longleftrightarrow>
     (pl_stop_requested p \<longleftrightarrow> pl_stopper p \<noteq> StopIdle)
     \<and> (bq_shutdown (pl_raw_queue p) \<longrightarrow> pl_stopper p \<noteq> StopIdle \<and> writer_over p)
     \<and> (past_writer (pl_stopper p) \<longrightarrow> bq_shutdown (pl_raw_queue p))
     \<and> (past_parser (pl_stopper p) \<longrightarrow> parser_over p)
     \<and> (\<forall>i < length (pl_shards p). bq_shutdown (shard_queue p i) \<longrightarrow>
          parser_over p \<and> bq_shutdown (pl_raw_queue p))
     \<and> (\<forall>i < length (pl_shards p). i < shut_upto (length (pl_shards p)) (pl_stopper p) \<longrightarrow>
          bq_shutdown (shard_queue p i))
     \<and> (\<forall>i < length (pl_aggs p). i < joined_upto (length (pl_shards p)) (pl_stopper p) \<longrightarrow>
          pl_aggs p ! i = AggDone)
     \<and> (\<forall>i < length (pl_shards p). i < emptied_upto (length (pl_shards p)) (pl_stopper p) \<longrightarrow>
          agg_windows (shard_agg p i) = [])"

definition stages_inv :: "'s MarketDataPipeline \<Rightarrow> bool" where
  "stages_inv p \<longleftrightarrow> threads_inv p \<and> order_inv p"

lemma over_simps [simp]:
  "parser_over (p\<lparr>pl_raw_queue := q\<rparr>) = parser_over p" "writer_over (p\<lparr>pl_raw_queue := q\<rparr>) = writer_over p"
  "parser_over (p\<lparr>pl_aggs := as\<rparr>) = parser_over p" "writer_over (p\<lparr>pl_aggs := as\<rparr>) = writer_over p"
  "parser_over (p\<lparr>pl_stopper := st\<rparr>) = parser_over p" "writer_over (p\<lparr>pl_stopper := st\<rparr>) = writer_over p"
  "parser_over (p\<lparr>pl_stop_requested := b\<rparr>) = parser_over p" "writer_over (p\<lparr>pl_stop_requested := b\<rparr>) = writer_over p"
  "parser_over (p\<lparr>pl_terminated := b\<rparr>) = parser_over p" "writer_over (p\<lparr>pl_terminated := b\<rparr>) = writer_over p"
  "parser_over (p\<lparr>pl_sink := sink\<rparr>) = parser_over p" "writer_over (p\<lparr>pl_sink := sink\<rparr>) = writer_over p"
  "parser_over (p\<lparr>pl_writer := w\<rparr>) = parser_over p" "writer_over (p\<lparr>pl_parser := s\<rparr>) = writer_over p"
  "parser_over (set_shard_queue i tq p) = parser_over p" "writer_over (set_shard_queue i tq p) = writer_over p"
  "parser_over (set_shard_aggregator i a p) = parser_over p" "writer_over (set_shard_aggregator i a p) = writer_over p"
  by (simp_all add: parser_over_def writer_over_def)

lemma past_simps [simp]:
  "\<not> past_writer StopIdle" "\<not> past_writer StopJoinWriter" "past_writer StopJoinParser"
  "past_writer (StopShutShards i)" "past_writer (StopJoinAggs i)" "past_writer (StopExtract i ws)"
  "past_writer Stopped"
  "\<not> past_parser StopIdle" "\<not> past_parser StopJoinWriter" "\<not> past_parser StopJoinParser"
  "past_parser (StopShutShards i)" "past_parser (StopJoinAggs i)" "past_parser (StopExtract i ws)"
  "past_parser Stopped"
  by (simp_all add: past_writer_def past_parser_def)

lemmas stages_defs = stages_inv_def threads_inv_def order_inv_def

lemma stages_inv_new: "stages_inv (MarketDataPipeline_new w f cap sink n)"
  by (auto simp: stages_defs MarketDataPipeline_new_def Let_def Shard_new_def BoundedQueue_new_def
      max_def)

lemma stages_inv_terminated [simp]: "stages_inv (p\<lparr>pl_terminated := b\<rparr>) = stages_inv p"
  by (simp add: stages_defs)

lemma stages_inv_sink [simp]: "stages_inv (p\<lparr>pl_sink := sink\<rparr>) = stages_inv p"
  by (simp add: stages_defs)

lemma raw_queue_stages:
  assumes "stages_inv p" and "bq_shutdown q = bq_shutdown (pl_raw_queue p)"
    and "pl_parser p = ParserDone \<Longrightarrow> bq_items q = []"
  shows "stages_inv (p\<lparr>pl_raw_queue := q\<rparr>)"
  using assms by (simp add: stages_defs)

lemma submit_stages:
  assumes "stages_inv p" and "submit_raw_message m p = Some (ok, p')"
  shows "stages_inv p'"
proof -
  obtain q where q: "bq_push m (pl_raw_queue p) = Some (ok, q)" "p' = p\<lparr>pl_raw_queue := q\<rparr>"
    using assms(2) by (auto simp: submit_raw_message_def split: option.splits)
  have "bq_shutdown (pl_raw_queue p)" if "pl_parser p = ParserDone"
    using assms(1) that by (simp add: stages_defs)
  then show ?thesis
    using bq.push_ok [OF q(1)] assms(1) unfolding q(2)
    by (intro raw_queue_stages) (auto simp: stages_inv_def threads_inv_def)
qed

lemma start_stages:
  assumes "stages_inv p" and "start p = Some p'"
  shows "stages_inv p'"
  using assms by (auto simp: stages_defs start_def parser_over_def writer_over_def split: if_splits)

lemma parser_stages:
  assumes "stages_inv p" and "run_parser_stage J hash p = Some p'"
  shows "stages_inv p'"
proof (cases "pl_parser p")
  case ParserPop
  then obtain r q where pop: "bq_pop (pl_raw_queue p) = Some (r, q)"
    using assms(2) by (auto simp: run_parser_stage_def split: option.splits)
  have q: "bq_shutdown q = bq_shutdown (pl_raw_queue p)"
    using bq.pop_ok [OF pop] by blast
  then have p1: "stages_inv (p\<lparr>pl_raw_queue := q\<rparr>)"
    using assms(1) ParserPop by (intro raw_queue_stages) simp_all
  have fin: "bq_shutdown q \<and> bq_items q = []" if "r = None"
    using that bq.pop_ok [OF pop] bq.pop_blocks [of "pl_raw_queue p"] pop by auto
  have idx: "hash s mod length (pl_shards p) < length (pl_shards p)" for s
    using assms(1) by (simp add: stages_defs)
  consider "r = None" "p' = p\<lparr>pl_raw_queue := q, pl_parser := ParserDone\<rparr>"
    | "p' = p\<lparr>pl_raw_queue := q, pl_terminated := True\<rparr>"
    | "p' = p\<lparr>pl_raw_queue := q\<rparr>"
    | t where "p' = p\<lparr>pl_raw_queue := q, pl_parser := ParserPush t (hash (te_symbol t) mod length (pl_shards p))\<rparr>"
    using assms(2) ParserPop pop
    by (auto simp: run_parser_stage_def shard_index_for_symbol_def split: option.splits sum.splits)
  then show ?thesis
  proof cases
    case 1
    with p1 fin ParserPop show ?thesis
      by (auto simp: stages_defs parser_over_def)
  next
    case 4
    with p1 idx ParserPop show ?thesis
      by (auto simp: stages_defs parser_over_def)
  qed (use p1 in simp_all)
next
  case (ParserPush t i)
  then obtain ok q where push: "bq_push t (shard_queue p i) = Some (ok, q)"
    "p' = (set_shard_queue i q p)\<lparr>pl_parser := ParserPop\<rparr>"
    using assms(2) by (auto simp: run_parser_stage_def split: option.splits)
  show ?thesis
    using assms(1) ParserPush bq.push_ok [OF push(1)] unfolding push(2)
    by (auto simp: stages_defs parser_over_def)
qed (use assms(2) in \<open>simp_all add: run_parser_stage_def\<close>)

text \<open>An aggregation thread that is not done acts on its own shard.\<close>

lemma own_shard_threads:
  assumes "threads_inv p" and "i < length (pl_shards p)" and "bq_capacity q = bq_capacity (shard_queue p i)"
    and "st = AggDone \<Longrightarrow> bq_shutdown q \<and> bq_items q = []" and "pl_aggs p ! i \<noteq> AggDone"
  shows "threads_inv ((set_shard_queue i q p)\<lparr>pl_aggs := (pl_aggs p)[i := st]\<rparr>)"
    and "threads_inv ((set_shard_aggregator i a p)\<lparr>pl_aggs := (pl_aggs p)[i := AggPop]\<rparr>)"
  using assms by (auto simp: threads_inv_def nth_list_update split: if_splits)

lemma own_shard_order:
  assumes "order_inv p" and "i < length (pl_shards p)" and "i < length (pl_aggs p)"
    and "bq_shutdown q = bq_shutdown (shard_queue p i)" and "pl_aggs p ! i \<noteq> AggDone"
  shows "order_inv ((set_shard_queue i q p)\<lparr>pl_aggs := (pl_aggs p)[i := st]\<rparr>)"
    and "order_inv ((set_shard_aggregator i a p)\<lparr>pl_aggs := (pl_aggs p)[i := AggPop]\<rparr>)"
proof -
  have "\<not> i < joined_upto (length (pl_shards p)) (pl_stopper p)"
    using assms(1,3,5) by (auto simp: order_inv_def)
  moreover from this have "\<not> i < emptied_upto (length (pl_shards p)) (pl_stopper p)"
    using assms(2) by (cases "pl_stopper p") auto
  ultimately show "order_inv ((set_shard_queue i q p)\<lparr>pl_aggs := (pl_aggs p)[i := st]\<rparr>)"
    "order_inv ((set_shard_aggregator i a p)\<lparr>pl_aggs := (pl_aggs p)[i := AggPop]\<rparr>)"
    using assms(1,4) by (simp_all add: order_inv_def nth_list_update)
qed

lemma aggregation_stages:
  assumes "stages_inv p" and "run_aggregation_stage i p = Some p'"
  shows "stages_inv p'"
proof -
  have inv: "threads_inv p" "order_inv p"
    using assms(1) by (simp_all add: stages_inv_def)
  have i: "i < length (pl_aggs p)" "i < length (pl_shards p)"
    using assms(2) inv(1) by (auto simp: run_aggregation_stage_def threads_inv_def split: if_splits)
  show ?thesis
  proof (cases "pl_aggs p ! i")
    case AggPop
    then obtain r q where pop: "bq_pop (shard_queue p i) = Some (r, q)"
      "p' = (set_shard_queue i q p)\<lparr>pl_aggs := (pl_aggs p)[i := case r of None \<Rightarrow> AggDone | Some t \<Rightarrow> AggAdd t]\<rparr>"
      using assms(2) i(1) by (auto simp: run_aggregation_stage_def split: option.splits)
    have q: "bq_shutdown q = bq_shutdown (shard_queue p i)" "bq_capacity q = bq_capacity (shard_queue p i)"
      "r = None \<Longrightarrow> bq_shutdown q \<and> bq_items q = []"
      using bq.pop_ok [OF pop(1)] bq.pop_blocks [of "shard_queue p i"] pop(1) by auto
    show ?thesis
      unfolding pop(2) stages_inv_def using inv i q AggPop
      by (intro conjI own_shard_threads(1) own_shard_order(1)) (auto split: option.splits)
  next
    case (AggAdd t)
    show ?thesis
    proof (cases "add_trade (shard_agg p i) t")
      case None
      with AggAdd i(1) assms show ?thesis
        by (auto simp: run_aggregation_stage_def)
    next
      case (Some a)
      then have p': "p' = (set_shard_aggregator i a p)\<lparr>pl_aggs := (pl_aggs p)[i := AggPop]\<rparr>"
        using assms(2) AggAdd i(1) by (simp add: run_aggregation_stage_def)
      show ?thesis
        unfolding p' stages_inv_def using inv i AggAdd
        by (intro conjI own_shard_threads(2) own_shard_order(2)) auto
    qed
  qed (use assms(2) i in \<open>simp add: run_aggregation_stage_def\<close>)
qed

lemma writer_running:
  assumes "order_inv p" and "\<not> writer_over p"
  shows "\<not> bq_shutdown (pl_raw_queue p)" and "pl_stopper p = StopIdle \<or> pl_stopper p = StopJoinWriter"
proof -
  show raw: "\<not> bq_shutdown (pl_raw_queue p)"
    using assms by (auto simp: order_inv_def)
  then show "pl_stopper p = StopIdle \<or> pl_stopper p = StopJoinWriter"
    using assms(1) by (auto simp: order_inv_def past_writer_def)
qed

lemma running_writer_stages:
  assumes "stages_inv p" and "\<not> writer_over p" and "w \<noteq> WriterOff"
  shows "stages_inv (p\<lparr>pl_writer := w\<rparr>)" and "stages_inv ((set_shard_aggregator i a p)\<lparr>pl_writer := w\<rparr>)"
proof -
  have "\<not> bq_shutdown (pl_raw_queue p)" "pl_stopper p = StopIdle \<or> pl_stopper p = StopJoinWriter"
    using writer_running [OF _ assms(2)] assms(1) by (simp_all add: stages_inv_def)
  then show "stages_inv (p\<lparr>pl_writer := w\<rparr>)" "stages_inv ((set_shard_aggregator i a p)\<lparr>pl_writer := w\<rparr>)"
    using assms by (auto simp: stages_defs writer_over_def)
qed

lemma writer_stages:
  assumes "stages_inv p" and "run_writer_stage put now p = Some (e, p')"
  shows "stages_inv p'"
proof (cases "pl_writer p")
  case WriterWait
  then have "\<not> writer_over p"
    by (simp add: writer_over_def)
  from running_writer_stages(1) [OF assms(1) this] show ?thesis
    using assms WriterWait by (auto simp: run_writer_stage_def split: if_splits option.splits)
next
  case (WriterExtract c i ws)
  then have over: "\<not> writer_over p"
    by (simp add: writer_over_def)
  have "stages_inv (p\<lparr>pl_sink := sink, pl_writer := WriterWait, pl_terminated := b\<rparr>)" for sink b
    using running_writer_stages(1) [of "p\<lparr>pl_sink := sink\<rparr>" WriterWait] assms(1) over by simp
  then show ?thesis
    using assms(2) WriterExtract running_writer_stages(2) [OF assms(1) over]
    by (auto simp: run_writer_stage_def split: if_splits prod.splits)
qed (use assms(2) in \<open>simp_all add: run_writer_stage_def\<close>)

lemma stop_stages:
  assumes "stages_inv p" and "stop put p = Some (e, p')"
  shows "stages_inv p'"
proof (cases "pl_stopper p")
  case StopIdle
  with assms show ?thesis by (auto simp: stop_def stages_defs)
next
  case StopJoinWriter
  then have "writer_over p" "p' = p\<lparr>pl_raw_queue := bq_set_shutdown (pl_raw_queue p), pl_stopper := StopJoinParser\<rparr>"
    using assms(2) by (simp_all add: stop_def writer_over_def split: if_splits)
  with assms(1) StopJoinWriter show ?thesis
    by (auto simp: stages_defs bq_set_shutdown_def)
next
  case StopJoinParser
  then have "parser_over p" "p' = p\<lparr>pl_stopper := StopShutShards 0\<rparr>"
    using assms(2) by (simp_all add: stop_def parser_over_def split: if_splits)
  with assms(1) StopJoinParser show ?thesis
    by (simp add: stages_defs)
next
  case (StopShutShards i)
  then consider "i < length (pl_shards p)" "p' = (set_shard_queue i (bq_set_shutdown (shard_queue p i)) p)
        \<lparr>pl_stopper := StopShutShards (Suc i)\<rparr>"
    | "length (pl_shards p) \<le> i" "p' = p\<lparr>pl_stopper := StopJoinAggs 0\<rparr>"
    using assms(2) by (auto simp: stop_def split: if_splits)
  then show ?thesis
  proof cases
    case 1
    with assms(1) StopShutShards show ?thesis
      by (auto simp: stages_defs bq_set_shutdown_def less_Suc_eq split: if_splits)
  next
    case 2
    with assms(1) StopShutShards show ?thesis
      by (auto simp: stages_defs split: if_splits)
  qed
next
  case (StopJoinAggs i)
  then consider "i < length (pl_aggs p)" "pl_aggs p ! i = AggDone" "p' = p\<lparr>pl_stopper := StopJoinAggs (Suc i)\<rparr>"
    | "length (pl_aggs p) \<le> i" "p' = p\<lparr>pl_stopper := StopExtract 0 []\<rparr>"
    using assms(2) by (auto simp: stop_def split: if_splits)
  then show ?thesis
  proof cases
    case 1
    have "j < Suc i \<Longrightarrow> pl_aggs p ! j = AggDone" for j
      using assms(1) StopJoinAggs 1(1,2) by (cases "j = i") (simp_all add: stages_inv_def order_inv_def)
    with assms(1) StopJoinAggs 1(3) show ?thesis
      by (simp add: stages_defs)
  next
    case 2
    with assms(1) StopJoinAggs show ?thesis
      by (simp add: stages_defs)
  qed
next
  case (StopExtract i ws)
  have shape: "(p\<lparr>pl_sink := sink, pl_stopper := st, pl_terminated := b\<rparr>)
      = ((p\<lparr>pl_stopper := st\<rparr>)\<lparr>pl_sink := sink\<rparr>)\<lparr>pl_terminated := b\<rparr>" for sink st b
    by simp
  have [simp]: "agg_windows (snd (extract_all_windows a)) = []" for a
    by (simp add: extract_all_windows_def)
  from StopExtract consider "i < length (pl_shards p)"
      "p' = (set_shard_aggregator i (snd (extract_all_windows (shard_agg p i))) p)
         \<lparr>pl_stopper := StopExtract (Suc i) (ws @ fst (extract_all_windows (shard_agg p i)))\<rparr>"
    | sink b where "length (pl_shards p) \<le> i" "p' = p\<lparr>pl_sink := sink, pl_stopper := Stopped, pl_terminated := b\<rparr>"
    using assms(2) by (auto simp: stop_def split: if_splits prod.splits)
  then show ?thesis
  proof cases
    case 1
    with assms(1) StopExtract show ?thesis
      by (auto simp: stages_defs less_Suc_eq split: if_splits)
  next
    case 2
    have "stages_inv (p\<lparr>pl_stopper := Stopped\<rparr>)"
      using assms(1) StopExtract 2(1) by (auto simp: stages_defs split: if_splits)
    then show ?thesis
      unfolding 2(2) shape by (simp only: stages_inv_sink stages_inv_terminated)
  qed
next
  case Stopped
  with assms show ?thesis by (auto simp: stop_def stages_defs)
qed

lemma step_stages:
  assumes "stages_inv p" and "pipeline_step J hash put act p = Some (e, p')"
  shows "stages_inv p'"
  using assms by (cases act)
    (auto simp: pipeline_step_def split: if_splits
      intro: start_stages submit_stages parser_stages aggregation_stages writer_stages stop_stages)

lemma run_stages:
  assumes "pipeline_run J hash put (MarketDataPipeline_new w f cap sink n) es p"
  shows "stages_inv p"
  using assms by (induction rule: pipeline_run.induct) (auto intro: stages_inv_new step_stages)

end
