(* ===== verification/Pipeline_Accounting.thy ===== *)
theory Pipeline_Accounting
  imports Pipeline_Shutdown
begin

text \<open>
  Where every trade is. At any moment of any interleaving, a trade whose message the pipeline
  accepted is in the raw queue, in the parser's hand, in a shard's queue, in an aggregation
  thread's hand, in a shard's aggregator, or in exactly one window already extracted.
\<close>

section \<open>The places\<close>

definition trade_of :: "'j json_lib \<Rightarrow> string \<Rightarrow> TradeEvent option" where
  "trade_of J msg = (case BinanceTradeParser_parse J msg of Inr (Some t) \<Rightarrow> Some t | _ \<Rightarrow> None)"

definition trades_of :: "'j json_lib \<Rightarrow> string list \<Rightarrow> TradeEvent list" where
  "trades_of J msgs = List.map_filter (trade_of J) msgs"

fun parser_trades :: "parser_state \<Rightarrow> TradeEvent list" where
  "parser_trades (ParserPush t i) = [t]"
| "parser_trades _ = []"

fun agg_trades :: "agg_state \<Rightarrow> TradeEvent list" where
  "agg_trades (AggAdd t) = [t]"
| "agg_trades _ = []"

fun writer_windows :: "writer_state \<Rightarrow> WindowStats list" where
  "writer_windows (WriterExtract c i ws) = ws"
| "writer_windows _ = []"

fun stop_windows :: "stop_state \<Rightarrow> WindowStats list" where
  "stop_windows (StopExtract i ws) = ws"
| "stop_windows _ = []"

definition queued :: "'s MarketDataPipeline \<Rightarrow> TradeEvent list" where
  "queued p = concat (map (\<lambda>s. bq_items (sh_queue s)) (pl_shards p))"

definition in_hand :: "'s MarketDataPipeline \<Rightarrow> TradeEvent list" where
  "in_hand p = parser_trades (pl_parser p) @ concat (map agg_trades (pl_aggs p))"

definition in_flight :: "'j json_lib \<Rightarrow> 's MarketDataPipeline \<Rightarrow> TradeEvent multiset" where
  "in_flight J p = mset (trades_of J (bq_items (pl_raw_queue p))) + mset (queued p) + mset (in_hand p)"

definition batch :: "'s MarketDataPipeline \<Rightarrow> WindowStats multiset" where
  "batch p = mset (writer_windows (pl_writer p)) + mset (stop_windows (pl_stopper p))"

definition summaries :: "(window_key \<times> TradeEvent list) list \<Rightarrow> WindowStats multiset" where
  "summaries gs = mset (map (\<lambda>(k, b). summary k b) gs)"

definition shards_hold :: "u64 \<Rightarrow> TradeEvent list list \<Rightarrow> 's MarketDataPipeline \<Rightarrow> bool" where
  "shards_hold W hs p \<longleftrightarrow> list_all2 (\<lambda>h s. store_rep h (sh_aggregator s)
     \<and> agg_window_ms (sh_aggregator s) = W) hs (pl_shards p)"

definition account ::
    "u64 \<Rightarrow> 'j json_lib \<Rightarrow> string list \<Rightarrow> WindowStats list \<Rightarrow> 's MarketDataPipeline \<Rightarrow> bool" where
  "account W J acc out p \<longleftrightarrow>
     (\<exists>gs hs. shards_hold W hs p \<and> grouped (trade_key W) gs
        \<and> mset out + batch p = summaries gs
        \<and> group_items gs + mset (concat hs) + in_flight J p = mset (trades_of J acc))"

lemma trades_of_simps [simp]:
  "trades_of J [] = []"
  "trades_of J (m # ms) = (case trade_of J m of None \<Rightarrow> trades_of J ms | Some t \<Rightarrow> t # trades_of J ms)"
  "trades_of J (xs @ ys) = trades_of J xs @ trades_of J ys"
  by (simp_all add: trades_of_def map_filter_def split: option.splits)

lemma summaries_append [simp]: "summaries (gs @ hs) = summaries gs + summaries hs"
  by (simp add: summaries_def)

section \<open>How a step moves trades\<close>

lemma queued_update:
  "i < length (pl_shards p) \<Longrightarrow>
     mset (queued (set_shard_queue i q p)) + mset (bq_items (shard_queue p i))
       = mset (queued p) + mset (bq_items q)"
  using mset_concat_update [of i "map (\<lambda>s. bq_items (sh_queue s)) (pl_shards p)" "bq_items q"]
  by (simp add: queued_def set_shard_queue_def map_update)

lemma queued_aggregator [simp]: "queued (set_shard_aggregator i a p) = queued p"
proof (cases "i < length (pl_shards p)")
  case True
  then have "(map (\<lambda>s. bq_items (sh_queue s)) (pl_shards p))[i := bq_items (shard_queue p i)]
      = map (\<lambda>s. bq_items (sh_queue s)) (pl_shards p)"
    by (metis list_update_id nth_map)
  then show ?thesis
    by (simp add: queued_def set_shard_aggregator_def map_update)
qed (simp add: queued_def set_shard_aggregator_def list_update_beyond)

lemma queued_simps [simp]:
  "queued (p\<lparr>pl_raw_queue := rq\<rparr>) = queued p" "queued (p\<lparr>pl_parser := ps\<rparr>) = queued p"
  "queued (p\<lparr>pl_aggs := as\<rparr>) = queued p" "queued (p\<lparr>pl_writer := w\<rparr>) = queued p"
  "queued (p\<lparr>pl_stopper := st\<rparr>) = queued p" "queued (p\<lparr>pl_terminated := b\<rparr>) = queued p"
  "queued (p\<lparr>pl_sink := sink\<rparr>) = queued p" "queued (p\<lparr>pl_stop_requested := b\<rparr>) = queued p"
  by (simp_all add: queued_def)

lemma shards_hold_simps [simp]:
  "shards_hold W hs (p\<lparr>pl_raw_queue := rq\<rparr>) = shards_hold W hs p"
  "shards_hold W hs (p\<lparr>pl_parser := ps\<rparr>) = shards_hold W hs p"
  "shards_hold W hs (p\<lparr>pl_aggs := as\<rparr>) = shards_hold W hs p"
  "shards_hold W hs (p\<lparr>pl_writer := w\<rparr>) = shards_hold W hs p"
  "shards_hold W hs (p\<lparr>pl_stopper := st\<rparr>) = shards_hold W hs p"
  "shards_hold W hs (p\<lparr>pl_terminated := b\<rparr>) = shards_hold W hs p"
  "shards_hold W hs (p\<lparr>pl_sink := sink\<rparr>) = shards_hold W hs p"
  "shards_hold W hs (p\<lparr>pl_stop_requested := b\<rparr>) = shards_hold W hs p"
  by (simp_all add: shards_hold_def)

lemma shards_hold_queue [simp]:
  "shards_hold W hs p \<Longrightarrow> shards_hold W hs (set_shard_queue i q p)"
  unfolding shards_hold_def list_all2_conv_all_nth by simp

lemma shards_hold_nth:
  assumes "shards_hold W hs p" and "i < length (pl_shards p)"
  shows "store_rep (hs ! i) (shard_agg p i)" and "agg_window_ms (shard_agg p i) = W"
    and "i < length hs"
  using assms by (auto simp: shards_hold_def list_all2_conv_all_nth)

lemma shards_hold_update:
  assumes "shards_hold W hs p" and "store_rep h a" and "agg_window_ms a = W"
  shows "shards_hold W (hs[i := h]) (set_shard_aggregator i a p)"
  using assms by (auto simp: shards_hold_def set_shard_aggregator_def intro!: list_all2_update_cong)

lemma hold_update:
  "i < length hs \<Longrightarrow> mset (concat (hs[i := h])) + mset (hs ! i) = mset (concat hs) + mset h"
  by (rule mset_concat_update)

lemma in_hand_aggs:
  "i < length (pl_aggs p) \<Longrightarrow>
     mset (in_hand (p\<lparr>pl_aggs := (pl_aggs p)[i := st]\<rparr>)) + mset (agg_trades (pl_aggs p ! i))
       = mset (in_hand p) + mset (agg_trades st)"
  using mset_concat_update [of i "map agg_trades (pl_aggs p)" "agg_trades st"]
  by (simp add: in_hand_def map_update)

text \<open>An extraction turns held trades into groups and their summaries.\<close>

lemma drain_account:
  assumes "store_rep h a"
  shows "\<exists>gs h'. grouped (trade_key (agg_window_ms a)) gs
     \<and> mset (fst (drain_windows c a)) = summaries gs
     \<and> store_rep h' (snd (drain_windows c a)) \<and> group_items gs + mset h' = mset h"
proof -
  obtain gs where "grouped (trade_key (agg_window_ms a)) gs"
    "fst (drain_windows c a) = map (\<lambda>(k, b). summary k b) gs"
    "group_items gs + mset (filter (\<lambda>t. \<not> drained c (trade_key (agg_window_ms a) t)) h) = mset h"
    using agg.drain_groups [OF assms, of c] by blast
  with agg.rep_drain [OF assms, of c] show ?thesis
    by (intro exI [of _ gs] exI [of _ "filter (\<lambda>t. \<not> drained c (trade_key (agg_window_ms a) t)) h"])
      (simp add: summaries_def)
qed

lemma account_cong:
  assumes "account W J acc out p" and "\<And>hs. shards_hold W hs p \<Longrightarrow> shards_hold W hs p'"
    and "mset out' + batch p' = mset out + batch p"
    and "mset (trades_of J acc') + in_flight J p = mset (trades_of J acc) + in_flight J p'"
  shows "account W J acc' out' p'"
proof -
  obtain gs hs where A: "shards_hold W hs p" "grouped (trade_key W) gs" "mset out + batch p = summaries gs"
    "group_items gs + mset (concat hs) + in_flight J p = mset (trades_of J acc)"
    using assms(1) by (auto simp: account_def)
  have "group_items gs + mset (concat hs) + in_flight J p' + in_flight J p
      = mset (trades_of J acc') + in_flight J p"
    using A(4) assms(4) by (metis add.assoc add.commute)
  then have "group_items gs + mset (concat hs) + in_flight J p' = mset (trades_of J acc')"
    by simp
  with A assms(2,3) show ?thesis
    unfolding account_def by metis
qed

lemma account_submit:
  assumes "account W J acc out p" and "submit_raw_message m p = Some (ok, p')"
  shows "account W J (if ok then acc @ [m] else acc) out p'"
proof -
  obtain q where q: "bq_push m (pl_raw_queue p) = Some (ok, q)" "p' = p\<lparr>pl_raw_queue := q\<rparr>"
    using assms(2) by (auto simp: submit_raw_message_def split: option.splits)
  have "bq_items q = (if ok then bq_items (pl_raw_queue p) @ [m] else bq_items (pl_raw_queue p))"
    using bq.push_ok [OF q(1)] by blast
  then show ?thesis
    by (intro account_cong [OF assms(1)])
      (auto simp: q(2) batch_def in_flight_def in_hand_def split: option.splits)
qed

lemma account_start:
  assumes "stages_inv p" and "account W J acc out p" and "start p = Some p'"
  shows "account W J acc out p'"
proof -
  have p: "pl_parser p = ParserOff" "pl_aggs p = []" "pl_writer p = WriterOff"
    "p' = p\<lparr>pl_parser := ParserPop, pl_aggs := replicate (length (pl_shards p)) AggPop,
            pl_writer := WriterWait\<rparr>"
    using assms(1,3) by (auto simp: start_def stages_defs split: if_splits)
  have "concat (map agg_trades (replicate n AggPop)) = []" for n
    by (induction n) simp_all
  then show ?thesis
    by (intro account_cong [OF assms(2)]) (simp_all add: p batch_def in_flight_def in_hand_def)
qed

lemma account_parser:
  assumes "stages_inv p" and "account W J acc out p" and "run_parser_stage J hash p = Some p'"
  shows "account W J acc out p'"
proof (cases "pl_parser p")
  case ParserPop
  then obtain r q where pop: "bq_pop (pl_raw_queue p) = Some (r, q)"
    using assms(3) by (auto simp: run_parser_stage_def split: option.splits)
  show ?thesis
    using assms(3) ParserPop pop bq.pop_ok [OF pop]
    by (intro account_cong [OF assms(2)])
      (auto simp: run_parser_stage_def batch_def in_flight_def in_hand_def trade_of_def
        split: option.splits sum.splits)
next
  case (ParserPush t i)
  then obtain ok q where push: "bq_push t (shard_queue p i) = Some (ok, q)"
    "p' = (set_shard_queue i q p)\<lparr>pl_parser := ParserPop\<rparr>"
    using assms(3) by (auto simp: run_parser_stage_def split: option.splits)
  have i: "i < length (pl_shards p)"
    using assms(1) ParserPush by (simp add: stages_defs)
  moreover have "\<not> bq_shutdown (shard_queue p i)"
    using assms(1) ParserPush i by (auto simp: stages_defs parser_over_def)
  ultimately have "mset (queued p') = mset (queued p) + {#t#}"
    using queued_update [OF i, of q] bq.push_ok [OF push(1)] by (simp add: push(2))
  then show ?thesis
    using ParserPush
    by (intro account_cong [OF assms(2)]) (simp_all add: push(2) batch_def in_flight_def in_hand_def)
qed (use assms(3) in \<open>simp_all add: run_parser_stage_def\<close>)

lemma account_drain:
  assumes "account W J acc out p" and "i < length (pl_shards p)"
    and "p' = (set_shard_aggregator i (snd (drain_windows c (shard_agg p i))) p)\<lparr>pl_writer := w, pl_stopper := st\<rparr>"
    and "batch p' = batch p + mset (fst (drain_windows c (shard_agg p i)))"
  shows "account W J acc out p'"
proof -
  obtain gs hs where A: "shards_hold W hs p" "grouped (trade_key W) gs" "mset out + batch p = summaries gs"
    "group_items gs + mset (concat hs) + in_flight J p = mset (trades_of J acc)"
    using assms(1) by (auto simp: account_def)
  note H = shards_hold_nth [OF A(1) assms(2)]
  obtain ds h where D: "grouped (trade_key W) ds"
    "mset (fst (drain_windows c (shard_agg p i))) = summaries ds"
    "store_rep h (snd (drain_windows c (shard_agg p i)))" "group_items ds + mset h = mset (hs ! i)"
    using drain_account [OF H(1), of c] by (auto simp: H(2))
  have "mset (concat (hs[i := h])) + (group_items ds + mset h) = mset (concat hs) + mset h"
    using hold_update [OF H(3), of h] unfolding D(4) .
  then have held: "mset (concat (hs[i := h])) + group_items ds = mset (concat hs)"
    by (simp flip: add.assoc)
  have "group_items (gs @ ds) + mset (concat (hs[i := h])) + in_flight J p
      = group_items gs + (mset (concat (hs[i := h])) + group_items ds) + in_flight J p"
    unfolding group_items_append by (simp only: ac_simps)
  then have "group_items (gs @ ds) + mset (concat (hs[i := h])) + in_flight J p
      = group_items gs + mset (concat hs) + in_flight J p"
    unfolding held .
  moreover have "in_flight J p' = in_flight J p"
    by (simp add: assms(3) in_flight_def in_hand_def)
  moreover have "mset out + batch p' = summaries (gs @ ds)"
    by (simp add: assms(4) D(2) add.assoc flip: A(3))
  moreover have "shards_hold W (hs[i := h]) p'"
    using shards_hold_update [OF A(1) D(3)] H(2) by (simp add: assms(3))
  ultimately show ?thesis
    using A(2,4) D(1) unfolding account_def by (metis grouped_append)
qed

lemma account_aggregation:
  assumes "stages_inv p" and "account W J acc out p" and "run_aggregation_stage i p = Some p'"
  shows "account W J acc out p'"
proof -
  have i: "i < length (pl_aggs p)" "i < length (pl_shards p)"
    using assms(1,3) by (auto simp: run_aggregation_stage_def stages_inv_def threads_inv_def split: if_splits)
  show ?thesis
  proof (cases "pl_aggs p ! i")
    case AggPop
    then obtain r q where pop: "bq_pop (shard_queue p i) = Some (r, q)"
      "p' = (set_shard_queue i q p)\<lparr>pl_aggs := (pl_aggs p)[i := case r of None \<Rightarrow> AggDone | Some t \<Rightarrow> AggAdd t]\<rparr>"
      using assms(3) i(1) by (auto simp: run_aggregation_stage_def split: option.splits)
    have "mset (queued p') + mset (in_hand p') = mset (queued p) + mset (in_hand p)"
      using bq.pop_ok [OF pop(1)] queued_update [OF i(2), of q] AggPop
        in_hand_aggs [OF i(1), of "case r of None \<Rightarrow> AggDone | Some t \<Rightarrow> AggAdd t"]
      by (cases r) (auto simp: pop(2) in_hand_def)
    then show ?thesis
      by (intro account_cong [OF assms(2)])
        (simp_all add: pop(2) batch_def in_flight_def add.assoc)
  next
    case (AggAdd t)
    show ?thesis
    proof (cases "add_trade (shard_agg p i) t")
      case None
      with AggAdd i assms show ?thesis
        by (auto simp: run_aggregation_stage_def batch_def in_flight_def in_hand_def
            intro!: account_cong [OF assms(2)])
    next
      case (Some a)
      then have p': "p' = (set_shard_aggregator i a p)\<lparr>pl_aggs := (pl_aggs p)[i := AggPop]\<rparr>"
        using assms(3) AggAdd i(1) by (simp add: run_aggregation_stage_def)
      obtain gs hs where A: "shards_hold W hs p" "grouped (trade_key W) gs" "mset out + batch p = summaries gs"
        "group_items gs + mset (concat hs) + in_flight J p = mset (trades_of J acc)"
        using assms(2) by (auto simp: account_def)
      note H = shards_hold_nth [OF A(1) i(2)]
      have a: "store_rep (hs ! i @ [t]) a" "agg_window_ms a = W"
        using add_trade_store [OF H(1) Some] H(2) by simp_all
      have "mset (concat (hs[i := hs ! i @ [t]])) = mset (concat hs) + {#t#}"
        using hold_update [OF H(3), of "hs ! i @ [t]"] by simp
      moreover have "in_flight J p = in_flight J p' + {#t#}"
        using in_hand_aggs [OF i(1), of AggPop] AggAdd
        by (simp add: p' in_flight_def in_hand_def)
      ultimately have "group_items gs + mset (concat (hs[i := hs ! i @ [t]])) + in_flight J p'
          = mset (trades_of J acc)"
        using A(4) by simp
      moreover have "shards_hold W (hs[i := hs ! i @ [t]]) p'"
        using shards_hold_update [OF A(1) a] by (simp add: p')
      moreover have "batch p' = batch p"
        by (simp add: p' batch_def)
      ultimately show ?thesis
        using A(2,3) unfolding account_def by metis
    qed
  qed (use assms(3) i in \<open>simp add: run_aggregation_stage_def\<close>)
qed

fun flushed_by :: "pipeline_event \<Rightarrow> WindowStats list" where
  "flushed_by (Flushed ws) = ws"
| "flushed_by _ = []"

lemma account_flush:
  assumes "account W J acc out p" and "batch p = mset ws + batch p'"
    and "p' = p\<lparr>pl_sink := sink, pl_writer := w, pl_stopper := st, pl_terminated := b\<rparr>"
  shows "account W J acc (out @ ws) p'"
  by (rule account_cong [OF assms(1)])
    (simp_all add: assms(2,3) in_flight_def in_hand_def)

lemma account_writer:
  assumes "account W J acc out p" and "run_writer_stage put now p = Some (e, p')"
  shows "account W J acc (out @ flushed_by e) p'"
proof (cases "pl_writer p")
  case WriterWait
  then show ?thesis
    using assms(2) by (intro account_cong [OF assms(1)])
      (auto simp: run_writer_stage_def batch_def in_flight_def in_hand_def split: if_splits option.splits)
next
  case (WriterExtract c i ws)
  show ?thesis
  proof (cases "i < length (pl_shards p)")
    case True
    let ?d = "drain_windows (Some c) (shard_agg p i)"
    have p': "p' = (set_shard_aggregator i (snd ?d) p)
        \<lparr>pl_writer := WriterExtract c (Suc i) (ws @ fst ?d), pl_stopper := pl_stopper p\<rparr>" "e = Extracted i (Some c)"
      using assms(2) WriterExtract True
      by (auto simp: run_writer_stage_def drain_windows_def split: prod.splits)
    from account_drain [OF assms(1) True p'(1)] show ?thesis
      by (simp add: p' batch_def WriterExtract)
  next
    case False
    then obtain sink b where p': "p' = p\<lparr>pl_sink := sink, pl_writer := WriterWait,
        pl_stopper := pl_stopper p, pl_terminated := b\<rparr>" "e = Flushed ws"
      using assms(2) WriterExtract by (auto simp: run_writer_stage_def split: prod.splits)
    have "batch p = mset ws + batch p'"
      by (simp add: p'(1) batch_def WriterExtract)
    from account_flush [OF assms(1) this p'(1)] show ?thesis
      by (simp add: p'(2))
  qed
qed (use assms(2) in \<open>simp_all add: run_writer_stage_def\<close>)

lemma account_stop:
  assumes "account W J acc out p" and "stop put p = Some (e, p')"
  shows "account W J acc (out @ flushed_by e) p'"
proof (cases "pl_stopper p")
  case (StopShutShards i)
  show ?thesis
  proof (cases "i < length (pl_shards p)")
    case True
    then have "mset (queued (set_shard_queue i (bq_set_shutdown (shard_queue p i)) p)) = mset (queued p)"
      using queued_update [OF True, of "bq_set_shutdown (shard_queue p i)"]
      by (simp add: bq_set_shutdown_def)
    then show ?thesis
      using assms(2) StopShutShards True by (intro account_cong [OF assms(1)])
        (auto simp: stop_def batch_def in_flight_def in_hand_def)
  next
    case False
    then show ?thesis
      using assms(2) StopShutShards by (intro account_cong [OF assms(1)])
        (auto simp: stop_def batch_def in_flight_def in_hand_def)
  qed
next
  case (StopExtract i ws)
  show ?thesis
  proof (cases "i < length (pl_shards p)")
    case True
    let ?d = "drain_windows None (shard_agg p i)"
    have p': "p' = (set_shard_aggregator i (snd ?d) p)
        \<lparr>pl_writer := pl_writer p, pl_stopper := StopExtract (Suc i) (ws @ fst ?d)\<rparr>" "e = Extracted i None"
      using assms(2) StopExtract True
      by (auto simp: stop_def drain_windows_def split: prod.splits)
    from account_drain [OF assms(1) True p'(1)] show ?thesis
      by (simp add: p' batch_def StopExtract)
  next
    case False
    then obtain sink b where p': "p' = p\<lparr>pl_sink := sink, pl_writer := pl_writer p,
        pl_stopper := Stopped, pl_terminated := b\<rparr>" "e = Flushed ws"
      using assms(2) StopExtract by (auto simp: stop_def split: prod.splits)
    have "batch p = mset ws + batch p'"
      by (simp add: p'(1) batch_def StopExtract)
    from account_flush [OF assms(1) this p'(1)] show ?thesis
      by (simp add: p'(2))
  qed
qed (use assms(2) in \<open>auto simp: stop_def batch_def in_flight_def in_hand_def bq_set_shutdown_def
      split: if_splits intro!: account_cong [OF assms(1)]\<close>)

fun accepted_by :: "pipeline_event \<Rightarrow> string list" where
  "accepted_by (Submitted m ok) = (if ok then [m] else [])"
| "accepted_by _ = []"

lemma aggregation_event_quiet [simp]:
  "accepted_by (aggregation_event i p) = []" "flushed_by (aggregation_event i p) = []"
  by (simp_all add: aggregation_event_def split: agg_state.split)

lemma events_snoc [simp]:
  "accepted_messages (es @ [e]) = accepted_messages es @ accepted_by e"
  "flushed_windows (es @ [e]) = flushed_windows es @ flushed_by e"
  by (cases e; simp add: accepted_messages_def flushed_windows_def)+

lemma account_step:
  assumes "stages_inv p" and "account W J acc out p" and "pipeline_step J hash put act p = Some (e, p')"
  shows "account W J (acc @ accepted_by e) (out @ flushed_by e) p'"
proof (cases act)
  case (Submit m)
  then obtain ok where ok: "submit_raw_message m p = Some (ok, p')" "e = Submitted m ok"
    using assms(3) by (auto simp: pipeline_step_def split: if_splits)
  from account_submit [OF assms(2) ok(1)] ok(2) show ?thesis
    by (cases ok) simp_all
next
  case (WriterRuns now)
  then have "run_writer_stage put now p = Some (e, p')"
    using assms(3) by (auto simp: pipeline_step_def split: if_splits)
  moreover from this have "accepted_by e = []"
    by (auto simp: run_writer_stage_def split: writer_state.splits if_splits option.splits prod.splits)
  ultimately show ?thesis
    using account_writer [OF assms(2)] by simp
next
  case StopRuns
  then have "stop put p = Some (e, p')"
    using assms(3) by (auto simp: pipeline_step_def split: if_splits)
  moreover from this have "accepted_by e = []"
    by (auto simp: stop_def split: stop_state.splits if_splits prod.splits)
  ultimately show ?thesis
    using account_stop [OF assms(2)] by simp
qed (use assms in \<open>auto simp: pipeline_step_def split: if_splits
      intro: account_start account_parser account_aggregation\<close>)

lemma account_new:
  assumes "W \<noteq> 0"
  shows "account W J [] [] (MarketDataPipeline_new W f cap sink n)"
proof -
  let ?p = "MarketDataPipeline_new W f cap sink n"
  have "store_rep [] (MarketDataAggregator_new W)"
    using represents_new assms by (simp add: store_rep_def MarketDataAggregator_new_def [THEN arg_cong, of agg_window_ms])
  then have "shards_hold W (replicate (max n 1) []) ?p"
    by (simp add: shards_hold_def MarketDataPipeline_new_def Let_def Shard_new_def list_all2_conv_all_nth
        MarketDataAggregator_new_def [THEN arg_cong, of agg_window_ms])
  moreover have "concat (replicate k []) = []" for k
    by (induction k) simp_all
  moreover have "in_flight J ?p = {#}" "batch ?p = {#}"
    by (simp_all add: in_flight_def in_hand_def queued_def batch_def MarketDataPipeline_new_def Let_def
        Shard_new_def BoundedQueue_new_def)
  ultimately show ?thesis
    unfolding account_def
    by (intro exI [of _ "[]"] exI [of _ "replicate (max n 1) []"])
      (simp add: grouped_def summaries_def group_items_def)
qed

lemma run_account:
  assumes "pipeline_run J hash put (MarketDataPipeline_new W f cap sink n) es p" and "W \<noteq> 0"
  shows "account W J (accepted_messages es) (flushed_windows es) p"
  using assms(1)
proof (induction rule: pipeline_run.induct)
  case run_start
  then show ?case
    using account_new [OF assms(2)] by (simp add: accepted_messages_def flushed_windows_def)
next
  case (run_step es p act e p')
  from account_step [OF run_stages [OF run_step(1)] run_step(3,2)] show ?case by simp
qed

section \<open>After stop\<close>

lemma store_rep_empty:
  assumes "store_rep h a" and "agg_windows a = []"
  shows "h = []"
proof (cases h)
  case (Cons t ts)
  have "agg_stats a = spec_stats (agg_window_ms a) h"
    using assms(1) by (simp add: store_rep_def represents_def)
  moreover have "agg_stats a k = None" for k
    using assms(2) by (simp add: agg_stats_def window_stats_def)
  ultimately have "spec_stats (agg_window_ms a) h (trade_key (agg_window_ms a) t) = None"
    by metis
  then show ?thesis
    by (simp add: spec_stats_def bucket_def Cons split: if_splits)
qed simp

lemma stopped_empty:
  assumes "stages_inv p" and "pl_stopper p = Stopped" and "pl_parser p \<noteq> ParserOff"
  shows "in_flight J p = {#}" and "batch p = {#}" and "shards_hold W hs p \<Longrightarrow> concat hs = []"
proof -
  have inv: "threads_inv p" "order_inv p"
    using assms(1) by (simp_all add: stages_inv_def)
  have over: "pl_parser p = ParserDone" "pl_writer p = WriterDone"
    using inv assms(2,3) by (auto simp: order_inv_def threads_inv_def parser_over_def writer_over_def)
  have len: "length (pl_aggs p) = length (pl_shards p)"
    using inv(1) assms(3) by (simp add: threads_inv_def)
  have aggs: "pl_aggs p ! i = AggDone" if "i < length (pl_aggs p)" for i
    using inv(2) assms(2) that len by (simp add: order_inv_def)
  then have "\<forall>s \<in> set (pl_aggs p). agg_trades s = []"
    by (auto simp: in_set_conv_nth)
  moreover have "\<forall>i < length (pl_shards p). bq_items (shard_queue p i) = []"
    using inv(1) aggs len by (simp add: threads_inv_def)
  then have "\<forall>s \<in> set (pl_shards p). bq_items (sh_queue s) = []"
    by (auto simp: in_set_conv_nth)
  moreover have "bq_items (pl_raw_queue p) = []"
    using inv(1) over(1) by (simp add: threads_inv_def)
  ultimately show "in_flight J p = {#}"
    using over(1) by (simp add: in_flight_def in_hand_def queued_def)
  show "batch p = {#}"
    by (simp add: batch_def over(2) assms(2))
  show "concat hs = []" if hs: "shards_hold W hs p"
  proof -
    have "hs ! i = []" if "i < length (pl_shards p)" for i
      using store_rep_empty [OF shards_hold_nth(1) [OF hs that]] inv(2) assms(2) that
      by (simp add: order_inv_def)
    then show ?thesis
      using hs by (auto simp: shards_hold_def list_all2_conv_all_nth in_set_conv_nth)
  qed
qed

lemma stopped_conserves:
  assumes "pipeline_run J hash put (MarketDataPipeline_new W interval capacity sink threads) es p"
    and "W \<noteq> 0" and "pl_parser p \<noteq> ParserOff" and "pl_stopper p = Stopped"
  shows "\<exists>gs. grouped (trade_key W) gs
     \<and> mset (flushed_windows es) = mset (map (\<lambda>(k, b). summary k b) gs)
     \<and> group_items gs = mset (trades_of J (accepted_messages es))"
proof -
  obtain gs hs where A: "shards_hold W hs p" "grouped (trade_key W) gs"
    "mset (flushed_windows es) + batch p = summaries gs"
    "group_items gs + mset (concat hs) + in_flight J p = mset (trades_of J (accepted_messages es))"
    using run_account [OF assms(1,2)] by (auto simp: account_def)
  note E = stopped_empty [OF run_stages [OF assms(1)] assms(4,3)]
  from A E(3) [OF A(1)] show ?thesis
    by (intro exI [of _ gs]) (simp add: E(1,2) summaries_def)
qed

section \<open>Properties\<close>

text \<open>
  No trade is lost or counted twice. Take any interleaving of submissions, parser,
  aggregation threads, periodic flushes and \<^verbatim>\<open>stop\<close>, with any number of shards, any hash
  function and any queue capacity. When \<^verbatim>\<open>stop\<close> has returned, the windows handed to the sink
  are the summaries of groups of trades, each group of one symbol and window, and the groups
  contain exactly the trades of the accepted messages, each as often as it was accepted.
\<close>

theorem pipeline_conserves_trades:
  assumes "pipeline_run J hash put (MarketDataPipeline_new W interval capacity sink threads) es p"
    and "W \<noteq> 0" and "pl_parser p \<noteq> ParserOff" and "pl_stopper p = Stopped"
  shows "\<exists>gs. grouped (trade_key W) gs
     \<and> mset (flushed_windows es) = mset (map (\<lambda>(k, b). summary k b) gs)
     \<and> group_items gs = mset (trades_of J (accepted_messages es))"
  using assms by (rule stopped_conserves)

text \<open>
  C9: at every moment every accepted trade is in exactly one place: in a window already
  handed out or in the hands of the flushing thread, in a shard's aggregator, or on its way
  there (raw queue, parser, shard queue, aggregation thread).
\<close>

theorem pipeline_accounts_for_every_trade:
  assumes "pipeline_run J hash put (MarketDataPipeline_new W interval capacity sink threads) es p"
    and "W \<noteq> 0"
  shows "\<exists>gs hs. grouped (trade_key W) gs
     \<and> mset (flushed_windows es) + batch p = mset (map (\<lambda>(k, b). summary k b) gs)
     \<and> list_all2 (\<lambda>h s. agg_stats (sh_aggregator s) = spec_stats W h) hs (pl_shards p)
     \<and> group_items gs + mset (concat hs) + in_flight J p = mset (trades_of J (accepted_messages es))"
proof -
  obtain gs hs where A: "shards_hold W hs p" "grouped (trade_key W) gs"
    "mset (flushed_windows es) + batch p = summaries gs"
    "group_items gs + mset (concat hs) + in_flight J p = mset (trades_of J (accepted_messages es))"
    using run_account [OF assms] by (auto simp: account_def)
  have "list_all2 (\<lambda>h s. agg_stats (sh_aggregator s) = spec_stats W h) hs (pl_shards p)"
    using A(1) unfolding shards_hold_def
    by (rule list_all2_mono) (auto simp: store_rep_def represents_def)
  with A show ?thesis
    by (auto simp: summaries_def)
qed

section \<open>A concrete run\<close>

text \<open>
  A schedule on two shards: a trade, a message that is not one, a periodic flush, a late
  trade for the window already flushed, and a stop that drains it.
\<close>

definition null_sink :: "string \<Rightarrow> unit \<Rightarrow> bool \<times> unit" where
  "null_sink t s = (True, s)"

lemma write_windows_null [simp]: "write_windows null_sink ws s = (True, s)"
proof -
  have "write_blocks null_sink bs s = (True, s)" for bs
    by (induction bs) (simp_all add: null_sink_def)
  then show ?thesis by (simp add: write_windows_eq)
qed

definition sample_trade :: TradeEvent where
  "sample_trade = \<lparr>te_symbol = ''BTCUSDT'', te_trade_id = 12345, te_price = from_raw 4301210000000,
      te_quantity = from_raw 50000000, te_trade_time_ms = 123456785, te_buyer_is_maker = True\<rparr>"

lemma sample_parse [simp]:
  "BinanceTradeParser_parse sample_lib ''raw'' = Inr (Some sample_trade)"
  "BinanceTradeParser_parse sample_lib ''combined'' = Inr (Some sample_trade)"
  "BinanceTradeParser_parse sample_lib ''noise'' = Inr None"
  by code_simp+

definition example_schedule :: "pipeline_action list" where
  "example_schedule =
     [Start, Submit ''raw'', Submit ''noise'', Submit ''combined'', ParserRuns, ParserRuns,
      AggregatorRuns 0, AggregatorRuns 0, WriterRuns 200000000, WriterRuns 0, WriterRuns 0, WriterRuns 0,
      StopRuns, WriterRuns 0, StopRuns, ParserRuns, ParserRuns, ParserRuns, ParserRuns,
      StopRuns, StopRuns, AggregatorRuns 0, AggregatorRuns 0, AggregatorRuns 0, StopRuns, StopRuns,
      AggregatorRuns 1, StopRuns, StopRuns, StopRuns, StopRuns, StopRuns, StopRuns]"

lemmas pipeline_defs = pipeline_step_def aggregation_event_def start_def submit_raw_message_def run_parser_stage_def
  run_aggregation_stage_def run_writer_stage_def stop_def set_shard_queue_def set_shard_aggregator_def
  shard_index_for_symbol_def bq_defs

lemma replicate_2: "replicate 2 x = [x, x]"
  by (simp add: numeral_2_eq_2)

lemma example_run:
  "\<exists>es p. run_actions sample_lib (\<lambda>s. 0) null_sink example_schedule
     (MarketDataPipeline_new 1000 5000 16 () 2) = Some (es, p)
     \<and> accepted_messages es = [''raw'', ''noise'', ''combined''] \<and> length (flushed_windows es) = 2
     \<and> pl_stopper p = Stopped \<and> pl_parser p = ParserDone"
  by (simp add: example_schedule_def pipeline_defs MarketDataPipeline_new_def Let_def Shard_new_def
    BoundedQueue_new_def MarketDataAggregator_new_def sample_trade_def add_trade_def window_start_def
    extract_completed_windows_def extract_all_windows_def accepted_messages_def flushed_windows_def replicate_2)
theorem pipeline_conserves_trades_witness:
  "\<exists>es p gs. pipeline_run sample_lib (\<lambda>s. 0) null_sink (MarketDataPipeline_new 1000 5000 16 () 2) es p
     \<and> pl_stopper p = Stopped \<and> length (flushed_windows es) = 2
     \<and> grouped (trade_key 1000) gs \<and> group_items gs = {#sample_trade, sample_trade#}"
proof -
  obtain es p where run: "run_actions sample_lib (\<lambda>s. 0) null_sink example_schedule
      (MarketDataPipeline_new 1000 5000 16 () 2) = Some (es, p)"
    "accepted_messages es = [''raw'', ''noise'', ''combined'']" "length (flushed_windows es) = 2"
    "pl_stopper p = Stopped" "pl_parser p = ParserDone"
    using example_run by blast
  note reach = run_actions_run [OF run(1) run_start, simplified]
  have trades: "trades_of sample_lib (accepted_messages es) = [sample_trade, sample_trade]"
    by (simp add: run(2) trade_of_def)
  obtain gs where "grouped (trade_key 1000) gs"
    "group_items gs = mset (trades_of sample_lib (accepted_messages es))"
    using pipeline_conserves_trades [OF reach] run(4,5) by auto
  with reach run trades show ?thesis by auto
qed

theorem pipeline_accounts_for_every_trade_witness:
  "\<exists>es p gs hs. pipeline_run sample_lib (\<lambda>s. 0) null_sink (MarketDataPipeline_new 1000 5000 16 () 2) es p
     \<and> accepted_messages es = [''raw''] \<and> grouped (trade_key 1000) gs
     \<and> group_items gs + mset (concat hs) + in_flight sample_lib p = {#sample_trade#}"
proof -
  let ?p0 = "MarketDataPipeline_new 1000 5000 16 () 2"
  obtain es p where run: "run_actions sample_lib (\<lambda>s. 0) null_sink [Start, Submit ''raw'', ParserRuns] ?p0
      = Some (es, p)" "accepted_messages es = [''raw'']"
    by (simp add: pipeline_defs MarketDataPipeline_new_def Let_def BoundedQueue_new_def accepted_messages_def)
  note reach = run_actions_run [OF run(1) run_start, simplified]
  have trades: "trades_of sample_lib (accepted_messages es) = [sample_trade]"
    by (simp add: run(2) trade_of_def)
  obtain gs hs where "grouped (trade_key 1000) gs"
    "group_items gs + mset (concat hs) + in_flight sample_lib p
      = mset (trades_of sample_lib (accepted_messages es))"
    using pipeline_accounts_for_every_trade [OF reach] by auto
  with reach run trades show ?thesis by auto
qed

end
