(* ===== verification/Pipeline_Progress.thy ===== *)
theory Pipeline_Progress
  imports Pipeline_Accounting
begin

text \<open>
  The pipeline gets on: what it has written at any moment, that only a failing sink can end
  the process, that the steps of the writer and of \<^verbatim>\<open>stop\<close> carry out the flush functions, and
  that a call of \<^verbatim>\<open>stop\<close> is never stuck and returns after a number of steps that the work in
  the queues bounds.
\<close>

section \<open>What is written\<close>

fun event_blocks :: "pipeline_event \<Rightarrow> string list" where
  "event_blocks (Flushed ws) = blocks ws"
| "event_blocks _ = []"

definition run_blocks :: "pipeline_event list \<Rightarrow> string list" where
  "run_blocks es = concat (map event_blocks es)"

lemma run_blocks_simps [simp]:
  "run_blocks [] = []" "run_blocks (es @ [e]) = run_blocks es @ event_blocks e"
  by (simp_all add: run_blocks_def)

text \<open>Every step writes the blocks of its event, and ends the process when a write fails.\<close>

lemma set_shard_sink [simp]:
  "pl_sink (set_shard_queue i q p) = pl_sink p" "pl_sink (set_shard_aggregator i a p) = pl_sink p"
  by (simp_all add: set_shard_queue_def set_shard_aggregator_def)

definition writes_event ::
    "(string \<Rightarrow> 's \<Rightarrow> bool \<times> 's) \<Rightarrow> pipeline_event \<Rightarrow> 's MarketDataPipeline \<Rightarrow> 's MarketDataPipeline \<Rightarrow> bool" where
  "writes_event put e p p' \<longleftrightarrow>
     (case write_blocks put (event_blocks e) (pl_sink p) of (ok, sink) \<Rightarrow>
        pl_sink p' = sink \<and> (\<not> ok \<longrightarrow> pl_terminated p'))"

lemma aggregation_event_blocks [simp]: "event_blocks (aggregation_event i p) = []"
  by (simp add: aggregation_event_def split: agg_state.split)

lemma writes_event_quiet: "event_blocks e = [] \<Longrightarrow> pl_sink p' = pl_sink p \<Longrightarrow> writes_event put e p p'"
  by (simp add: writes_event_def)

lemma parser_sink: "run_parser_stage J hash p = Some p' \<Longrightarrow> pl_sink p' = pl_sink p"
  by (auto simp: run_parser_stage_def split: option.splits sum.splits parser_state.splits)

lemma aggregation_sink: "run_aggregation_stage i p = Some p' \<Longrightarrow> pl_sink p' = pl_sink p"
  by (auto simp: run_aggregation_stage_def split: if_splits option.splits agg_state.splits)

lemma writer_sink:
  assumes "run_writer_stage put now p = Some (e, p')"
  shows "writes_event put e p p'"
proof (cases "pl_writer p")
  case WriterWait
  with assms show ?thesis
    by (intro writes_event_quiet) (auto simp: run_writer_stage_def split: if_splits option.splits)
next
  case (WriterExtract c i ws)
  with assms show ?thesis
    by (cases "i < length (pl_shards p)")
      (auto simp: run_writer_stage_def write_windows_eq writes_event_def split: prod.splits)
qed (use assms in \<open>simp_all add: run_writer_stage_def\<close>)

lemma stop_sink:
  assumes "stop put p = Some (e, p')"
  shows "writes_event put e p p'"
proof (cases "pl_stopper p")
  case (StopExtract i ws)
  with assms show ?thesis
    by (cases "i < length (pl_shards p)")
      (auto simp: stop_def write_windows_eq writes_event_def split: prod.splits)
qed (use assms in \<open>auto simp: stop_def split: if_splits intro!: writes_event_quiet\<close>)

lemma step_sink:
  assumes "pipeline_step J hash put act p = Some (e, p')"
  shows "\<not> pl_terminated p" and "writes_event put e p p'"
proof -
  show run: "\<not> pl_terminated p"
    using assms by (auto simp: pipeline_step_def)
  show "writes_event put e p p'"
  proof (cases act)
    case (WriterRuns now)
    with assms run writer_sink show ?thesis by (simp add: pipeline_step_def)
  next
    case StopRuns
    with assms run stop_sink show ?thesis by (simp add: pipeline_step_def)
  qed (use assms run in \<open>auto simp: pipeline_step_def start_def submit_raw_message_def
        split: if_splits option.splits intro!: writes_event_quiet dest: parser_sink aggregation_sink\<close>)
qed

context output_sink
begin

lemma run_content:
  assumes "pipeline_run J hash put p0 es p" and "\<not> pl_terminated p"
  shows "content (pl_sink p) = content (pl_sink p0) @ concat (run_blocks es)"
  using assms
proof (induction rule: pipeline_run.induct)
  case (run_step es p act e p')
  have "write_blocks put (event_blocks e) (pl_sink p) = (True, pl_sink p')"
    using step_sink(2) [OF run_step(2)] run_step.prems by (auto simp: writes_event_def split: prod.splits)
  from write_blocks_verbatim [OF this] run_step.IH step_sink(1) [OF run_step(2)] show ?case by simp
qed simp

lemma run_content_prefix:
  assumes "pipeline_run J hash put p0 es p"
  shows "\<exists>out. content (pl_sink p) = content (pl_sink p0) @ out
     \<and> out = take (length out) (concat (run_blocks es)) \<and> (\<not> pl_terminated p \<longrightarrow> out = concat (run_blocks es))"
proof (cases "pl_terminated p")
  case False
  with run_content [OF assms] show ?thesis by auto
next
  case True
  from assms show ?thesis
  proof cases
    case (run_step es1 p1 act e)
    have w: "write_blocks put (event_blocks e) (pl_sink p1)
        = (fst (write_blocks put (event_blocks e) (pl_sink p1)), pl_sink p)"
      using step_sink(2) [OF run_step(3)] by (auto simp: writes_event_def split: prod.splits)
    obtain part where part: "content (pl_sink p) = content (pl_sink p1) @ part"
      "part = take (length part) (concat (event_blocks e))"
      using write_blocks_prefix [OF w] by blast
    let ?out = "concat (run_blocks es1) @ part"
    have "content (pl_sink p) = content (pl_sink p0) @ ?out"
      using run_content [OF run_step(2) step_sink(1) [OF run_step(3)]] part(1) by simp
    moreover have "?out = take (length ?out) (concat (run_blocks es))"
      using part(2) by (simp add: run_step(1))
    ultimately show ?thesis
      using True by blast
  qed auto
qed

end

section \<open>The steps of a flush\<close>

text \<open>
  The writer and the stopping thread extract shard by shard, other threads running in between.
  When none does, the steps amount to the flush functions of the source.
\<close>

lemma run_actions_append:
  "run_actions J hash put xs p = Some (es, p1) \<Longrightarrow> run_actions J hash put ys p1 = Some (es', p2) \<Longrightarrow>
     run_actions J hash put (xs @ ys) p = Some (es @ es', p2)"
proof (induction xs arbitrary: p es)
  case (Cons act xs)
  then obtain e p' es1 where "pipeline_step J hash put act p = Some (e, p')"
    "run_actions J hash put xs p' = Some (es1, p1)" "es = e # es1"
    by (auto split: option.splits)
  with Cons show ?case by simp
qed simp

lemma set_shard_aggregator_split:
  assumes "pl_shards p = pre @ s # shards"
  shows "set_shard_aggregator (length pre) a p = p\<lparr>pl_shards := pre @ s\<lparr>sh_aggregator := a\<rparr> # shards\<rparr>"
  using assms by (simp add: set_shard_aggregator_def)

lemma writer_extracts:
  assumes "pl_writer p = WriterExtract c (length pre) ws" and "\<not> pl_terminated p" and "pl_shards p = pre @ shards"
  shows "run_actions J hash put (replicate (length shards) (WriterRuns now)) p
     = Some (map (\<lambda>i. Extracted i (Some c)) [length pre..<length pre + length shards],
         p\<lparr>pl_shards := pre @ snd (drain_shards (Some c) shards),
           pl_writer := WriterExtract c (length (pl_shards p)) (ws @ fst (drain_shards (Some c) shards))\<rparr>)"
  using assms
proof (induction shards arbitrary: p pre ws)
  case Nil
  then show ?case by (cases p) simp
next
  case (Cons s shards)
  obtain out a where d: "drain_windows (Some c) (sh_aggregator s) = (out, a)"
    by (cases "drain_windows (Some c) (sh_aggregator s)")
  let ?p = "p\<lparr>pl_shards := (pre @ [s\<lparr>sh_aggregator := a\<rparr>]) @ shards, pl_writer := WriterExtract c (length (pre @ [s\<lparr>sh_aggregator := a\<rparr>])) (ws @ out)\<rparr>"
  have step: "pipeline_step J hash put (WriterRuns now) p = Some (Extracted (length pre) (Some c), ?p)"
    using Cons.prems d set_shard_aggregator_split [OF Cons.prems(3), of a]
    by (simp add: pipeline_step_def run_writer_stage_def drain_windows_def)
  have "run_actions J hash put (replicate (length shards) (WriterRuns now)) ?p
      = Some (map (\<lambda>i. Extracted i (Some c)) [length (pre @ [s\<lparr>sh_aggregator := a\<rparr>])..<length (pre @ [s\<lparr>sh_aggregator := a\<rparr>]) + length shards],
          ?p\<lparr>pl_shards := (pre @ [s\<lparr>sh_aggregator := a\<rparr>]) @ snd (drain_shards (Some c) shards),
             pl_writer := WriterExtract c (length (pl_shards ?p)) ((ws @ out) @ fst (drain_shards (Some c) shards))\<rparr>)"
    using Cons.prems(2) by (intro Cons.IH) simp_all
  with step show ?case
    using Cons.prems(3) by (simp del: upt_Suc add: d upt_conv_Cons split: prod.splits)
qed

lemma stop_extracts:
  assumes "pl_stopper p = StopExtract (length pre) ws" and "\<not> pl_terminated p" and "pl_shards p = pre @ shards"
  shows "run_actions J hash put (replicate (length shards) StopRuns) p
     = Some (map (\<lambda>i. Extracted i None) [length pre..<length pre + length shards],
         p\<lparr>pl_shards := pre @ snd (drain_shards None shards),
           pl_stopper := StopExtract (length (pl_shards p)) (ws @ fst (drain_shards None shards))\<rparr>)"
  using assms
proof (induction shards arbitrary: p pre ws)
  case Nil
  then show ?case by (cases p) simp
next
  case (Cons s shards)
  obtain out a where d: "drain_windows None (sh_aggregator s) = (out, a)"
    by (cases "drain_windows None (sh_aggregator s)")
  let ?p = "p\<lparr>pl_shards := (pre @ [s\<lparr>sh_aggregator := a\<rparr>]) @ shards, pl_stopper := StopExtract (length (pre @ [s\<lparr>sh_aggregator := a\<rparr>])) (ws @ out)\<rparr>"
  have step: "pipeline_step J hash put StopRuns p = Some (Extracted (length pre) None, ?p)"
    using Cons.prems d set_shard_aggregator_split [OF Cons.prems(3), of a]
    by (simp add: pipeline_step_def stop_def drain_windows_def)
  have "run_actions J hash put (replicate (length shards) StopRuns) ?p
      = Some (map (\<lambda>i. Extracted i None) [length (pre @ [s\<lparr>sh_aggregator := a\<rparr>])..<length (pre @ [s\<lparr>sh_aggregator := a\<rparr>]) + length shards],
          ?p\<lparr>pl_shards := (pre @ [s\<lparr>sh_aggregator := a\<rparr>]) @ snd (drain_shards None shards),
             pl_stopper := StopExtract (length (pl_shards ?p)) ((ws @ out) @ fst (drain_shards None shards))\<rparr>)"
    using Cons.prems(2) by (intro Cons.IH) simp_all
  with step show ?case
    using Cons.prems(3) by (simp del: upt_Suc add: d upt_conv_Cons split: prod.splits)
qed

section \<open>What can end the process\<close>

lemma aggregators_windowed:
  assumes "account W J acc out p" and "i < length (pl_shards p)"
  shows "agg_window_ms (shard_agg p i) = W"
  using assms shards_hold_nth(2) by (auto simp: account_def)

lemma step_window [simp]:
  assumes "pipeline_step J hash put act p = Some (e, p')"
  shows "pl_window_ms p' = pl_window_ms p"
  using assms
  by (cases act)
    (auto simp: pipeline_step_def start_def submit_raw_message_def run_parser_stage_def run_aggregation_stage_def
      run_writer_stage_def stop_def
      split: if_splits option.splits prod.splits sum.splits parser_state.splits agg_state.splits
        writer_state.splits stop_state.splits)

lemma run_window: "pipeline_run J hash put p0 es p \<Longrightarrow> pl_window_ms p = pl_window_ms p0"
  by (induction rule: pipeline_run.induct) simp_all

lemma step_terminated:
  assumes "json_documented J" and "stages_inv p" and "account W J acc out p" and "pl_window_ms p = W" and "W \<noteq> 0"
    and "pipeline_step J hash put act p = Some (e, p')" and "pl_terminated p'"
  shows "\<exists>ws. e = Flushed ws \<and> \<not> fst (write_windows put ws (pl_sink p))"
proof -
  have run: "\<not> pl_terminated p"
    using assms(6) by (rule step_sink(1))
  show ?thesis
  proof (cases act)
    case ParserRuns
    then have "run_parser_stage J hash p = Some p'"
      using assms(6) run by (auto simp: pipeline_step_def)
    moreover have "BinanceTradeParser_parse J m \<noteq> Inl f" for m f
      using parse_total [OF assms(1), of m] by auto
    ultimately show ?thesis
      using run assms(7)
      by (auto simp: run_parser_stage_def split: option.splits sum.splits parser_state.splits)
  next
    case (AggregatorRuns i)
    then have step: "run_aggregation_stage i p = Some p'"
      using assms(6) run by (auto simp: pipeline_step_def)
    then have "i < length (pl_shards p)"
      using assms(2) by (auto simp: run_aggregation_stage_def stages_inv_def threads_inv_def split: if_splits)
    then have "agg_window_ms (shard_agg p i) \<noteq> 0"
      using aggregators_windowed [OF assms(3)] assms(5) by simp
    then have "\<exists>a. add_trade (shard_agg p i) t = Some a" for t
      by (simp add: add_trade_def window_start_def Let_def)
    then obtain f where "add_trade (shard_agg p i) t = Some (f t)" for t
      by metis
    with step run assms(7) show ?thesis
      by (auto simp: run_aggregation_stage_def split: if_splits option.splits agg_state.splits)
  next
    case (WriterRuns now)
    then have "run_writer_stage put now p = Some (e, p')"
      using assms(6) run by (auto simp: pipeline_step_def)
    with run assms(4,5,7) show ?thesis
      by (cases "pl_writer p")
        (auto simp: run_writer_stage_def window_start_def split: if_splits prod.splits)
  next
    case StopRuns
    then have "stop put p = Some (e, p')"
      using assms(6) run by (auto simp: pipeline_step_def)
    with run assms(7) show ?thesis
      by (cases "pl_stopper p") (auto simp: stop_def split: if_splits prod.splits)
  qed (use assms(6,7) run in \<open>auto simp: pipeline_step_def start_def submit_raw_message_def
        split: if_splits option.splits\<close>)
qed

section \<open>A stop in progress is never stuck\<close>

definition stopping :: "'s MarketDataPipeline \<Rightarrow> bool" where
  "stopping p \<longleftrightarrow> pl_stopper p \<noteq> StopIdle \<and> pl_stopper p \<noteq> Stopped"

definition own_action :: "pipeline_action \<Rightarrow> bool" where
  "own_action act \<longleftrightarrow> (case act of Submit m \<Rightarrow> False | _ \<Rightarrow> True)"

lemma aggregator_enabled:
  assumes "i < length (pl_aggs p)" and "pl_aggs p ! i \<noteq> AggDone"
    and "bq_shutdown (shard_queue p i) \<or> bq_items (shard_queue p i) \<noteq> []"
  shows "run_aggregation_stage i p \<noteq> None"
  using assms bq.pop_blocks [of "shard_queue p i"]
  by (auto simp: run_aggregation_stage_def split: agg_state.splits option.splits)

lemma parser_enabled:
  assumes "threads_inv p" and "\<not> parser_over p" and "bq_shutdown (pl_raw_queue p) \<or> bq_items (pl_raw_queue p) \<noteq> []"
  shows "run_parser_stage J hash p \<noteq> None \<or> (\<exists>i. run_aggregation_stage i p \<noteq> None)"
proof (cases "pl_parser p")
  case ParserPop
  with assms(3) bq.pop_blocks [of "pl_raw_queue p"] show ?thesis
    by (auto simp: run_parser_stage_def split: option.splits sum.splits)
next
  case (ParserPush t i)
  show ?thesis
  proof (cases "bq_push t (shard_queue p i)")
    case None
    have i: "i < length (pl_shards p)" "length (pl_aggs p) = length (pl_shards p)"
      using assms(1) ParserPush by (simp_all add: threads_inv_def)
    have full: "\<not> bq_shutdown (shard_queue p i)" "bq_capacity (shard_queue p i) \<le> length (bq_items (shard_queue p i))"
      using None bq.push_blocks [of t "shard_queue p i"] by auto
    moreover have "0 < bq_capacity (shard_queue p i)"
      using assms(1) i(1) by (simp add: threads_inv_def)
    moreover have "pl_aggs p ! i \<noteq> AggDone"
      using assms(1) i full(1) by (auto simp: threads_inv_def)
    ultimately have "run_aggregation_stage i p \<noteq> None"
      using i by (intro aggregator_enabled) auto
    then show ?thesis by blast
  qed (use ParserPush in \<open>auto simp: run_parser_stage_def\<close>)
qed (use assms(2) in \<open>simp_all add: parser_over_def\<close>)

lemma writer_enabled:
  assumes "\<not> writer_over p" and "pl_stop_requested p"
  shows "run_writer_stage put now p \<noteq> None"
  using assms by (cases "pl_writer p")
    (auto simp: run_writer_stage_def writer_over_def split: prod.splits)

lemma stop_progress:
  assumes "stages_inv p" and "stopping p" and "\<not> pl_terminated p"
  shows "\<exists>act. own_action act \<and> pipeline_step J hash put act p \<noteq> None"
proof -
  have inv: "threads_inv p" "order_inv p"
    using assms(1) by (simp_all add: stages_inv_def)
  have by_parser: "run_parser_stage J hash p \<noteq> None \<Longrightarrow> ?thesis"
    using assms(3) by (intro exI [of _ ParserRuns]) (auto simp: own_action_def pipeline_step_def)
  have by_agg: "run_aggregation_stage i p \<noteq> None \<Longrightarrow> ?thesis" for i
    using assms(3) by (intro exI [of _ "AggregatorRuns i"]) (auto simp: own_action_def pipeline_step_def)
  have by_writer: "run_writer_stage put 0 p \<noteq> None \<Longrightarrow> ?thesis"
    using assms(3) by (intro exI [of _ "WriterRuns 0"]) (auto simp: own_action_def pipeline_step_def)
  have by_stop: "stop put p \<noteq> None \<Longrightarrow> ?thesis"
    using assms(3) by (intro exI [of _ StopRuns]) (auto simp: own_action_def pipeline_step_def)
  show ?thesis
  proof (cases "pl_stopper p")
    case StopJoinWriter
    then have "pl_stop_requested p"
      using inv(2) by (simp add: order_inv_def)
    then have "?thesis" if "\<not> writer_over p"
      using writer_enabled that by_writer by blast
    moreover have "stop put p \<noteq> None" if "writer_over p"
      using that StopJoinWriter by (simp add: stop_def writer_over_def)
    ultimately show ?thesis
      using by_stop by blast
  next
    case StopJoinParser
    then have "bq_shutdown (pl_raw_queue p)"
      using inv(2) by (simp add: order_inv_def)
    then have "?thesis" if "\<not> parser_over p"
      using parser_enabled [OF inv(1) that, of J hash] by_parser by_agg by blast
    moreover have "stop put p \<noteq> None" if "parser_over p"
      using that StopJoinParser by (simp add: stop_def parser_over_def)
    ultimately show ?thesis
      using by_stop by blast
  next
    case (StopJoinAggs i)
    show ?thesis
    proof (cases "i < length (pl_aggs p) \<and> pl_aggs p ! i \<noteq> AggDone")
      case True
      then have "i < length (pl_shards p)"
        using inv(1) by (auto simp: threads_inv_def split: if_splits)
      then have "bq_shutdown (shard_queue p i)"
        using inv(2) StopJoinAggs by (simp add: order_inv_def)
      with True show ?thesis
        by (intro by_agg [of i] aggregator_enabled) simp_all
    qed (use by_stop StopJoinAggs in \<open>auto simp: stop_def\<close>)
  qed (use by_stop assms(2) in \<open>auto simp: stop_def stopping_def split: prod.splits\<close>)
qed

section \<open>The work a stop has left\<close>

text \<open>
  An upper bound for the number of steps before \<^verbatim>\<open>stop\<close> returns: four for a message in the raw
  queue (taking it, passing it on, taking the trade, adding it), three for a trade in the
  parser's hand, two in a shard's queue, one in an aggregation thread's hand; one for every
  thread that has to notice the end; the extractions of the writer; the steps of \<^verbatim>\<open>stop\<close> itself.
\<close>

fun parser_work :: "parser_state \<Rightarrow> nat" where
  "parser_work ParserPop = 1"
| "parser_work (ParserPush t i) = 4"
| "parser_work _ = 0"

fun agg_work :: "agg_state \<Rightarrow> nat" where
  "agg_work AggPop = 1"
| "agg_work (AggAdd t) = 2"
| "agg_work AggDone = 0"

fun writer_work :: "nat \<Rightarrow> writer_state \<Rightarrow> nat" where
  "writer_work n WriterWait = 1"
| "writer_work n (WriterExtract c i ws) = 2 + (n - i)"
| "writer_work n _ = 0"

fun stop_work :: "nat \<Rightarrow> nat \<Rightarrow> stop_state \<Rightarrow> nat" where
  "stop_work n k StopIdle = 2 * n + k + 6"
| "stop_work n k StopJoinWriter = 2 * n + k + 5"
| "stop_work n k StopJoinParser = 2 * n + k + 4"
| "stop_work n k (StopShutShards i) = (n - i) + n + k + 3"
| "stop_work n k (StopJoinAggs i) = (k - i) + n + 2"
| "stop_work n k (StopExtract i ws) = (n - i) + 1"
| "stop_work n k Stopped = 0"

definition queue_work :: "'s MarketDataPipeline \<Rightarrow> nat" where
  "queue_work p = sum_list (map (\<lambda>s. 2 * length (bq_items (sh_queue s))) (pl_shards p))"

definition stop_bound :: "'s MarketDataPipeline \<Rightarrow> nat" where
  "stop_bound p = 4 * length (bq_items (pl_raw_queue p)) + parser_work (pl_parser p) + queue_work p
     + sum_list (map agg_work (pl_aggs p)) + writer_work (length (pl_shards p)) (pl_writer p)
     + stop_work (length (pl_shards p)) (length (pl_aggs p)) (pl_stopper p)"

lemma sum_list_update_nat:
  fixes xs :: "nat list"
  shows "i < length xs \<Longrightarrow> sum_list (xs[i := y]) + xs ! i = sum_list xs + y"
proof (induction xs arbitrary: i)
  case (Cons x xs)
  then show ?case by (cases i) auto
qed simp

lemma queue_work_update:
  "i < length (pl_shards p) \<Longrightarrow>
     queue_work (set_shard_queue i q p) + 2 * length (bq_items (shard_queue p i))
       = queue_work p + 2 * length (bq_items q)"
  using sum_list_update_nat [of i "map (\<lambda>s. 2 * length (bq_items (sh_queue s))) (pl_shards p)"]
  by (simp add: queue_work_def set_shard_queue_def map_update)

lemma queue_work_aggregator [simp]: "queue_work (set_shard_aggregator i a p) = queue_work p"
proof (cases "i < length (pl_shards p)")
  case True
  then have "(map (\<lambda>s. 2 * length (bq_items (sh_queue s))) (pl_shards p))[i := 2 * length (bq_items (shard_queue p i))]
      = map (\<lambda>s. 2 * length (bq_items (sh_queue s))) (pl_shards p)"
    by (metis (mono_tags, lifting) list_update_id nth_map)
  then show ?thesis
    by (simp add: queue_work_def set_shard_aggregator_def map_update)
qed (simp add: queue_work_def set_shard_aggregator_def list_update_beyond)

lemma queue_work_simps [simp]:
  "queue_work (p\<lparr>pl_raw_queue := rq\<rparr>) = queue_work p" "queue_work (p\<lparr>pl_parser := ps\<rparr>) = queue_work p"
  "queue_work (p\<lparr>pl_aggs := as\<rparr>) = queue_work p" "queue_work (p\<lparr>pl_writer := w\<rparr>) = queue_work p"
  "queue_work (p\<lparr>pl_stopper := st\<rparr>) = queue_work p" "queue_work (p\<lparr>pl_terminated := b\<rparr>) = queue_work p"
  "queue_work (p\<lparr>pl_sink := sink\<rparr>) = queue_work p" "queue_work (p\<lparr>pl_stop_requested := b\<rparr>) = queue_work p"
  by (simp_all add: queue_work_def)

lemma agg_work_update:
  "i < length as \<Longrightarrow> sum_list (map agg_work (as[i := st])) + agg_work (as ! i) = sum_list (map agg_work as) + agg_work st"
  using sum_list_update_nat [of i "map agg_work as"] by (simp add: map_update)

lemma parser_bound:
  assumes "stages_inv p" and "run_parser_stage J hash p = Some p'" and "\<not> pl_terminated p'"
  shows "stop_bound p' < stop_bound p"
proof (cases "pl_parser p")
  case ParserPop
  then obtain r q where pop: "bq_pop (pl_raw_queue p) = Some (r, q)"
    using assms(2) by (auto simp: run_parser_stage_def split: option.splits)
  show ?thesis
    using assms(2,3) ParserPop pop bq.pop_ok [OF pop]
    by (auto simp: run_parser_stage_def stop_bound_def split: option.splits sum.splits)
next
  case (ParserPush t i)
  then obtain ok q where push: "bq_push t (shard_queue p i) = Some (ok, q)"
    "p' = (set_shard_queue i q p)\<lparr>pl_parser := ParserPop\<rparr>"
    using assms(2) by (auto simp: run_parser_stage_def split: option.splits)
  have i: "i < length (pl_shards p)"
    using assms(1) ParserPush by (simp add: stages_defs)
  have "length (bq_items q) \<le> Suc (length (bq_items (shard_queue p i)))"
    using bq.push_ok [OF push(1)] by simp
  then have "queue_work p' \<le> queue_work p + 2"
    using queue_work_update [OF i, of q] by (simp add: push(2))
  then show ?thesis
    by (simp add: stop_bound_def push(2) ParserPush)
qed (use assms(2) in \<open>simp_all add: run_parser_stage_def\<close>)

lemma aggregation_bound:
  assumes "stages_inv p" and "run_aggregation_stage i p = Some p'" and "\<not> pl_terminated p'"
  shows "stop_bound p' < stop_bound p"
proof -
  have i: "i < length (pl_aggs p)" "i < length (pl_shards p)"
    using assms(1,2) by (auto simp: run_aggregation_stage_def stages_inv_def threads_inv_def split: if_splits)
  show ?thesis
  proof (cases "pl_aggs p ! i")
    case AggPop
    then obtain r q where pop: "bq_pop (shard_queue p i) = Some (r, q)"
      "p' = (set_shard_queue i q p)\<lparr>pl_aggs := (pl_aggs p)[i := case r of None \<Rightarrow> AggDone | Some t \<Rightarrow> AggAdd t]\<rparr>"
      using assms(2) i(1) by (auto simp: run_aggregation_stage_def split: option.splits)
    then show ?thesis
      using bq.pop_ok [OF pop(1)] queue_work_update [OF i(2), of q] AggPop
        agg_work_update [OF i(1), of "case r of None \<Rightarrow> AggDone | Some t \<Rightarrow> AggAdd t"]
      by (cases r) (auto simp: stop_bound_def)
  next
    case (AggAdd t)
    then obtain a where "p' = (set_shard_aggregator i a p)\<lparr>pl_aggs := (pl_aggs p)[i := AggPop]\<rparr>"
      using assms(2,3) i(1) by (auto simp: run_aggregation_stage_def split: option.splits)
    then show ?thesis
      using agg_work_update [OF i(1), of AggPop] AggAdd by (simp add: stop_bound_def)
  qed (use assms(2) i in \<open>simp add: run_aggregation_stage_def\<close>)
qed

lemma writer_bound:
  assumes "stages_inv p" and "stopping p" and "run_writer_stage put now p = Some (e, p')"
  shows "stop_bound p' < stop_bound p"
proof -
  have "pl_stop_requested p"
    using assms(1,2) by (simp add: stages_defs stopping_def)
  with assms(3) show ?thesis
    by (cases "pl_writer p") (auto simp: run_writer_stage_def stop_bound_def split: if_splits prod.splits)
qed

lemma stop_step_bound:
  assumes "stages_inv p" and "stopping p" and "stop put p = Some (e, p')"
  shows "stop_bound p' < stop_bound p"
proof (cases "pl_stopper p")
  case (StopShutShards i)
  have "i < length (pl_shards p) \<Longrightarrow>
      queue_work (set_shard_queue i (bq_set_shutdown (shard_queue p i)) p) = queue_work p"
    using queue_work_update [of i p "bq_set_shutdown (shard_queue p i)"] by (simp add: bq_set_shutdown_def)
  with assms(3) StopShutShards show ?thesis
    by (auto simp: stop_def stop_bound_def split: if_splits)
qed (use assms(2,3) in \<open>auto simp: stop_def stopping_def stop_bound_def bq_set_shutdown_def
      split: if_splits prod.splits\<close>)


text \<open>One step of a stop in progress: it goes on, and only a submission adds work.\<close>

lemma submit_bound:
  assumes "submit_raw_message m p = Some (ok, p')"
  shows "stop_bound p' = stop_bound p + (if ok then 4 else 0)"
proof -
  obtain q where q: "bq_push m (pl_raw_queue p) = Some (ok, q)" "p' = p\<lparr>pl_raw_queue := q\<rparr>"
    using assms by (auto simp: submit_raw_message_def split: option.splits)
  then show ?thesis
    using bq.push_ok [OF q(1)] by (simp add: stop_bound_def)
qed

lemma step_bound:
  assumes "stages_inv p" and "stopping p" and "pipeline_step J hash put act p = Some (e, p')"
    and "\<not> pl_terminated p'"
  shows "stop_bound p' + (if own_action act then 1 else 0) \<le> stop_bound p + 4 * length (accepted_by e)"
proof -
  have run: "\<not> pl_terminated p"
    using assms(3) by (rule step_sink(1))
  have *: ?thesis if "stop_bound p' < stop_bound p"
    using that by simp
  show ?thesis
  proof (cases act)
    case Start
    with assms(2,3) run show ?thesis
      by (auto simp: pipeline_step_def start_def stopping_def split: if_splits)
  next
    case (Submit m)
    then obtain ok where "submit_raw_message m p = Some (ok, p')" "e = Submitted m ok"
      using assms(3) run by (auto simp: pipeline_step_def)
    with submit_bound [OF this(1)] Submit show ?thesis
      by (simp add: own_action_def)
  next
    case ParserRuns
    with assms run show ?thesis
      by (intro * parser_bound) (auto simp: pipeline_step_def)
  next
    case (AggregatorRuns i)
    with assms run show ?thesis
      by (intro * aggregation_bound) (auto simp: pipeline_step_def)
  next
    case (WriterRuns now)
    with assms run show ?thesis
      by (intro * writer_bound) (auto simp: pipeline_step_def)
  next
    case StopRuns
    with assms run show ?thesis
      by (intro * stop_step_bound) (auto simp: pipeline_step_def)
  qed
qed

lemma stopping_step:
  assumes "stopping p" and "pipeline_step J hash put act p = Some (e, p')"
  shows "pl_stopper p' = Stopped \<or> stopping p'"
  using assms
  by (cases act)
    (auto simp: pipeline_step_def start_def submit_raw_message_def run_parser_stage_def run_aggregation_stage_def
      run_writer_stage_def stop_def stopping_def
      split: if_splits option.splits prod.splits sum.splits parser_state.splits agg_state.splits
        writer_state.splits stop_state.splits)

text \<open>Without further submissions some schedule ends the stop within the bound.\<close>

lemma stop_reachable:
  assumes "stages_inv p" and "stopping p" and "\<not> pl_terminated p"
  shows "\<exists>acts es p'. run_actions J hash put acts p = Some (es, p') \<and> list_all own_action acts
     \<and> length acts \<le> stop_bound p \<and> (pl_stopper p' = Stopped \<or> pl_terminated p')"
  using assms
proof (induction "stop_bound p" arbitrary: p rule: less_induct)
  case less
  obtain act e p1 where step: "own_action act" "pipeline_step J hash put act p = Some (e, p1)"
    using stop_progress [OF less.prems] by fastforce
  show ?case
  proof (cases "pl_stopper p1 = Stopped \<or> pl_terminated p1")
    case True
    have "0 < stop_bound p"
      using less.prems(2) by (cases "pl_stopper p") (simp_all add: stop_bound_def stopping_def)
    with True step show ?thesis
      by (intro exI [of _ "[act]"] exI [of _ "[e]"] exI [of _ p1]) simp
  next
    case False
    have "accepted_by e = []"
      using step by (cases act) (auto simp: pipeline_step_def own_action_def run_writer_stage_def stop_def
          split: if_splits option.splits prod.splits writer_state.splits stop_state.splits)
    then have dec: "Suc (stop_bound p1) \<le> stop_bound p"
      using step_bound [OF less.prems(1,2) step(2)] False step(1) by simp
    have "stopping p1"
      using stopping_step [OF less.prems(2) step(2)] False by blast
    then obtain acts es p' where "run_actions J hash put acts p1 = Some (es, p')" "list_all own_action acts"
      "length acts \<le> stop_bound p1" "pl_stopper p' = Stopped \<or> pl_terminated p'"
      using less.hyps [of p1] dec step_stages [OF less.prems(1) step(2)] False by auto
    with step dec show ?thesis
      by (intro exI [of _ "act # acts"] exI [of _ "e # es"] exI [of _ p']) simp
  qed
qed

text \<open>And every schedule that does not get there is short.\<close>

lemma schedule_bound:
  assumes "stages_inv p" and "stopping p" and "run_actions J hash put acts p = Some (es, p')"
    and "\<forall>k es1 p1. run_actions J hash put (take k acts) p = Some (es1, p1) \<longrightarrow>
           pl_stopper p1 \<noteq> Stopped \<and> \<not> pl_terminated p1"
  shows "length (filter own_action acts) \<le> stop_bound p + 4 * length (accepted_messages es)"
  using assms
proof (induction acts arbitrary: p es)
  case (Cons act acts)
  obtain e p1 es1 where step: "pipeline_step J hash put act p = Some (e, p1)"
    "run_actions J hash put acts p1 = Some (es1, p')" "es = e # es1"
    using Cons.prems(3) by (auto split: option.splits)
  have later: "\<forall>k es2 p2. run_actions J hash put (take k acts) p1 = Some (es2, p2) \<longrightarrow>
      pl_stopper p2 \<noteq> Stopped \<and> \<not> pl_terminated p2"
  proof (intro allI impI)
    fix k es2 p2
    assume "run_actions J hash put (take k acts) p1 = Some (es2, p2)"
    then have "run_actions J hash put (take (Suc k) (act # acts)) p = Some (e # es2, p2)"
      using step(1) by simp
    with Cons.prems(4) show "pl_stopper p2 \<noteq> Stopped \<and> \<not> pl_terminated p2" by blast
  qed
  then have p1: "pl_stopper p1 \<noteq> Stopped" "\<not> pl_terminated p1"
    by (metis run_actions.simps(1) take_0)+
  then have "stopping p1"
    using stopping_step [OF Cons.prems(2) step(1)] by blast
  from Cons.IH [OF step_stages [OF Cons.prems(1) step(1)] this step(2) later]
  have "length (filter own_action acts) \<le> stop_bound p1 + 4 * length (accepted_messages es1)" .
  moreover have "length (accepted_messages es) = length (accepted_by e) + length (accepted_messages es1)"
    by (cases e) (simp_all add: step(3) accepted_messages_def)
  ultimately show ?case
    using step_bound [OF Cons.prems(1,2) step(1) p1(2)] by (simp split: if_splits)
qed simp


lemma run_terminated:
  assumes "pipeline_run J hash put (MarketDataPipeline_new W interval capacity sink threads) es p"
    and "json_documented J" and "W \<noteq> 0" and "pl_terminated p"
  shows "\<exists>es1 p1 ws. es = es1 @ [Flushed ws]
     \<and> pipeline_run J hash put (MarketDataPipeline_new W interval capacity sink threads) es1 p1
     \<and> \<not> fst (write_windows put ws (pl_sink p1))"
  using assms(1)
proof cases
  case run_start
  with assms(4) show ?thesis by (simp add: MarketDataPipeline_new_def Let_def)
next
  case (run_step es1 p1 act e)
  have "pl_window_ms p1 = W"
    using run_window [OF run_step(2)] by (simp add: MarketDataPipeline_new_def Let_def)
  from step_terminated [OF assms(2) run_stages [OF run_step(2)] run_account [OF run_step(2) assms(3)]
      this assms(3) run_step(3) assms(4)] run_step(1,2)
  show ?thesis by blast
qed

section \<open>Properties\<close>

text \<open>
  The threads do what the flush functions say. When no other thread interferes, the
  writer's timed wait, its extractions and its write are \<^verbatim>\<open>flush_completed_windows\<close>, and the last
  part of \<^verbatim>\<open>stop\<close> is \<^verbatim>\<open>flush_remaining_windows\<close>: the same state, and the process ends exactly when
  the flush throws.
\<close>

theorem flush_steps_refine:
  assumes "\<not> pl_terminated p"
  shows "(pl_writer p = WriterWait \<and> \<not> pl_stop_requested p
        \<and> flush_completed_windows put now_ms p = Some (ok, p') \<longrightarrow>
          (\<exists>es. run_actions J hash put (replicate (length (pl_shards p) + 2) (WriterRuns now_ms)) p
             = Some (es, p'\<lparr>pl_terminated := \<not> ok\<rparr>)))
     \<and> (pl_stopper p = StopExtract 0 [] \<and> flush_remaining_windows put p = (ok, p') \<longrightarrow>
          (\<exists>es. run_actions J hash put (replicate (length (pl_shards p) + 1) StopRuns) p
             = Some (es, p'\<lparr>pl_stopper := Stopped, pl_terminated := \<not> ok\<rparr>)))"
proof (intro conjI impI; elim conjE)
  assume w: "pl_writer p = WriterWait" "\<not> pl_stop_requested p" "flush_completed_windows put now_ms p = Some (ok, p')"
  obtain c where c: "window_start (pl_window_ms p) now_ms = Some c"
    using w(3) by (auto simp: flush_completed_windows_def split: option.splits)
  let ?n = "length (pl_shards p)" and ?d = "drain_shards (Some c) (pl_shards p)"
  let ?p1 = "p\<lparr>pl_writer := WriterExtract c 0 []\<rparr>"
  let ?p2 = "?p1\<lparr>pl_shards := [] @ snd ?d, pl_writer := WriterExtract c (length (pl_shards ?p1)) ([] @ fst ?d)\<rparr>"
  have first: "run_actions J hash put [WriterRuns now_ms] p = Some ([Internal], ?p1)"
    using assms w(1,2) c by (simp add: pipeline_step_def run_writer_stage_def)
  have mid: "run_actions J hash put (replicate ?n (WriterRuns now_ms)) ?p1 = Some (map (\<lambda>i. Extracted i (Some c)) [0..<?n], ?p2)"
    using assms writer_extracts [of ?p1 c "[]" "[]" "pl_shards p" J hash put now_ms] by simp
  have "length (snd ?d) = ?n"
    by (simp add: drain_shards_state)
  then have final: "run_actions J hash put [WriterRuns now_ms] ?p2
      = Some ([Flushed (fst ?d)], p'\<lparr>pl_terminated := \<not> ok\<rparr>)"
    using assms w c
    by (cases p) (auto simp: pipeline_step_def run_writer_stage_def flush_completed_windows_def split: prod.splits)
  have "replicate (?n + 2) (WriterRuns now_ms)
      = [WriterRuns now_ms] @ replicate ?n (WriterRuns now_ms) @ [WriterRuns now_ms]"
    by (simp flip: replicate_append_same)
  then show "\<exists>es. run_actions J hash put (replicate (?n + 2) (WriterRuns now_ms)) p = Some (es, p'\<lparr>pl_terminated := \<not> ok\<rparr>)"
    using run_actions_append [OF first run_actions_append [OF mid final]] by metis
next
  assume st: "pl_stopper p = StopExtract 0 []" "flush_remaining_windows put p = (ok, p')"
  let ?n = "length (pl_shards p)" and ?d = "drain_shards None (pl_shards p)"
  let ?p2 = "p\<lparr>pl_shards := [] @ snd ?d, pl_stopper := StopExtract ?n ([] @ fst ?d)\<rparr>"
  have mid: "run_actions J hash put (replicate ?n StopRuns) p = Some (map (\<lambda>i. Extracted i None) [0..<?n], ?p2)"
    using assms st(1) stop_extracts [of p "[]" "[]" "pl_shards p" J hash put] by simp
  have "length (snd ?d) = ?n"
    by (simp add: drain_shards_state)
  then have final: "run_actions J hash put [StopRuns] ?p2
      = Some ([Flushed (fst ?d)], p'\<lparr>pl_stopper := Stopped, pl_terminated := \<not> ok\<rparr>)"
    using assms st
    by (cases p) (auto simp: pipeline_step_def stop_def flush_remaining_windows_def split: prod.splits)
  have "replicate (?n + 1) StopRuns = replicate ?n StopRuns @ [StopRuns]"
    by (simp flip: replicate_append_same)
  then show "\<exists>es. run_actions J hash put (replicate (?n + 1) StopRuns) p
      = Some (es, p'\<lparr>pl_stopper := Stopped, pl_terminated := \<not> ok\<rparr>)"
    using run_actions_append [OF mid final] by metis
qed

theorem flush_steps_refine_witness:
  "\<exists>p' es. flush_completed_windows null_sink 200000000 ((MarketDataPipeline_new 1000 5000 16 () 2)\<lparr>pl_writer := WriterWait\<rparr>)
       = Some (True, p')
     \<and> run_actions sample_lib (\<lambda>s. 0) null_sink [WriterRuns 200000000, WriterRuns 200000000, WriterRuns 200000000, WriterRuns 200000000]
         ((MarketDataPipeline_new 1000 5000 16 () 2)\<lparr>pl_writer := WriterWait\<rparr>) = Some (es, p'\<lparr>pl_terminated := False\<rparr>)"
proof -
  let ?p = "(MarketDataPipeline_new 1000 5000 16 () 2)\<lparr>pl_writer := WriterWait\<rparr>"
  have p: "\<not> pl_terminated ?p" "pl_writer ?p = WriterWait" "\<not> pl_stop_requested ?p" "length (pl_shards ?p) = 2"
    by (simp_all add: MarketDataPipeline_new_def Let_def)
  have "\<exists>p'. flush_completed_windows null_sink now q = Some (True, p')" if "pl_window_ms q \<noteq> 0" for now and q :: "unit MarketDataPipeline"
    using that by (auto simp: flush_completed_windows_def window_start_def split: prod.splits)
  moreover have "pl_window_ms ?p \<noteq> 0"
    by (simp add: MarketDataPipeline_new_def Let_def)
  ultimately obtain p' where flush: "flush_completed_windows null_sink 200000000 ?p = Some (True, p')"
    by blast
  have four: "replicate (length (pl_shards ?p) + 2) (WriterRuns 200000000)
      = [WriterRuns 200000000, WriterRuns 200000000, WriterRuns 200000000, WriterRuns 200000000]"
    unfolding p(4) by (simp add: numeral_eq_Suc)
  have "\<exists>es. run_actions sample_lib (\<lambda>s. 0) null_sink
      (replicate (length (pl_shards ?p) + 2) (WriterRuns 200000000)) ?p = Some (es, p'\<lparr>pl_terminated := \<not> True\<rparr>)"
    using flush_steps_refine [OF p(1), of null_sink 200000000 True p' sample_lib "\<lambda>s. 0"] p(2,3) flush by blast
  then show ?thesis
    unfolding four not_True_eq_False using flush by blast
qed

text \<open>
  C7: \<^verbatim>\<open>stop\<close> is never stuck. In every state any interleaving reaches while a stop is under
  way, some thread of the pipeline can take a step (no deadlock between the joins, the bounded
  queues and the mutexes), and some schedule of at most \<open>stop_bound\<close> steps of these threads
  either makes \<^verbatim>\<open>stop\<close> return or ends with the writing of a batch that fails, which ends the process.
\<close>

theorem pipeline_stop_returns:
  assumes "pipeline_run J hash put (MarketDataPipeline_new W interval capacity sink threads) es p"
    and "stopping p" and "\<not> pl_terminated p" and "json_documented J" and "W \<noteq> 0"
  shows "(\<exists>act. own_action act \<and> pipeline_step J hash put act p \<noteq> None)
     \<and> (\<exists>acts es' p'. run_actions J hash put acts p = Some (es', p') \<and> list_all own_action acts
          \<and> length acts \<le> stop_bound p
          \<and> (pl_stopper p' = Stopped \<and> \<not> pl_terminated p'
             \<or> (\<exists>es1 p1 ws. es @ es' = es1 @ [Flushed ws]
                  \<and> pipeline_run J hash put (MarketDataPipeline_new W interval capacity sink threads) es1 p1
                  \<and> \<not> fst (write_windows put ws (pl_sink p1)))))"
proof
  note stages = run_stages [OF assms(1)]
  from stop_progress [OF stages assms(2,3)] show "\<exists>act. own_action act \<and> pipeline_step J hash put act p \<noteq> None" .
  obtain acts es' p' where run: "run_actions J hash put acts p = Some (es', p')" "list_all own_action acts"
    "length acts \<le> stop_bound p" "pl_stopper p' = Stopped \<or> pl_terminated p'"
    using stop_reachable [OF stages assms(2,3)] by blast
  from run run_terminated [OF run_actions_run [OF run(1) assms(1)] assms(4,5)]
  show "\<exists>acts es' p'. run_actions J hash put acts p = Some (es', p') \<and> list_all own_action acts
      \<and> length acts \<le> stop_bound p
      \<and> (pl_stopper p' = Stopped \<and> \<not> pl_terminated p'
         \<or> (\<exists>es1 p1 ws. es @ es' = es1 @ [Flushed ws]
              \<and> pipeline_run J hash put (MarketDataPipeline_new W interval capacity sink threads) es1 p1
              \<and> \<not> fst (write_windows put ws (pl_sink p1))))"
    by blast
qed

text \<open>
  \<^verbatim>\<open>stop\<close> terminates whatever the scheduler does. From the request on, a schedule in which
  the stop has not returned (and no write has failed) contains at most \<open>stop_bound\<close> steps of the
  pipeline's own threads plus four for every message accepted in the meantime; so there is no
  livelock, and after the raw queue is closed the number of steps is bounded once and for all.
\<close>

theorem pipeline_stop_bounded:
  assumes "pipeline_run J hash put (MarketDataPipeline_new W interval capacity sink threads) es p"
    and "stopping p" and "run_actions J hash put acts p = Some (es', p')"
    and "stop_bound p + 4 * length (accepted_messages es') < length (filter own_action acts)"
  shows "\<exists>k es1 p1. run_actions J hash put (take k acts) p = Some (es1, p1)
     \<and> (pl_stopper p1 = Stopped \<or> pl_terminated p1)"
  using schedule_bound [OF run_stages [OF assms(1)] assms(2,3)] assms(4) by fastforce

text \<open>
  C12: only a failing sink ends the process. With a JSON library that keeps its documentation
  and a window length that is not zero, no message, no interleaving and no timing makes a stage
  throw: when the process is terminated, the last thing that happened was a batch whose writing
  failed.
\<close>

theorem pipeline_ends_only_by_failed_write:
  assumes "pipeline_run J hash put (MarketDataPipeline_new W interval capacity sink threads) es p"
    and "json_documented J" and "W \<noteq> 0" and "pl_terminated p"
  shows "\<exists>es1 p1 ws. es = es1 @ [Flushed ws]
     \<and> pipeline_run J hash put (MarketDataPipeline_new W interval capacity sink threads) es1 p1
     \<and> \<not> fst (write_windows put ws (pl_sink p1))"
  using assms by (rule run_terminated)

text \<open>
  C13: what is in the file. At any moment of any interleaving the output file is its content
  at the start followed by the blocks of the batches flushed so far, in order; after a failed
  write it may end within a block, but what is there is still a prefix of these blocks.
\<close>

theorem pipeline_file_content:
  assumes "pipeline_run J hash (FileOutputSink_write device)
      (MarketDataPipeline_new W interval capacity sink threads) es p"
    and "FileOutputSink_new open_append path = Some sink" and "open_append path = Some existing"
  shows "\<exists>out. fs_file (pl_sink p) = existing @ out
     \<and> out = take (length out) (concat (concat (map event_blocks es)))
     \<and> (\<not> pl_terminated p \<longrightarrow> out = concat (concat (map event_blocks es)))"
proof -
  have "fs_file (pl_sink (MarketDataPipeline_new W interval capacity sink threads)) = existing"
    using assms(2,3) by (auto simp: FileOutputSink_new_def MarketDataPipeline_new_def Let_def)
  with file_sink.run_content_prefix [OF assms(1)] show ?thesis
    by (simp add: run_blocks_def)
qed


section \<open>Concrete runs\<close>

text \<open>A stop requested while a message is still in the raw queue.\<close>

definition stop_requested_early :: "pipeline_action list" where
  "stop_requested_early = [Start, Submit ''raw'', StopRuns]"

lemmas small_run_simps = pipeline_defs MarketDataPipeline_new_def Let_def Shard_new_def BoundedQueue_new_def
  MarketDataAggregator_new_def replicate_2

lemma early_stop_run:
  "\<exists>es p. run_actions sample_lib (\<lambda>s. 0) null_sink stop_requested_early (MarketDataPipeline_new 1000 5000 16 () 2)
      = Some (es, p) \<and> stopping p \<and> \<not> pl_terminated p \<and> stop_bound p = 19 \<and> pl_writer p = WriterWait"
  by (simp add: stop_requested_early_def small_run_simps stopping_def stop_bound_def queue_work_def)

lemma early_stop_state:
  obtains es p where "pipeline_run sample_lib (\<lambda>s. 0) null_sink (MarketDataPipeline_new 1000 5000 16 () 2) es p"
    "stopping p" "\<not> pl_terminated p" "stop_bound p = 19" "pl_writer p = WriterWait"
    "run_actions sample_lib (\<lambda>s. 0) null_sink stop_requested_early (MarketDataPipeline_new 1000 5000 16 () 2)
      = Some (es, p)"
  using early_stop_run run_actions_run [OF _ run_start] by fastforce

theorem pipeline_stop_returns_witness:
  "\<exists>es p acts es' p'. pipeline_run sample_lib (\<lambda>s. 0) null_sink (MarketDataPipeline_new 1000 5000 16 () 2) es p
     \<and> stopping p \<and> run_actions sample_lib (\<lambda>s. 0) null_sink acts p = Some (es', p') \<and> length acts \<le> 19
     \<and> pl_stopper p' = Stopped \<and> \<not> pl_terminated p'"
proof -
  obtain es p where p: "pipeline_run sample_lib (\<lambda>s. 0) null_sink (MarketDataPipeline_new 1000 5000 16 () 2) es p"
    "stopping p" "\<not> pl_terminated p" "stop_bound p = 19"
    using early_stop_state by metis
  have "(1000 :: u64) \<noteq> 0" by simp
  from pipeline_stop_returns [OF p(1-3) sample_lib_documented this] p show ?thesis
    unfolding p(4) write_windows_null fst_conv by blast
qed

theorem pipeline_stop_bounded_witness:
  "\<exists>es p acts es' p'. pipeline_run sample_lib (\<lambda>s. 0) null_sink (MarketDataPipeline_new 1000 5000 16 () 2) es p
     \<and> stopping p \<and> 19 < length (filter own_action acts)
     \<and> run_actions sample_lib (\<lambda>s. 0) null_sink acts p = Some (es', p')
     \<and> (\<exists>k es1 p1. run_actions sample_lib (\<lambda>s. 0) null_sink (take k acts) p = Some (es1, p1)
          \<and> (pl_stopper p1 = Stopped \<or> pl_terminated p1))"
proof -
  obtain es p where p: "pipeline_run sample_lib (\<lambda>s. 0) null_sink (MarketDataPipeline_new 1000 5000 16 () 2) es p"
    "stopping p" "stop_bound p = 19"
    "run_actions sample_lib (\<lambda>s. 0) null_sink stop_requested_early (MarketDataPipeline_new 1000 5000 16 () 2)
      = Some (es, p)"
    using early_stop_state by metis
  let ?acts = "[WriterRuns 0, StopRuns, ParserRuns, ParserRuns, ParserRuns, StopRuns, StopRuns, StopRuns,
     AggregatorRuns 0, AggregatorRuns 0, AggregatorRuns 0, AggregatorRuns 1, StopRuns, StopRuns, StopRuns,
     StopRuns, StopRuns, StopRuns, StopRuns, StopRuns]"
  have "\<exists>es' p'. run_actions sample_lib (\<lambda>s. 0) null_sink ?acts p = Some (es', p') \<and> accepted_messages es' = []"
    using p(4) by (auto simp: stop_requested_early_def small_run_simps sample_trade_def add_trade_def
        window_start_def extract_all_windows_def accepted_messages_def)
  then obtain es' p' where run: "run_actions sample_lib (\<lambda>s. 0) null_sink ?acts p = Some (es', p')"
    "accepted_messages es' = []" by blast
  have many: "19 < length (filter own_action ?acts)"
    by (simp add: own_action_def)
  then have "stop_bound p + 4 * length (accepted_messages es') < length (filter own_action ?acts)"
    using p(3) run(2) by simp
  from pipeline_stop_bounded [OF p(1,2) run(1) this] p(1,2) run(1) many show ?thesis by blast
qed


text \<open>A periodic flush of one window, to a device that takes everything and to one that takes nothing.\<close>

definition one_flush :: "pipeline_action list" where
  "one_flush = [Start, Submit ''raw'', ParserRuns, ParserRuns, AggregatorRuns 0, AggregatorRuns 0,
     WriterRuns 200000000, WriterRuns 0, WriterRuns 0]"

lemma one_flush_run:
  "\<exists>es p ws. run_actions sample_lib (\<lambda>s. 0) put one_flush (MarketDataPipeline_new 1000 5000 16 sink 1)
      = Some (es, p) \<and> flushed_windows es = ws \<and> length ws = 1
     \<and> concat (map event_blocks es) = blocks ws
     \<and> pl_terminated p = (\<not> fst (write_windows put ws sink))"
  by (auto simp: one_flush_def small_run_simps sample_trade_def add_trade_def window_start_def
      extract_completed_windows_def flushed_windows_def split: prod.splits)


lemma blocks_Nil [simp]: "blocks ws = [] \<longleftrightarrow> ws = []"
  by (auto simp: blocks_def window_starts_def)

theorem pipeline_ends_only_by_failed_write_witness:
  "\<exists>es p es1 (p1 :: unit MarketDataPipeline) ws.
     pipeline_run sample_lib (\<lambda>s. 0) (\<lambda>t s. (False, s)) (MarketDataPipeline_new 1000 5000 16 () 1) es p
     \<and> pl_terminated p \<and> es = es1 @ [Flushed ws]
     \<and> \<not> fst (write_windows (\<lambda>t s. (False, s)) ws (pl_sink p1))"
proof -
  let ?put = "\<lambda>t s. (False, s) :: bool \<times> unit"
  obtain es p ws where run: "run_actions sample_lib (\<lambda>s. 0) ?put one_flush (MarketDataPipeline_new 1000 5000 16 () 1)
      = Some (es, p)" "length ws = 1" "pl_terminated p = (\<not> fst (write_windows ?put ws ()))"
    using one_flush_run [of ?put "()"] by blast
  have "blocks ws \<noteq> []"
    using run(2) by auto
  then have fin: "pl_terminated p"
    using run(3) by (cases "blocks ws") (simp_all add: write_windows_eq)
  have reach: "pipeline_run sample_lib (\<lambda>s. 0) ?put (MarketDataPipeline_new 1000 5000 16 () 1) es p"
    using run_actions_run [OF run(1) run_start] by simp
  have "(1000 :: u64) \<noteq> 0"
    by simp
  from pipeline_ends_only_by_failed_write [OF reach sample_lib_documented this fin]
  obtain es1 ws1 and p1 :: "unit MarketDataPipeline" where "es = es1 @ [Flushed ws1]" "\<not> fst (write_windows ?put ws1 (pl_sink p1))"
    by blast
  with reach fin show ?thesis
    by (intro exI [of _ es] exI [of _ p] exI [of _ es1] exI [of _ p1] exI [of _ ws1]) simp
qed

text \<open>A device that takes everything.\<close>

lemma write_windows_total:
  assumes "fs_good s"
  shows "write_windows (FileOutputSink_write (\<lambda>_. length)) ws s
     = (True, s\<lparr>fs_file := fs_file s @ concat (blocks ws)\<rparr>)"
proof -
  have "fs_good s \<Longrightarrow> write_blocks (FileOutputSink_write (\<lambda>_. length)) bs s
      = (True, s\<lparr>fs_file := fs_file s @ concat bs\<rparr>)" for bs s
    by (induction bs arbitrary: s) (auto simp: FileOutputSink_write_def stream_put_def Let_def)
  with assms show ?thesis by (simp add: write_windows_eq)
qed

theorem pipeline_file_content_witness:
  "\<exists>es p ws. pipeline_run sample_lib (\<lambda>s. 0) (FileOutputSink_write (\<lambda>_ t. length t))
       (MarketDataPipeline_new 1000 5000 16 \<lparr>fs_file = ''old'', fs_good = True\<rparr> 1) es p
     \<and> length ws = 1 \<and> \<not> pl_terminated p \<and> fs_file (pl_sink p) = ''old'' @ concat (blocks ws)"
proof -
  let ?put = "FileOutputSink_write (\<lambda>_ t. length t)" and ?sink = "\<lparr>fs_file = ''old'', fs_good = True\<rparr>"
  obtain es p ws where run: "run_actions sample_lib (\<lambda>s. 0) ?put one_flush (MarketDataPipeline_new 1000 5000 16 ?sink 1)
      = Some (es, p)" "length ws = 1" "concat (map event_blocks es) = blocks ws"
    "pl_terminated p = (\<not> fst (write_windows ?put ws ?sink))"
    using one_flush_run [of ?put ?sink] by blast
  have fin: "\<not> pl_terminated p"
    using run(4) by (simp add: write_windows_total)
  have reach: "pipeline_run sample_lib (\<lambda>s. 0) ?put (MarketDataPipeline_new 1000 5000 16 ?sink 1) es p"
    using run_actions_run [OF run(1) run_start] by simp
  have "FileOutputSink_new (\<lambda>_. Some ''old'') ''out'' = Some ?sink"
    by (simp add: FileOutputSink_new_def)
  from pipeline_file_content [OF reach this refl] fin run(3)
  have "fs_file (pl_sink p) = ''old'' @ concat (blocks ws)"
    by metis
  with reach run(2) fin show ?thesis by blast
qed

end
