(* ===== verification/Pipeline_History.thy ===== *)
theory Pipeline_History
  imports Pipeline_Accounting
begin

text \<open>
  What happens to the aggregator of one shard in the course of a run: the trades its thread
  adds and the extractions of the flushing threads, in their order. The aggregator is always
  the result of this history, the batches written are the outputs of the histories of all
  shards, and a trade only ever reaches the shard of its symbol. It follows that a run in which
  no trade comes late writes every window once and complete.
\<close>

section \<open>Histories\<close>

fun shard_op :: "nat \<Rightarrow> pipeline_event \<Rightarrow> (TradeEvent, u64 option) store_op list" where
  "shard_op i (Added j t) = (if j = i then [Add t] else [])"
| "shard_op i (Extracted j c) = (if j = i then [Drain c] else [])"
| "shard_op i _ = []"

abbreviation shard_history :: "nat \<Rightarrow> pipeline_event list \<Rightarrow> (TradeEvent, u64 option) store_op list" where
  "shard_history i es \<equiv> concat (map (shard_op i) es)"

abbreviation run_shard ::
    "(TradeEvent, u64 option) store_op list \<Rightarrow> MarketDataAggregator \<Rightarrow> (WindowStats list \<times> MarketDataAggregator) option" where
  "run_shard \<equiv> run_store add_trade drain_windows"

text \<open>
  A trade comes late when a periodic flush has already extracted windows beyond the trade's own
  from its shard. \<open>punctual\<close> says that this never happens in a run with \<open>n\<close> shards.
\<close>

definition late :: "u64 option \<Rightarrow> window_key \<Rightarrow> bool" where
  "late c k = (case c of None \<Rightarrow> False | Some w \<Rightarrow> snd k < w)"

definition punctual :: "nat \<Rightarrow> u64 \<Rightarrow> pipeline_event list \<Rightarrow> bool" where
  "punctual n W es = list_all (\<lambda>i. timely late (trade_key W) [] (shard_history i es)) [0..<n]"

text \<open>The reference: group the trades by symbol and window, and summarise every group.\<close>

definition reference_windows :: "u64 \<Rightarrow> TradeEvent list \<Rightarrow> WindowStats list" where
  "reference_windows W ts = map (\<lambda>k. summary k (bucket W k ts)) (remdups (map (trade_key W) ts))"

lemma stats_key_summary [simp]: "stats_key (summary k b) = k"
  by (simp add: stats_key_def summary_def)

section \<open>A step and the histories\<close>

definition history_step :: "pipeline_event \<Rightarrow> 's MarketDataPipeline \<Rightarrow> 's MarketDataPipeline \<Rightarrow> bool" where
  "history_step e p p' \<longleftrightarrow> length (pl_shards p') = length (pl_shards p)
     \<and> (\<exists>out. (\<forall>i < length (pl_shards p). run_shard (shard_op i e) (shard_agg p i) = Some (out i, shard_agg p' i))
          \<and> mset (flushed_by e) + batch p' = batch p + (\<Sum>i < length (pl_shards p). mset (out i)))"

lemma history_quiet:
  assumes "length (pl_shards p') = length (pl_shards p)"
    and "\<And>i. i < length (pl_shards p) \<Longrightarrow> shard_agg p' i = shard_agg p i"
    and "\<And>i. shard_op i e = []" and "mset (flushed_by e) + batch p' = batch p"
  shows "history_step e p p'"
  unfolding history_step_def using assms by (intro conjI exI [of _ "\<lambda>i. []"]) simp_all

lemma history_drain:
  assumes "i < length (pl_shards p)"
    and "p' = (set_shard_aggregator i (snd (drain_windows c (shard_agg p i))) p)\<lparr>pl_writer := w, pl_stopper := st\<rparr>"
    and "batch p' = batch p + mset (fst (drain_windows c (shard_agg p i)))"
  shows "history_step (Extracted i c) p p'"
proof -
  let ?out = "\<lambda>j. if j = i then fst (drain_windows c (shard_agg p i)) else []"
  have "(\<Sum>j < length (pl_shards p). mset (?out j)) = mset (fst (drain_windows c (shard_agg p i)))"
    using assms(1) by (simp add: if_distrib [of mset] cong: if_cong)
  then show ?thesis
    unfolding history_step_def using assms by (intro conjI exI [of _ ?out]) (auto simp: case_prod_unfold)
qed

lemma history_writer:
  assumes "run_writer_stage put now p = Some (e, p')"
  shows "history_step e p p'"
proof (cases "pl_writer p")
  case (WriterExtract c i ws)
  show ?thesis
  proof (cases "i < length (pl_shards p)")
    case True
    let ?d = "drain_windows (Some c) (shard_agg p i)"
    have p': "p' = (set_shard_aggregator i (snd ?d) p)
        \<lparr>pl_writer := WriterExtract c (Suc i) (ws @ fst ?d), pl_stopper := pl_stopper p\<rparr>" "e = Extracted i (Some c)"
      using assms WriterExtract True by (auto simp: run_writer_stage_def drain_windows_def split: prod.splits)
    show ?thesis
      unfolding p'(2) by (rule history_drain [OF True p'(1)]) (simp add: p'(1) batch_def WriterExtract)
  next
    case False
    with assms WriterExtract show ?thesis
      by (intro history_quiet) (auto simp: run_writer_stage_def batch_def split: prod.splits)
  qed
qed (use assms in \<open>auto simp: run_writer_stage_def batch_def split: if_splits option.splits intro!: history_quiet\<close>)

lemma history_stop:
  assumes "stop put p = Some (e, p')"
  shows "history_step e p p'"
proof (cases "pl_stopper p")
  case (StopExtract i ws)
  show ?thesis
  proof (cases "i < length (pl_shards p)")
    case True
    let ?d = "drain_windows None (shard_agg p i)"
    have p': "p' = (set_shard_aggregator i (snd ?d) p)
        \<lparr>pl_writer := pl_writer p, pl_stopper := StopExtract (Suc i) (ws @ fst ?d)\<rparr>" "e = Extracted i None"
      using assms StopExtract True by (auto simp: stop_def drain_windows_def split: prod.splits)
    show ?thesis
      unfolding p'(2) by (rule history_drain [OF True p'(1)]) (simp add: p'(1) batch_def StopExtract)
  next
    case False
    with assms StopExtract show ?thesis
      by (intro history_quiet) (auto simp: stop_def batch_def split: prod.splits)
  qed
qed (use assms in \<open>auto simp: stop_def batch_def split: if_splits intro!: history_quiet\<close>)

lemma history_aggregation:
  assumes "stages_inv p" and "run_aggregation_stage i p = Some p'"
    and "\<forall>j < length (pl_shards p). agg_window_ms (shard_agg p j) \<noteq> 0"
  shows "history_step (aggregation_event i p) p p'"
proof -
  have i: "i < length (pl_aggs p)" "i < length (pl_shards p)"
    using assms(1,2) by (auto simp: run_aggregation_stage_def stages_defs split: if_splits)
  show ?thesis
  proof (cases "pl_aggs p ! i")
    case (AggAdd t)
    then obtain a where "add_trade (shard_agg p i) t = Some a"
      "p' = (set_shard_aggregator i a p)\<lparr>pl_aggs := (pl_aggs p)[i := AggPop]\<rparr>"
      using assms(2,3) i by (auto simp: run_aggregation_stage_def add_trade_def window_start_def Let_def)
    with i AggAdd show ?thesis
      unfolding history_step_def
      by (intro conjI exI [of _ "\<lambda>j. []"]) (auto simp: aggregation_event_def batch_def)
  qed (use assms(2) i in \<open>auto simp: run_aggregation_stage_def aggregation_event_def batch_def
        split: option.splits intro!: history_quiet\<close>)
qed

lemma history_pipeline_step:
  assumes "stages_inv p" and "pipeline_step J hash put act p = Some (e, p')"
    and "\<forall>i < length (pl_shards p). agg_window_ms (shard_agg p i) \<noteq> 0"
  shows "history_step e p p'"
proof -
  have run: "\<not> pl_terminated p"
    using assms(2) by (auto simp: pipeline_step_def)
  have off: "pl_parser p = ParserOff \<Longrightarrow> pl_writer p = WriterOff"
    using assms(1) by (simp add: stages_defs)
  show ?thesis
  proof (cases act)
    case (AggregatorRuns i)
    with assms run history_aggregation show ?thesis by (auto simp: pipeline_step_def)
  next
    case (WriterRuns now)
    with assms run history_writer show ?thesis by (simp add: pipeline_step_def)
  next
    case StopRuns
    with assms run history_stop show ?thesis by (simp add: pipeline_step_def)
  next
    case ParserRuns
    with assms run show ?thesis
      by (intro history_quiet) (auto simp: pipeline_step_def run_parser_stage_def batch_def
          split: parser_state.splits option.splits sum.splits)
  qed (use assms run off in \<open>auto simp: pipeline_step_def start_def submit_raw_message_def batch_def
        split: if_splits option.splits intro!: history_quiet\<close>)
qed

section \<open>Routing\<close>

text \<open>Everything on its way to a shard is a trade of a symbol of this shard.\<close>

definition headed :: "'s MarketDataPipeline \<Rightarrow> nat \<Rightarrow> TradeEvent \<Rightarrow> bool" where
  "headed p i t \<longleftrightarrow> i < length (pl_shards p) \<and> t \<in> set (bq_items (shard_queue p i))
     \<or> i < length (pl_aggs p) \<and> pl_aggs p ! i = AggAdd t \<or> pl_parser p = ParserPush t i"

definition routed :: "(string \<Rightarrow> nat) \<Rightarrow> 's MarketDataPipeline \<Rightarrow> bool" where
  "routed hash p \<longleftrightarrow> (\<forall>i t. headed p i t \<longrightarrow> shard_index_for_symbol hash p (te_symbol t) = i)"

lemma step_shards:
  assumes "pipeline_step J hash put act p = Some (e, p')"
  shows "length (pl_shards p') = length (pl_shards p)"
  using assms
  by (cases act)
    (auto simp: pipeline_step_def start_def submit_raw_message_def run_parser_stage_def run_aggregation_stage_def
      run_writer_stage_def stop_def
      split: if_splits option.splits prod.splits sum.splits parser_state.splits agg_state.splits
        writer_state.splits stop_state.splits)

lemma run_shards: "pipeline_run J hash put p0 es p \<Longrightarrow> length (pl_shards p) = length (pl_shards p0)"
  by (induction rule: pipeline_run.induct) (simp_all add: step_shards)

lemma headed_parser:
  assumes "run_parser_stage J hash p = Some p'" and "headed p' i t"
  shows "headed p i t \<or> shard_index_for_symbol hash p (te_symbol t) = i"
proof (cases "pl_parser p")
  case ParserPop
  with assms show ?thesis
    by (auto simp: run_parser_stage_def headed_def split: option.splits sum.splits)
next
  case (ParserPush u j)
  then obtain ok q where push: "bq_push u (shard_queue p j) = Some (ok, q)"
    "p' = (set_shard_queue j q p)\<lparr>pl_parser := ParserPop\<rparr>"
    using assms(1) by (auto simp: run_parser_stage_def split: option.splits)
  have "set (bq_items q) \<subseteq> insert u (set (bq_items (shard_queue p j)))"
    using push(1) by (auto simp: bq_push_def split: if_splits)
  with assms(2) ParserPush show ?thesis
    unfolding push(2) headed_def by (auto split: if_splits)
qed (use assms in \<open>simp_all add: run_parser_stage_def\<close>)

lemma headed_aggregation:
  assumes "stages_inv p" and "run_aggregation_stage j p = Some p'" and "headed p' i t"
  shows "headed p i t"
proof -
  have j: "j < length (pl_aggs p)" "j < length (pl_shards p)"
    using assms(1,2) by (auto simp: run_aggregation_stage_def stages_defs split: if_splits)
  show ?thesis
  proof (cases "pl_aggs p ! j")
    case AggPop
    then obtain r q where pop: "bq_pop (shard_queue p j) = Some (r, q)"
      "p' = (set_shard_queue j q p)\<lparr>pl_aggs := (pl_aggs p)[j := case r of None \<Rightarrow> AggDone | Some t \<Rightarrow> AggAdd t]\<rparr>"
      using assms(2) j by (auto simp: run_aggregation_stage_def split: option.splits)
    have "set (bq_items q) \<subseteq> set (bq_items (shard_queue p j))" "\<forall>u. r = Some u \<longrightarrow> u \<in> set (bq_items (shard_queue p j))"
      using pop(1) by (auto simp: bq_pop_def split: if_splits dest: list.set_sel)
    with assms(3) j show ?thesis
      unfolding pop(2) headed_def by (auto simp: nth_list_update split: if_splits option.splits)
  next
    case (AggAdd u)
    with assms(2,3) j show ?thesis
      by (auto simp: run_aggregation_stage_def headed_def nth_list_update split: option.splits if_splits)
  qed (use assms(2) j in \<open>simp add: run_aggregation_stage_def\<close>)
qed

lemma headed_stop: "stop put p = Some (e, p') \<Longrightarrow> headed p' i t \<Longrightarrow> headed p i t"
  by (cases "pl_stopper p") (auto simp: stop_def headed_def bq_set_shutdown_def split: if_splits prod.splits)

lemma headed_writer: "run_writer_stage put now p = Some (e, p') \<Longrightarrow> headed p' i t \<Longrightarrow> headed p i t"
  by (cases "pl_writer p") (auto simp: run_writer_stage_def headed_def split: if_splits option.splits prod.splits)

lemma headed_start: "start p = Some p' \<Longrightarrow> headed p' i t \<Longrightarrow> headed p i t"
  by (auto simp: start_def headed_def split: if_splits)

lemma routed_step:
  assumes "stages_inv p" and "routed hash p" and "pipeline_step J hash put act p = Some (e, p')"
  shows "routed hash p'"
proof -
  have run: "\<not> pl_terminated p"
    using assms(3) by (auto simp: pipeline_step_def)
  have n: "length (pl_shards p') = length (pl_shards p)"
    by (rule step_shards [OF assms(3)])
  have "headed p i t \<or> shard_index_for_symbol hash p (te_symbol t) = i" if "headed p' i t" for i t
  proof (cases act)
    case ParserRuns
    with assms(3) run headed_parser [OF _ that, of J hash p] show ?thesis by (auto simp: pipeline_step_def)
  next
    case (AggregatorRuns j)
    with assms(1,3) run that headed_aggregation show ?thesis by (auto simp: pipeline_step_def)
  next
    case (WriterRuns now)
    with assms(3) run headed_writer [OF _ that] show ?thesis by (simp add: pipeline_step_def)
  next
    case StopRuns
    with assms(3) run headed_stop [OF _ that] show ?thesis by (simp add: pipeline_step_def)
  next
    case Start
    with assms(3) run that headed_start show ?thesis by (auto simp: pipeline_step_def)
  qed (use assms(3) run that in \<open>auto simp: pipeline_step_def submit_raw_message_def headed_def split: option.splits\<close>)
  with assms(2) n show ?thesis
    by (auto simp: routed_def shard_index_for_symbol_def)
qed

lemma run_routed:
  "pipeline_run J hash put (MarketDataPipeline_new W interval capacity sink threads) es p \<Longrightarrow> routed hash p"
proof (induction rule: pipeline_run.induct)
  case (run_step es p act e p')
  from routed_step [OF run_stages [OF run_step(1)] run_step(3,2)] show ?case .
qed (auto simp: routed_def headed_def MarketDataPipeline_new_def Shard_new_def BoundedQueue_new_def Let_def)

section \<open>The histories of a run\<close>

lemma run_history:
  assumes "pipeline_run J hash put (MarketDataPipeline_new W interval capacity sink threads) es p" and "W \<noteq> 0"
  shows "\<exists>out. (\<forall>i < length (pl_shards p). run_shard (shard_history i es) (MarketDataAggregator_new W) = Some (out i, shard_agg p i))
     \<and> mset (flushed_windows es) + batch p = (\<Sum>i < length (pl_shards p). mset (out i))"
  using assms(1)
proof (induction rule: pipeline_run.induct)
  case run_start
  then show ?case
    by (intro exI [of _ "\<lambda>i. []"])
      (simp add: MarketDataPipeline_new_def Let_def Shard_new_def flushed_windows_def batch_def)
next
  case (run_step es p act e p')
  let ?n = "length (pl_shards p)"
  obtain out where out: "\<forall>i < ?n. run_shard (shard_history i es) (MarketDataAggregator_new W) = Some (out i, shard_agg p i)"
    "mset (flushed_windows es) + batch p = (\<Sum>i < ?n. mset (out i))"
    using run_step.IH by blast
  obtain acc where "account W J acc (flushed_windows es) p"
    using run_account [OF run_step(1) assms(2)] by blast
  then have "\<forall>i < ?n. agg_window_ms (shard_agg p i) \<noteq> 0"
    using assms(2) shards_hold_nth(2) by (fastforce simp: account_def)
  from history_pipeline_step [OF run_stages [OF run_step(1)] run_step(2) this]
  obtain new where new: "\<forall>i < ?n. run_shard (shard_op i e) (shard_agg p i) = Some (new i, shard_agg p' i)"
    "mset (flushed_by e) + batch p' = batch p + (\<Sum>i < ?n. mset (new i))" "length (pl_shards p') = ?n"
    by (auto simp: history_step_def)
  have "\<forall>i < ?n. run_shard (shard_history i (es @ [e])) (MarketDataAggregator_new W) = Some (out i @ new i, shard_agg p' i)"
    using out(1) new(1) by (auto intro: run_store_append)
  moreover have "mset (flushed_windows (es @ [e])) + batch p' = (\<Sum>i < ?n. mset (out i @ new i))"
    using out(2) new(2) by (simp add: sum.distrib add.assoc)
  ultimately show ?case
    unfolding new(3) by (intro exI [of _ "\<lambda>i. out i @ new i"]) simp
qed

lemma step_added:
  assumes "stages_inv p" and "pipeline_step J hash put act p = Some (Added i t, p')"
  shows "i < length (pl_aggs p)" and "pl_aggs p ! i = AggAdd t"
  using assms
  by (cases act; force simp: pipeline_step_def run_writer_stage_def stop_def aggregation_event_def run_aggregation_stage_def
      split: if_splits option.splits prod.splits writer_state.splits stop_state.splits agg_state.splits)+

lemma history_routed:
  assumes "pipeline_run J hash put (MarketDataPipeline_new W interval capacity sink threads) es p"
    and "t \<in> set (added (shard_history i es))"
  shows "shard_index_for_symbol hash p (te_symbol t) = i"
  using assms
proof (induction rule: pipeline_run.induct)
  case (run_step es p act e p')
  show ?case
  proof (cases "t \<in> set (added (shard_history i es))")
    case True
    with run_step.IH step_shards [OF run_step(2)] show ?thesis
      by (simp add: shard_index_for_symbol_def)
  next
    case False
    with run_step.prems have "e = Added i t"
      by (cases e) (auto split: if_splits)
    with step_added [OF run_stages [OF run_step(1)], of J hash put act i t p'] run_step(2)
    have "headed p i t"
      by (auto simp: headed_def)
    with run_routed [OF run_step(1)] step_shards [OF run_step(2)] show ?thesis
      by (simp add: routed_def shard_index_for_symbol_def)
  qed
qed simp

section \<open>No late trades\<close>

lemma timely_snoc_Add:
  "timely P key cs (ops @ [Add t]) \<longleftrightarrow>
     timely P key cs ops \<and> (\<forall>c. c \<in> set cs \<or> Drain c \<in> set ops \<longrightarrow> \<not> P c (key t))"
  by (induction P key cs ops rule: timely.induct) (auto simp: list_all_iff)

lemma timely_snoc_Drain: "timely P key cs (ops @ [Drain c]) \<longleftrightarrow> timely P key cs ops"
  by (induction P key cs ops rule: timely.induct) auto

text \<open>After the final extraction from a shard its thread has ended for good.\<close>

lemma step_keeps_done:
  assumes "pipeline_step J hash put act p = Some (e, p')" and "pl_stopper p \<noteq> StopIdle"
  shows "pl_stopper p' \<noteq> StopIdle" and "length (pl_aggs p') = length (pl_aggs p)"
    and "i < length (pl_aggs p) \<Longrightarrow> pl_aggs p ! i = AggDone \<Longrightarrow> pl_aggs p' ! i = AggDone"
  using assms
  by (cases act; auto simp: pipeline_step_def start_def submit_raw_message_def run_parser_stage_def
      run_aggregation_stage_def run_writer_stage_def stop_def nth_list_update
      split: if_splits option.splits prod.splits sum.splits parser_state.splits agg_state.splits
        writer_state.splits stop_state.splits)+

lemma step_final_extraction:
  assumes "stages_inv p" and "pipeline_step J hash put act p = Some (Extracted i None, p')"
  shows "pl_stopper p \<noteq> StopIdle" and "i < length (pl_aggs p) \<Longrightarrow> pl_aggs p ! i = AggDone"
proof -
  obtain ws where st: "pl_stopper p = StopExtract i ws" "i < length (pl_shards p)"
    using assms(2) by (cases act) (auto simp: pipeline_step_def run_writer_stage_def stop_def aggregation_event_def
        split: if_splits option.splits prod.splits writer_state.splits stop_state.splits agg_state.splits)
  then show "pl_stopper p \<noteq> StopIdle" by simp
  show "pl_aggs p ! i = AggDone" if "i < length (pl_aggs p)"
    using that assms(1) st by (simp add: stages_defs)
qed

lemma final_extraction:
  assumes "pipeline_run J hash put (MarketDataPipeline_new W interval capacity sink threads) es p"
    and "Extracted i None \<in> set es"
  shows "pl_stopper p \<noteq> StopIdle \<and> (i < length (pl_aggs p) \<longrightarrow> pl_aggs p ! i = AggDone)"
  using assms
proof (induction rule: pipeline_run.induct)
  case (run_step es p act e p')
  have "pl_stopper p \<noteq> StopIdle \<and> (i < length (pl_aggs p) \<longrightarrow> pl_aggs p ! i = AggDone)"
    using run_step step_final_extraction [OF run_stages [OF run_step(1)], of J hash put act i p'] by auto
  with step_keeps_done [OF run_step(2)] show ?case by simp
qed simp

lemma shard_op_Drain: "Drain c \<in> set (shard_history i es) \<longleftrightarrow> Extracted i c \<in> set es"
proof -
  have "Drain c \<in> set (shard_op i e) \<longleftrightarrow> e = Extracted i c" for e
    by (cases e) auto
  then show ?thesis by auto
qed

lemma punctual_timely:
  assumes "pipeline_run J hash put (MarketDataPipeline_new W interval capacity sink threads) es p"
    and "timely late (trade_key W) [] (shard_history i es)"
  shows "timely drained (trade_key W) [] (shard_history i es)"
  using assms
proof (induction rule: pipeline_run.induct)
  case (run_step es p act e p')
  have hist: "shard_history i (es @ [e]) = shard_history i es @ shard_op i e"
    by simp
  consider (add) t where "e = Added i t" | (drain) c where "e = Extracted i c" | (none) "shard_op i e = []"
    by (cases e) (metis shard_op.simps)+
  then show ?case
  proof cases
    case (add t)
    note now = step_added [OF run_stages [OF run_step(1)] run_step(2) [unfolded add]]
    have past: "timely late (trade_key W) [] (shard_history i es)"
      "\<And>c. Drain c \<in> set (shard_history i es) \<Longrightarrow> \<not> late c (trade_key W t)"
      using run_step.prems by (auto simp: hist add timely_snoc_Add simp del: set_concat)
    have "\<not> drained c (trade_key W t)" if "Drain c \<in> set (shard_history i es)" for c
    proof (cases c)
      case None
      with that final_extraction [OF run_step(1), of i] now show ?thesis
        unfolding shard_op_Drain by simp
    next
      case (Some w)
      with past(2) [OF that] show ?thesis
        by (simp add: late_def drained_def)
    qed
    with run_step.IH [OF past(1)] show ?thesis
      by (simp add: hist add timely_snoc_Add del: set_concat)
  qed (use run_step in \<open>simp_all add: timely_snoc_Drain\<close>)
qed simp

section \<open>Every window once\<close>

lemma image_mset_lessThan: "image_mset h (\<Sum>i < (n :: nat). F i) = (\<Sum>i < n. image_mset h (F i))"
  by (induction n) simp_all

lemma distinct_disjoint_sum:
  fixes n :: nat
  assumes "\<And>i. i < n \<Longrightarrow> distinct (f i) \<and> (\<forall>x \<in> set (f i). g x = i)" and "mset xs = (\<Sum>i < n. mset (f i))"
  shows "distinct xs"
proof -
  have "(\<Sum>i < m. mset (f i)) = mset (concat (map f [0..<m])) \<and> distinct (concat (map f [0..<m]))" if "m \<le> n" for m
    using that
  proof (induction m)
    case (Suc m)
    have "x \<notin> set (f i)" if "i < m" "x \<in> set (f m)" for i x
      using assms(1) [of m] assms(1) [of i] Suc.prems that by auto
    with Suc assms(1) [of m] show ?case by auto
  qed simp
  with assms(2) show ?thesis
    by (metis le_refl mset_eq_imp_distinct_iff)
qed

lemma shard_keys:
  assumes "W \<noteq> 0" and "timely drained (trade_key W) [] ops"
    and "run_shard ops (MarketDataAggregator_new W) = Some (out, a)"
  shows "distinct (map stats_key out)" and "set (map stats_key out) \<subseteq> trade_key W ` set (added ops)"
proof -
  from agg.run_timely [OF store_rep_new [OF assms(1)], of "[]" ops] assms(2,3) obtain ks where ks: "distinct ks"
    "\<forall>k \<in> set ks. filter (\<lambda>t. trade_key W t = k) (added ops) \<noteq> []"
    "out = map (\<lambda>k. summary k (filter (\<lambda>t. trade_key W t = k) (added ops))) ks"
    unfolding new_window_ms by auto
  have keys: "map stats_key out = ks"
    by (simp add: ks(3) comp_def)
  show "distinct (map stats_key out)"
    unfolding keys by (rule ks(1))
  show "set (map stats_key out) \<subseteq> trade_key W ` set (added ops)"
  proof
    fix k assume "k \<in> set (map stats_key out)"
    then obtain t where "t \<in> set (added ops)" "trade_key W t = k"
      using ks(2) unfolding keys filter_empty_conv by blast
    then show "k \<in> trade_key W ` set (added ops)" by blast
  qed
qed

lemma punctual_distinct:
  assumes "pipeline_run J hash put (MarketDataPipeline_new W interval capacity sink threads) es p" and "W \<noteq> 0"
    and "punctual (length (pl_shards p)) W es"
  shows "distinct (map stats_key (flushed_windows es))"
proof -
  let ?n = "length (pl_shards p)"
  obtain out where out: "\<forall>i < ?n. run_shard (shard_history i es) (MarketDataAggregator_new W) = Some (out i, shard_agg p i)"
    "mset (flushed_windows es) + batch p = (\<Sum>i < ?n. mset (out i))"
    using run_history [OF assms(1,2)] by blast
  obtain rest where "mset rest = batch p"
    using ex_mset by blast
  then have "mset (map stats_key (flushed_windows es @ rest)) = (\<Sum>i < ?n. mset (map stats_key (out i)))"
    using arg_cong [OF out(2), of "image_mset stats_key"] by (simp add: image_mset_lessThan)
  moreover have "distinct (map stats_key (out i)) \<and> (\<forall>k \<in> set (map stats_key (out i)). hash (fst k) mod ?n = i)"
    if "i < ?n" for i
  proof -
    have "timely late (trade_key W) [] (shard_history i es)"
      using assms(3) that by (simp add: punctual_def list_all_iff)
    note K = shard_keys [OF assms(2) punctual_timely [OF assms(1) this] out(1) [rule_format, OF that]]
    have "hash (fst (trade_key W t)) mod ?n = i" if "t \<in> set (added (shard_history i es))" for t
      using history_routed [OF assms(1) that] by (simp add: trade_key_def shard_index_for_symbol_def)
    with K show ?thesis by blast
  qed
  ultimately have "distinct (map stats_key (flushed_windows es @ rest))"
    by (intro distinct_disjoint_sum)
  then show ?thesis by simp
qed

lemma distinct_reference:
  assumes "grouped (trade_key W) gs" and "distinct (map fst gs)" and "group_items gs = mset ts"
  shows "mset (map (\<lambda>(k, b). summary k b) gs) = mset (reference_windows W ts)"
proof -
  let ?f = "\<lambda>k. summary k (bucket W k ts)"
  note G = grouped_whole [OF assms]
  have "summary k b = ?f k" if "(k, b) \<in> set gs" for k b
    using G(1) [OF that] by (intro summary_mset_cong) (simp add: bucket_def)
  then have eq: "map (\<lambda>(k, b). summary k b) gs = map ?f (map fst gs)"
    by auto
  have "mset (map fst gs) = mset (remdups (map (trade_key W) ts))"
    using assms(2) G(2) by (subst set_eq_iff_mset_eq_distinct [symmetric]) auto
  from arg_cong [OF this, of "image_mset ?f"] show ?thesis
    unfolding eq reference_windows_def by (simp only: mset_map)
qed

lemma stopped_exact:
  assumes "pipeline_run J hash put (MarketDataPipeline_new W interval capacity sink threads) es p"
    and "W \<noteq> 0" and "pl_parser p \<noteq> ParserOff" and "pl_stopper p = Stopped"
    and "punctual (length (pl_shards p)) W es"
  shows "mset (flushed_windows es) = mset (reference_windows W (trades_of J (accepted_messages es)))"
proof -
  obtain gs where gs: "grouped (trade_key W) gs"
    "mset (flushed_windows es) = mset (map (\<lambda>(k, b). summary k b) gs)"
    "group_items gs = mset (trades_of J (accepted_messages es))"
    using stopped_conserves [OF assms(1-4)] by blast
  have "mset (map stats_key (flushed_windows es)) = mset (map stats_key (map (\<lambda>(k, b). summary k b) gs))"
    unfolding mset_map gs(2) ..
  also have "\<dots> = mset (map fst gs)"
    by (simp add: comp_def case_prod_unfold)
  finally have "distinct (map fst gs)"
    using punctual_distinct [OF assms(1,2,5)] by (metis mset_eq_imp_distinct_iff)
  from distinct_reference [OF gs(1) this gs(3)] gs(2) show ?thesis by simp
qed

section \<open>Properties\<close>

text \<open>
  C10: the shards behave sequentially. At every moment of every interleaving the aggregator of a
  shard is what a single-threaded run of its history gives, additions and extractions in the
  order in which their locked sections happened; every trade in the history belongs to a symbol
  of the shard; and the windows written or about to be written are the outputs of these runs.
\<close>

theorem shards_are_sequential:
  assumes "pipeline_run J hash put (MarketDataPipeline_new W interval capacity sink threads) es p" and "W \<noteq> 0"
  shows "\<exists>out. (\<forall>i < length (pl_shards p).
          run_store add_trade drain_windows (shard_history i es) (MarketDataAggregator_new W)
            = Some (out i, sh_aggregator (pl_shards p ! i))
        \<and> list_all (\<lambda>t. shard_index_for_symbol hash p (te_symbol t) = i) (added (shard_history i es)))
     \<and> mset (flushed_windows es) + batch p = (\<Sum>i < length (pl_shards p). mset (out i))"
proof -
  have "list_all (\<lambda>t. shard_index_for_symbol hash p (te_symbol t) = i) (added (shard_history i es))" for i
    using history_routed [OF assms(1)] by (simp add: list_all_iff)
  with run_history [OF assms] show ?thesis by blast
qed

theorem shards_are_sequential_witness:
  "\<exists>es p out. pipeline_run sample_lib (\<lambda>s. 0) null_sink (MarketDataPipeline_new 1000 5000 16 () 2) es p
     \<and> pl_stopper p = Stopped \<and> length (flushed_windows es) = 2 \<and> length (pl_shards p) = 2
     \<and> (\<forall>i < 2. run_store add_trade drain_windows (shard_history i es) (MarketDataAggregator_new 1000)
            = Some (out i, sh_aggregator (pl_shards p ! i)))"
proof -
  let ?p0 = "MarketDataPipeline_new 1000 5000 16 () 2"
  obtain es p where run: "run_actions sample_lib (\<lambda>s. 0) null_sink example_schedule ?p0 = Some (es, p)"
    "length (flushed_windows es) = 2" "pl_stopper p = Stopped"
    using example_run by blast
  note reach = run_actions_run [OF run(1) run_start, simplified]
  have n: "length (pl_shards p) = 2"
    using run_shards [OF reach] by (simp add: MarketDataPipeline_new_def Let_def)
  from shards_are_sequential [OF reach] reach run n show ?thesis by auto
qed

text \<open>
  The run of this witness has a late trade, and shows what a late trade does: its window is
  written a second time, so \<open>punctual\<close> is needed below.
\<close>

lemma late_trade_splits_window:
  "\<exists>es p. run_actions sample_lib (\<lambda>s. 0) null_sink example_schedule (MarketDataPipeline_new 1000 5000 16 () 2) = Some (es, p)
     \<and> \<not> punctual 2 1000 es \<and> \<not> distinct (map stats_key (flushed_windows es))"
  by (simp add: example_schedule_def pipeline_defs MarketDataPipeline_new_def Let_def Shard_new_def
    BoundedQueue_new_def MarketDataAggregator_new_def sample_trade_def add_trade_def window_start_def
    extract_completed_windows_def extract_all_windows_def flushed_windows_def replicate_2
    punctual_def late_def trade_key_def stats_key_def update_stats_def WindowStats_default_def upt_rec)

text \<open>
  C25: a periodic flush leaves nothing behind. Let no trade come late, and let the writer have
  extracted from a shard the windows before its clock's current window \<open>c\<close>. From then on the shard
  holds no window that starts before \<open>c\<close>: every window that was over at the flush has been handed
  out by it, and none comes back.
\<close>

theorem flush_leaves_nothing_behind:
  assumes "pipeline_run J hash put (MarketDataPipeline_new W interval capacity sink threads) es p" and "W \<noteq> 0"
    and "punctual (length (pl_shards p)) W es"
    and "i < length (pl_shards p)" and "Extracted i (Some c) \<in> set es"
    and "window_stats (sh_aggregator (pl_shards p ! i)) symbol w = Some stats"
  shows "c \<le> w"
proof -
  let ?new = "MarketDataAggregator_new W" and ?ops = "shard_history i es"
  have "timely late (trade_key W) [] ?ops"
    using assms(3,4) by (simp add: punctual_def list_all_iff)
  then have "timely drained (trade_key (agg_window_ms ?new)) [] ?ops"
    unfolding new_window_ms by (rule punctual_timely [OF assms(1)])
  note held_run = agg.run_timely_held [OF store_rep_new [OF assms(2)] this, unfolded new_window_ms list.set(1) ball_empty, OF TrueI]
  obtain out a held where held: "run_shard ?ops ?new = Some (out, a)" "store_rep held a"
    "trade_key (agg_window_ms a) = trade_key W"
    "\<forall>t \<in> set held. \<forall>c. c \<in> {} \<or> Drain c \<in> set ?ops \<longrightarrow> \<not> drained c (trade_key W t)"
    using held_run by (elim exE conjE)
  moreover obtain out' where "run_shard ?ops ?new = Some (out', shard_agg p i)"
    using run_history [OF assms(1,2)] assms(4) by blast
  ultimately have a: "a = shard_agg p i" by simp
  have "agg_stats (shard_agg p i) = spec_stats W held"
    using held(2) spec_stats_key_cong [OF held(3)] by (simp add: a store_rep_def represents_def)
  from fun_cong [OF this, of "(symbol, w)"] assms(6) have "spec_stats W held (symbol, w) = Some stats"
    by (simp add: agg_stats_def)
  then obtain t where "t \<in> set held" "trade_key W t = (symbol, w)"
    by (auto simp: spec_stats_def bucket_def filter_empty_conv split: if_splits)
  moreover have "Drain (Some c) \<in> set ?ops"
    unfolding shard_op_Drain by (rule assms(5))
  ultimately show ?thesis
    using held(4) by (force simp: drained_def)
qed

theorem flush_leaves_nothing_behind_witness:
  "\<exists>es p. pipeline_run sample_lib (\<lambda>s. 0) null_sink (MarketDataPipeline_new 1000 5000 16 () 1) es p
     \<and> Extracted 0 (Some 123456000) \<in> set es \<and> window_stats (sh_aggregator (pl_shards p ! 0)) ''BTCUSDT'' 123456000 \<noteq> None
     \<and> (123456000 :: u64) \<le> 123456000"
proof -
  let ?p0 = "MarketDataPipeline_new 1000 5000 16 () 1"
  let ?acts = "[Start, Submit ''raw'', ParserRuns, ParserRuns, AggregatorRuns 0, AggregatorRuns 0,
      WriterRuns 123456999, WriterRuns 0]"
  have "\<exists>es p. run_actions sample_lib (\<lambda>s. 0) null_sink ?acts ?p0 = Some (es, p)
      \<and> length (pl_shards p) = 1 \<and> punctual 1 1000 es \<and> Extracted 0 (Some 123456000) \<in> set es
      \<and> window_stats (shard_agg p 0) ''BTCUSDT'' 123456000 \<noteq> None"
    by (simp add: pipeline_defs MarketDataPipeline_new_def Let_def Shard_new_def BoundedQueue_new_def
        MarketDataAggregator_new_def sample_trade_def add_trade_def window_start_def extract_completed_windows_def
        punctual_def late_def trade_key_def window_stats_def)
  then obtain es p stats where run: "run_actions sample_lib (\<lambda>s. 0) null_sink ?acts ?p0 = Some (es, p)"
    "length (pl_shards p) = 1" "punctual 1 1000 es" "Extracted 0 (Some 123456000) \<in> set es"
    "window_stats (shard_agg p 0) ''BTCUSDT'' 123456000 = Some stats"
    by blast
  note reach = run_actions_run [OF run(1) run_start, simplified]
  from flush_leaves_nothing_behind [OF reach _ _ _ run(4,5)] reach run show ?thesis by auto
qed

end
