(* ===== verification/ConnectionError.thy ===== *)
theory ConnectionError
  imports Agg_Prelude
begin

text \<open>
  \<^verbatim>\<open>app/include/agg/net/ConnectionError.hpp\<close> and \<^verbatim>\<open>app/src/net/ConnectionError.cpp\<close>. An
  \<^verbatim>\<open>error_code\<close> of the networking library is a value of an arbitrary type; the record has the
  tests the code makes on it.
\<close>

section \<open>Definitions\<close>

datatype ConnectionStage = Resolve | TcpConnect | TlsHandshake | WebSocketHandshake | Read

datatype ConnectionErrorKind =
    DnsFailure
  | TcpConnectFailure
  | TlsHandshakeFailure
  | WebSocketHandshakeFailure
  | ReadFailure
  | Timeout
  | ServerDisconnect
  | Unknown

record 'ec error_codes =
  ec_failed :: "'ec \<Rightarrow> bool"
  ec_timed_out :: "'ec \<Rightarrow> bool"
  ec_eof :: "'ec \<Rightarrow> bool"
  ec_closed :: "'ec \<Rightarrow> bool"

definition classify_error :: "'ec error_codes \<Rightarrow> ConnectionStage \<Rightarrow> 'ec \<Rightarrow> ConnectionErrorKind" where
  "classify_error E stage ec =
     (if \<not> ec_failed E ec then Unknown
      else if ec_timed_out E ec then Timeout
      else
        (case stage of
           Resolve \<Rightarrow> DnsFailure
         | TcpConnect \<Rightarrow> TcpConnectFailure
         | TlsHandshake \<Rightarrow> TlsHandshakeFailure
         | WebSocketHandshake \<Rightarrow> WebSocketHandshakeFailure
         | Read \<Rightarrow> if ec_eof E ec \<or> ec_closed E ec then ServerDisconnect else ReadFailure))"

section \<open>Properties\<close>

text \<open>The stage a kind of failure belongs to; a timeout can happen in any.\<close>

fun stage_of_kind :: "ConnectionErrorKind \<Rightarrow> ConnectionStage option" where
  "stage_of_kind DnsFailure = Some Resolve"
| "stage_of_kind TcpConnectFailure = Some TcpConnect"
| "stage_of_kind TlsHandshakeFailure = Some TlsHandshake"
| "stage_of_kind WebSocketHandshakeFailure = Some WebSocketHandshake"
| "stage_of_kind ReadFailure = Some Read"
| "stage_of_kind ServerDisconnect = Some Read"
| "stage_of_kind Timeout = None"
| "stage_of_kind Unknown = None"

text \<open>
  The classification loses nothing a caller needs. An actual error is never classified
  as unknown; a timeout is always recognised, whatever the stage; every other error is
  classified with a kind that determines the stage it happened in; and a disconnect is told
  from a read failure exactly by the two codes for it.
\<close>

theorem classify_error_faithful:
  "(ec_failed E ec \<longleftrightarrow> classify_error E stage ec \<noteq> Unknown)
   \<and> (classify_error E stage ec = Timeout \<longleftrightarrow> ec_failed E ec \<and> ec_timed_out E ec)
   \<and> (ec_failed E ec \<and> \<not> ec_timed_out E ec \<longrightarrow> stage_of_kind (classify_error E stage ec) = Some stage)
   \<and> (classify_error E stage ec = ServerDisconnect \<longleftrightarrow>
        stage = Read \<and> ec_failed E ec \<and> \<not> ec_timed_out E ec \<and> (ec_eof E ec \<or> ec_closed E ec))"
  by (cases stage) (simp_all add: classify_error_def)

text \<open>An instance with numbered codes, for concrete inputs: 0 is success.\<close>

definition numbered_codes :: "nat error_codes" where
  "numbered_codes = \<lparr>ec_failed = (\<lambda>n. n \<noteq> 0), ec_timed_out = (\<lambda>n. n = 1), ec_eof = (\<lambda>n. n = 2),
     ec_closed = (\<lambda>n. n = 3)\<rparr>"

theorem classify_error_faithful_witness:
  "stage_of_kind (classify_error numbered_codes TlsHandshake 7) = Some TlsHandshake"
  using classify_error_faithful [of numbered_codes 7 TlsHandshake] by (simp add: numbered_codes_def)

end
