(* ===== verification/ConfigLoader.thy ===== *)
theory ConfigLoader
  imports Json_Library
begin

text \<open>
  \<^verbatim>\<open>app/include/agg/config/Config.hpp\<close> and \<^verbatim>\<open>app/src/config/ConfigLoader.cpp\<close>. A
  \<^verbatim>\<open>std::runtime_error\<close> is \<open>RuntimeError\<close> with its message; \<open>Library\<close> marks a failing library
  call the code has no handler for, which the checks before it exclude. Parameters: the JSON
  library, the reading of a JSON value from a stream (\<open>Inl\<close> with the exception's text) and the
  file system (\<open>None\<close> for a file that does not open).
\<close>

section \<open>The configuration\<close>

record ReconnectConfig =
  rc_initial_backoff_ms :: u64
  rc_max_backoff_ms :: u64
  rc_jitter_ratio :: rat

text \<open>The default ratio is the double nearest to 0.2.\<close>

definition ReconnectConfig_default :: ReconnectConfig where
  "ReconnectConfig_default = \<lparr>rc_initial_backoff_ms = 500, rc_max_backoff_ms = 30000,
     rc_jitter_ratio = 3602879701896397 / 18014398509481984\<rparr>"

record Config =
  cfg_symbols :: "string list"
  cfg_window_ms :: u64
  cfg_flush_interval_ms :: u64
  cfg_aggregator_threads :: u64
  cfg_output_file :: string
  cfg_ws_host :: string
  cfg_ws_port :: string
  cfg_reconnect :: ReconnectConfig

section \<open>Loading\<close>

datatype config_error = RuntimeError string | Library json_failure

definition lib :: "json_failure + 'a \<Rightarrow> config_error + 'a" where
  "lib r = map_sum Library id r"

definition throw :: "string \<Rightarrow> config_error + 'a" where
  "throw msg = Inl (RuntimeError msg)"

definition to_upper_ascii :: "string \<Rightarrow> string" where
  "to_upper_ascii value = map toupper value"

definition is_valid_symbol_char :: "char \<Rightarrow> bool" where
  "is_valid_symbol_char ch = isalnum ch"

definition require_field :: "'j json_lib \<Rightarrow> 'j \<Rightarrow> string \<Rightarrow> config_error + unit" where
  "require_field J j field =
     (if \<not> json_contains J j field then throw (''Config is missing required field: '' @ field) else Inr ())"

definition parse_symbol :: "'j json_lib \<Rightarrow> 'j \<Rightarrow> config_error + string" where
  "parse_symbol J item =
     (if \<not> json_is_string J item then throw ''Each symbol must be a string''
      else
        try_then (lib (checked_get (json_get_string J) item)) (\<lambda>value.
          let symbol = to_upper_ascii value
          in if symbol = [] then throw ''Symbol must not be empty''
             else if \<not> list_all is_valid_symbol_char symbol
             then throw (''Symbol contains invalid characters: '' @ symbol)
             else Inr symbol))"

fun parse_symbol_items :: "'j json_lib \<Rightarrow> 'j list \<Rightarrow> config_error + string list" where
  "parse_symbol_items J [] = Inr []"
| "parse_symbol_items J (item # items) =
     try_then (parse_symbol J item) (\<lambda>symbol.
       try_then (parse_symbol_items J items) (\<lambda>symbols. Inr (symbol # symbols)))"

definition parse_symbols :: "'j json_lib \<Rightarrow> 'j \<Rightarrow> config_error + string list" where
  "parse_symbols J j =
     try_then (require_field J j ''symbols'') (\<lambda>_.
       try_then (lib (json_at J j ''symbols'')) (\<lambda>array.
         if \<not> json_is_array J array then throw ''Config field 'symbols' must be an array''
         else
           try_then (parse_symbol_items J (json_elements J array)) (\<lambda>symbols.
             if symbols = [] then throw ''Config field 'symbols' must not be empty'' else Inr symbols)))"

definition parse_positive_u64 :: "'j json_lib \<Rightarrow> 'j \<Rightarrow> string \<Rightarrow> config_error + u64" where
  "parse_positive_u64 J j field =
     try_then (require_field J j field) (\<lambda>_.
       try_then (lib (json_at J j field)) (\<lambda>v.
         if \<not> json_is_number_unsigned J v
         then throw (''Config field must be a positive integer: '' @ field)
         else
           try_then (lib (checked_get (json_get_u64 J) v)) (\<lambda>value.
             if value = 0 then throw (''Config field must be greater than zero: '' @ field)
             else Inr value)))"

definition parse_required_string :: "'j json_lib \<Rightarrow> 'j \<Rightarrow> string \<Rightarrow> config_error + string" where
  "parse_required_string J j field =
     try_then (require_field J j field) (\<lambda>_.
       try_then (lib (json_at J j field)) (\<lambda>v.
         if \<not> json_is_string J v then throw (''Config field must be a string: '' @ field)
         else
           try_then (lib (checked_get (json_get_string J) v)) (\<lambda>value.
             if value = [] then throw (''Config field must not be empty: '' @ field)
             else Inr value)))"

definition parse_aggregator_threads :: "'j json_lib \<Rightarrow> 'j \<Rightarrow> config_error + u64" where
  "parse_aggregator_threads J j =
     (if \<not> json_contains J j ''aggregator_threads'' then Inr 1
      else parse_positive_u64 J j ''aggregator_threads'')"

text \<open>An optional member overrides a default.\<close>

definition backoff_field :: "'j json_lib \<Rightarrow> 'j \<Rightarrow> string \<Rightarrow> u64 \<Rightarrow> config_error + u64" where
  "backoff_field J j field default_value =
     (if json_contains J j field then parse_positive_u64 J j field else Inr default_value)"

definition jitter_field :: "'j json_lib \<Rightarrow> 'j \<Rightarrow> rat \<Rightarrow> config_error + rat" where
  "jitter_field J j default_value =
     (if json_contains J j ''jitter_ratio'' then
        try_then (lib (json_at J j ''jitter_ratio'')) (\<lambda>v.
          if \<not> json_is_number J v then throw ''Reconnect jitter_ratio must be a number''
          else
            try_then (lib (checked_get (json_get_double J) v)) (\<lambda>ratio.
              if ratio < 0 \<or> ratio > 1
              then throw ''Reconnect jitter_ratio must be between 0.0 and 1.0''
              else Inr ratio))
      else Inr default_value)"

definition parse_reconnect_config :: "'j json_lib \<Rightarrow> 'j \<Rightarrow> config_error + ReconnectConfig" where
  "parse_reconnect_config J j =
     (let reconnect = ReconnectConfig_default
      in if \<not> json_contains J j ''reconnect'' then Inr reconnect
      else
        try_then (lib (json_at J j ''reconnect'')) (\<lambda>reconnect_json.
          if \<not> json_is_object J reconnect_json
          then throw ''Config field 'reconnect' must be an object''
          else
            try_then (backoff_field J reconnect_json ''initial_backoff_ms''
                        (rc_initial_backoff_ms reconnect)) (\<lambda>initial.
            try_then (backoff_field J reconnect_json ''max_backoff_ms''
                        (rc_max_backoff_ms reconnect)) (\<lambda>maximum.
              if initial > maximum
              then throw ''Reconnect initial_backoff_ms must not be greater than max_backoff_ms''
              else
                try_then (jitter_field J reconnect_json (rc_jitter_ratio reconnect)) (\<lambda>ratio.
                  Inr \<lparr>rc_initial_backoff_ms = initial, rc_max_backoff_ms = maximum,
                       rc_jitter_ratio = ratio\<rparr>)))))"

definition parse_config_json :: "'j json_lib \<Rightarrow> 'j \<Rightarrow> config_error + Config" where
  "parse_config_json J j =
     (if \<not> json_is_object J j then throw ''Config root must be a JSON object''
      else
        try_then (parse_symbols J j) (\<lambda>symbols.
        try_then (parse_positive_u64 J j ''window_ms'') (\<lambda>window_ms.
        try_then (parse_positive_u64 J j ''flush_interval_ms'') (\<lambda>flush_interval_ms.
        try_then (parse_aggregator_threads J j) (\<lambda>aggregator_threads.
        try_then (parse_required_string J j ''output_file'') (\<lambda>output_file.
        try_then (parse_required_string J j ''ws_host'') (\<lambda>ws_host.
        try_then (parse_required_string J j ''ws_port'') (\<lambda>ws_port.
        try_then (parse_reconnect_config J j) (\<lambda>reconnect.
          Inr \<lparr>cfg_symbols = symbols, cfg_window_ms = window_ms,
               cfg_flush_interval_ms = flush_interval_ms,
               cfg_aggregator_threads = aggregator_threads, cfg_output_file = output_file,
               cfg_ws_host = ws_host, cfg_ws_port = ws_port, cfg_reconnect = reconnect\<rparr>)))))))))"

definition load_from_file ::
    "'j json_lib \<Rightarrow> (string \<Rightarrow> string + 'j) \<Rightarrow> (string \<Rightarrow> string option) \<Rightarrow> string \<Rightarrow> config_error + Config" where
  "load_from_file J read_json read_file path =
     (case read_file path of
        None \<Rightarrow> throw (''Failed to open config file: '' @ path)
      | Some content \<Rightarrow>
          (case read_json content of
             Inl what \<Rightarrow> throw (''Failed to parse config file '' @ [CHR 0x27] @ path @ [CHR 0x27] @ '': '' @ what)
           | Inr j \<Rightarrow> parse_config_json J j))"

section \<open>What a valid configuration is\<close>

definition valid_symbol :: "string \<Rightarrow> bool" where
  "valid_symbol s \<longleftrightarrow> s \<noteq> [] \<and> list_all (\<lambda>c. isdigit c \<or> isupper c) s"

definition valid_reconnect :: "ReconnectConfig \<Rightarrow> bool" where
  "valid_reconnect r \<longleftrightarrow> 0 < rc_initial_backoff_ms r \<and> rc_initial_backoff_ms r \<le> rc_max_backoff_ms r
     \<and> 0 \<le> rc_jitter_ratio r \<and> rc_jitter_ratio r \<le> 1"

definition valid_config :: "Config \<Rightarrow> bool" where
  "valid_config c \<longleftrightarrow> cfg_symbols c \<noteq> [] \<and> list_all valid_symbol (cfg_symbols c)
     \<and> cfg_window_ms c \<noteq> 0 \<and> cfg_flush_interval_ms c \<noteq> 0 \<and> cfg_aggregator_threads c \<noteq> 0
     \<and> cfg_output_file c \<noteq> [] \<and> cfg_ws_host c \<noteq> [] \<and> cfg_ws_port c \<noteq> []
     \<and> valid_reconnect (cfg_reconnect c)"

text \<open>Which JSON value denotes which configuration, without the order of the checks.\<close>

definition denotes_positive :: "'j json_lib \<Rightarrow> 'j \<Rightarrow> string \<Rightarrow> u64 \<Rightarrow> bool" where
  "denotes_positive J j k n \<longleftrightarrow> typed_field J (json_is_number_unsigned J) (json_get_u64 J) j k = Some n \<and> n \<noteq> 0"

definition denotes_string :: "'j json_lib \<Rightarrow> 'j \<Rightarrow> string \<Rightarrow> string \<Rightarrow> bool" where
  "denotes_string J j k s \<longleftrightarrow> typed_field J (json_is_string J) (json_get_string J) j k = Some s \<and> s \<noteq> []"

definition denotes_symbol :: "'j json_lib \<Rightarrow> 'j \<Rightarrow> string \<Rightarrow> bool" where
  "denotes_symbol J j s \<longleftrightarrow> json_is_string J j
     \<and> (\<exists>v. json_get_string J j = Some v \<and> s = map toupper v) \<and> valid_symbol s"

definition denotes_symbols :: "'j json_lib \<Rightarrow> 'j \<Rightarrow> string list \<Rightarrow> bool" where
  "denotes_symbols J j ss \<longleftrightarrow> ss \<noteq> [] \<and>
     (\<exists>js. typed_field J (json_is_array J) (\<lambda>v. Some (json_elements J v)) j ''symbols'' = Some js
        \<and> list_all2 (denotes_symbol J) js ss)"

definition denotes_reconnect :: "'j json_lib \<Rightarrow> 'j \<Rightarrow> ReconnectConfig \<Rightarrow> bool" where
  "denotes_reconnect J j r \<longleftrightarrow>
     (if \<not> json_contains J j ''reconnect'' then r = ReconnectConfig_default
      else \<exists>o'. typed_field J (json_is_object J) Some j ''reconnect'' = Some o'
        \<and> (if json_contains J o' ''initial_backoff_ms''
           then denotes_positive J o' ''initial_backoff_ms'' (rc_initial_backoff_ms r)
           else rc_initial_backoff_ms r = 500)
        \<and> (if json_contains J o' ''max_backoff_ms''
           then denotes_positive J o' ''max_backoff_ms'' (rc_max_backoff_ms r)
           else rc_max_backoff_ms r = 30000)
        \<and> (if json_contains J o' ''jitter_ratio''
           then typed_field J (json_is_number J) (json_get_double J) o' ''jitter_ratio'' = Some (rc_jitter_ratio r)
           else rc_jitter_ratio r = rc_jitter_ratio ReconnectConfig_default)
        \<and> rc_initial_backoff_ms r \<le> rc_max_backoff_ms r
        \<and> 0 \<le> rc_jitter_ratio r \<and> rc_jitter_ratio r \<le> 1)"

definition denotes_config :: "'j json_lib \<Rightarrow> 'j \<Rightarrow> Config \<Rightarrow> bool" where
  "denotes_config J j c \<longleftrightarrow> json_is_object J j
     \<and> denotes_symbols J j (cfg_symbols c)
     \<and> denotes_positive J j ''window_ms'' (cfg_window_ms c)
     \<and> denotes_positive J j ''flush_interval_ms'' (cfg_flush_interval_ms c)
     \<and> (if json_contains J j ''aggregator_threads''
        then denotes_positive J j ''aggregator_threads'' (cfg_aggregator_threads c)
        else cfg_aggregator_threads c = 1)
     \<and> denotes_string J j ''output_file'' (cfg_output_file c)
     \<and> denotes_string J j ''ws_host'' (cfg_ws_host c)
     \<and> denotes_string J j ''ws_port'' (cfg_ws_port c)
     \<and> denotes_reconnect J j (cfg_reconnect c)"

section \<open>Checked results\<close>

text \<open>
  A result is checked for a relation when it is never a library failure and returns exactly
  the values of the relation. Sequencing keeps that.
\<close>

definition checked :: "config_error + 'a \<Rightarrow> ('a \<Rightarrow> bool) \<Rightarrow> bool" where
  "checked r D \<longleftrightarrow> (\<forall>f. r \<noteq> Inl (Library f)) \<and> (\<forall>v. r = Inr v \<longleftrightarrow> D v)"

named_theorems checked_rules

lemma checked_Inr [checked_rules]: "checked (Inr x) (\<lambda>v. v = x)"
  by (auto simp: checked_def)

lemma checked_throw [checked_rules]: "checked (throw msg) (\<lambda>v. False)"
  by (simp add: checked_def throw_def)

lemma checked_try [checked_rules]:
  assumes "checked a D" and "\<And>x. D x \<Longrightarrow> checked (f x) (E x)"
  shows "checked (try_then a f) (\<lambda>v. \<exists>x. D x \<and> E x v)"
proof (cases a)
  case (Inl e)
  with assms(1) show ?thesis by (auto simp: checked_def)
next
  case (Inr b)
  then have D: "D x \<longleftrightarrow> x = b" for x
    using assms(1) by (auto simp: checked_def)
  have "checked (f b) (E b)"
    using assms(2) D by blast
  then show ?thesis
    by (simp add: checked_def D Inr)
qed

lemma checked_if [checked_rules]:
  assumes "P \<Longrightarrow> checked a D" and "\<not> P \<Longrightarrow> checked b E"
  shows "checked (if P then a else b) (\<lambda>v. if P then D v else E v)"
  using assms by simp

lemma checked_cong: "checked r D \<Longrightarrow> (\<And>v. D v \<longleftrightarrow> E v) \<Longrightarrow> checked r E"
  by (simp add: checked_def)

lemma checked_at:
  assumes "json_documented J" and "json_contains J j k"
  shows "checked (lib (json_at J j k)) (\<lambda>v. json_index J j k = Some v)"
  using json_documentedD(2) [OF assms] by (auto simp: checked_def lib_def json_at_def)

lemma checked_get_some: "get v \<noteq> None \<Longrightarrow> checked (lib (checked_get get v)) (\<lambda>x. get v = Some x)"
  by (auto simp: checked_def lib_def checked_get_def)

lemma checked_require: "checked (require_field J j k) (\<lambda>u. json_contains J j k)"
  by (auto simp: checked_def require_field_def throw_def)

text \<open>One required member of a given type, with a test on its value.\<close>

lemma checked_field:
  assumes "json_documented J" and "\<And>v. is_type v \<Longrightarrow> get v \<noteq> None"
  shows "checked (try_then (require_field J j k) (\<lambda>_. try_then (lib (json_at J j k)) (\<lambda>v.
       if \<not> is_type v then throw msg
       else try_then (lib (checked_get get v)) (\<lambda>x. if bad x then throw msg' else Inr x))))
     (\<lambda>x. typed_field J is_type get j k = Some x \<and> \<not> bad x)"
proof (rule checked_cong)
  show "checked (try_then (require_field J j k) (\<lambda>_. try_then (lib (json_at J j k)) (\<lambda>v.
       if \<not> is_type v then throw msg
       else try_then (lib (checked_get get v)) (\<lambda>x. if bad x then throw msg' else Inr x))))
     (\<lambda>y. \<exists>u::unit. json_contains J j k \<and> (\<exists>v. json_index J j k = Some v \<and>
        (if \<not> is_type v then False else \<exists>x. get v = Some x \<and> (if bad x then False else y = x))))"
    using assms by (intro checked_rules checked_require checked_at checked_get_some) auto
qed (auto simp: typed_field_def split: option.splits)

lemma checked_positive:
  "json_documented J \<Longrightarrow> checked (parse_positive_u64 J j k) (denotes_positive J j k)"
  unfolding parse_positive_u64_def denotes_positive_def
  by (rule checked_field) (auto dest: json_documentedD)

lemma checked_string:
  "json_documented J \<Longrightarrow> checked (parse_required_string J j k) (denotes_string J j k)"
  unfolding parse_required_string_def denotes_string_def
  by (rule checked_field) (auto dest: json_documentedD)

lemma upper_symbol: "list_all is_valid_symbol_char (map toupper v) \<longleftrightarrow> list_all (\<lambda>c. isdigit c \<or> isupper c) (map toupper v)"
proof -
  have "isalnum (toupper c) \<longleftrightarrow> isdigit (toupper c) \<or> isupper (toupper c)" for c
    using toupper_not_lower [of c] unfolding isalnum_def by blast
  then show ?thesis
    by (simp add: list_all_iff is_valid_symbol_char_def del: isalnum_toupper)
qed

lemma checked_symbol:
  assumes "json_documented J"
  shows "checked (parse_symbol J item) (denotes_symbol J item)"
proof (cases "json_is_string J item")
  case True
  then obtain v where "json_get_string J item = Some v"
    using json_documentedD(3) [OF assms] by blast
  with True show ?thesis
    by (auto simp: checked_def parse_symbol_def denotes_symbol_def valid_symbol_def checked_get_def
        lib_def throw_def Let_def to_upper_ascii_def upper_symbol)
qed (simp add: checked_def parse_symbol_def denotes_symbol_def throw_def)

lemma checked_symbol_items:
  assumes "json_documented J"
  shows "checked (parse_symbol_items J js) (list_all2 (denotes_symbol J) js)"
proof (induction js)
  case (Cons j js)
  have "checked (parse_symbol_items J (j # js))
      (\<lambda>ss. \<exists>s. denotes_symbol J j s \<and> (\<exists>ss'. list_all2 (denotes_symbol J) js ss' \<and> ss = s # ss'))"
    unfolding parse_symbol_items.simps by (intro checked_rules checked_symbol [OF assms] Cons.IH)
  then show ?case
    by (rule checked_cong) (auto simp: list_all2_Cons1)
qed (auto simp: checked_def)

lemma checked_symbols:
  assumes "json_documented J"
  shows "checked (parse_symbols J j) (denotes_symbols J j)"
proof (rule checked_cong)
  show "checked (parse_symbols J j) (\<lambda>ss. \<exists>u::unit. json_contains J j ''symbols'' \<and>
      (\<exists>v. json_index J j ''symbols'' = Some v \<and> (if \<not> json_is_array J v then False
        else \<exists>ss'. list_all2 (denotes_symbol J) (json_elements J v) ss' \<and> (if ss' = [] then False else ss = ss'))))"
    unfolding parse_symbols_def
    by (intro checked_rules checked_require checked_at [OF assms] checked_symbol_items [OF assms])
qed (auto simp: denotes_symbols_def typed_field_def split: option.splits if_splits)

lemma checked_backoff:
  assumes "json_documented J"
  shows "checked (backoff_field J j k d) (\<lambda>v. if json_contains J j k then denotes_positive J j k v else v = d)"
  unfolding backoff_field_def by (intro checked_rules checked_positive [OF assms])

lemma checked_jitter:
  assumes "json_documented J"
  shows "checked (jitter_field J j d) (\<lambda>r. if json_contains J j ''jitter_ratio''
     then typed_field J (json_is_number J) (json_get_double J) j ''jitter_ratio'' = Some r \<and> 0 \<le> r \<and> r \<le> 1
     else r = d)"
proof (rule checked_cong)
  show "checked (jitter_field J j d) (\<lambda>r. if json_contains J j ''jitter_ratio'' then
      (\<exists>v. json_index J j ''jitter_ratio'' = Some v \<and> (if \<not> json_is_number J v then False
        else \<exists>x. json_get_double J v = Some x \<and> (if x < 0 \<or> x > 1 then False else r = x)))
      else r = d)"
    unfolding jitter_field_def
    using json_documentedD(6) [OF assms]
    by (intro checked_rules checked_at [OF assms] checked_get_some) auto
qed (auto simp: typed_field_def not_less split: option.splits)

lemma reconnect_members:
  "(\<exists>i. A i \<and> (\<exists>m. B m \<and> (if i > m then False else \<exists>q. C q
       \<and> r = \<lparr>rc_initial_backoff_ms = i, rc_max_backoff_ms = m, rc_jitter_ratio = q\<rparr>)))
   \<longleftrightarrow> A (rc_initial_backoff_ms r) \<and> B (rc_max_backoff_ms r)
     \<and> rc_initial_backoff_ms r \<le> rc_max_backoff_ms r \<and> C (rc_jitter_ratio r)"
  by (cases r) (auto simp: not_less)

lemma checked_reconnect:
  assumes "json_documented J"
  shows "checked (parse_reconnect_config J j) (denotes_reconnect J j)"
proof (rule checked_cong)
  let ?d = ReconnectConfig_default
  let ?A = "\<lambda>o' i. if json_contains J o' ''initial_backoff_ms'' then denotes_positive J o' ''initial_backoff_ms'' i
     else i = rc_initial_backoff_ms ?d"
  let ?B = "\<lambda>o' m. if json_contains J o' ''max_backoff_ms'' then denotes_positive J o' ''max_backoff_ms'' m
     else m = rc_max_backoff_ms ?d"
  let ?C = "\<lambda>o' q. if json_contains J o' ''jitter_ratio''
     then typed_field J (json_is_number J) (json_get_double J) o' ''jitter_ratio'' = Some q \<and> 0 \<le> q \<and> q \<le> 1
     else q = rc_jitter_ratio ?d"
  let ?D = "\<lambda>r. if \<not> json_contains J j ''reconnect'' then r = ?d
      else \<exists>o'. json_index J j ''reconnect'' = Some o' \<and> (if \<not> json_is_object J o' then False
        else \<exists>i. ?A o' i \<and> (\<exists>m. ?B o' m \<and> (if i > m then False else \<exists>q. ?C o' q
           \<and> r = \<lparr>rc_initial_backoff_ms = i, rc_max_backoff_ms = m, rc_jitter_ratio = q\<rparr>)))"
  show "checked (parse_reconnect_config J j) ?D"
    unfolding parse_reconnect_config_def Let_def
    by (intro checked_rules checked_at [OF assms] checked_backoff [OF assms] checked_jitter [OF assms]) simp_all
  show "?D r \<longleftrightarrow> denotes_reconnect J j r" for r
  proof (cases "json_contains J j ''reconnect''")
    case True
    then obtain v where v: "json_index J j ''reconnect'' = Some v"
      using json_documentedD(2) [OF assms] by blast
    have obj: "typed_field J (json_is_object J) Some j ''reconnect'' = (if json_is_object J v then Some v else None)"
      by (simp add: typed_field_def True v)
    show ?thesis
      unfolding reconnect_members denotes_reconnect_def obj
      using True v by (auto simp: ReconnectConfig_default_def)
  qed (simp add: denotes_reconnect_def)
qed

lemma checked_threads:
  assumes "json_documented J"
  shows "checked (parse_aggregator_threads J j) (\<lambda>n. if \<not> json_contains J j ''aggregator_threads'' then n = 1
     else denotes_positive J j ''aggregator_threads'' n)"
  unfolding parse_aggregator_threads_def by (intro checked_rules checked_positive [OF assms])

lemma checked_config:
  assumes "json_documented J"
  shows "checked (parse_config_json J j) (denotes_config J j)"
proof (rule checked_cong)
  show "checked (parse_config_json J j) (\<lambda>c. if \<not> json_is_object J j then False
    else \<exists>ss. denotes_symbols J j ss \<and> (\<exists>w. denotes_positive J j ''window_ms'' w
      \<and> (\<exists>f. denotes_positive J j ''flush_interval_ms'' f
      \<and> (\<exists>n. (if \<not> json_contains J j ''aggregator_threads'' then n = 1
               else denotes_positive J j ''aggregator_threads'' n)
      \<and> (\<exists>out. denotes_string J j ''output_file'' out \<and> (\<exists>h. denotes_string J j ''ws_host'' h
      \<and> (\<exists>p. denotes_string J j ''ws_port'' p \<and> (\<exists>r. denotes_reconnect J j r
      \<and> c = \<lparr>cfg_symbols = ss, cfg_window_ms = w, cfg_flush_interval_ms = f, cfg_aggregator_threads = n,
             cfg_output_file = out, cfg_ws_host = h, cfg_ws_port = p, cfg_reconnect = r\<rparr>))))))))"
    unfolding parse_config_json_def
    by (intro checked_rules checked_symbols checked_positive checked_threads checked_string
        checked_reconnect assms)
next
  fix c
  show "(if \<not> json_is_object J j then False
    else \<exists>ss. denotes_symbols J j ss \<and> (\<exists>w. denotes_positive J j ''window_ms'' w
      \<and> (\<exists>f. denotes_positive J j ''flush_interval_ms'' f
      \<and> (\<exists>n. (if \<not> json_contains J j ''aggregator_threads'' then n = 1
               else denotes_positive J j ''aggregator_threads'' n)
      \<and> (\<exists>out. denotes_string J j ''output_file'' out \<and> (\<exists>h. denotes_string J j ''ws_host'' h
      \<and> (\<exists>p. denotes_string J j ''ws_port'' p \<and> (\<exists>r. denotes_reconnect J j r
      \<and> c = \<lparr>cfg_symbols = ss, cfg_window_ms = w, cfg_flush_interval_ms = f, cfg_aggregator_threads = n,
             cfg_output_file = out, cfg_ws_host = h, cfg_ws_port = p, cfg_reconnect = r\<rparr>))))))))
    \<longleftrightarrow> denotes_config J j c"
    by (cases c) (auto simp: denotes_config_def)
qed

section \<open>Properties\<close>

lemma denoted_valid:
  assumes "denotes_config J j c"
  shows "valid_config c"
proof -
  have syms: "cfg_symbols c \<noteq> []" "list_all valid_symbol (cfg_symbols c)"
    using assms by (auto simp: denotes_config_def denotes_symbols_def denotes_symbol_def list_all_iff
        list_all2_conv_all_nth in_set_conv_nth)
  have pos: "denotes_positive J' j' k n \<Longrightarrow> n \<noteq> 0" "denotes_string J' j' k s \<Longrightarrow> s \<noteq> []"
    for J' :: "'a json_lib" and j' k n s
    by (simp_all add: denotes_positive_def denotes_string_def)
  have "valid_reconnect (cfg_reconnect c)"
  proof (cases "json_contains J j ''reconnect''")
    case True
    then obtain r where r: "cfg_reconnect c = r" "denotes_reconnect J j r"
      using assms by (auto simp: denotes_config_def)
    then have "rc_initial_backoff_ms r \<noteq> 0"
      using True by (auto simp: denotes_reconnect_def denotes_positive_def split: if_splits)
    then have "0 < rc_initial_backoff_ms r"
      by (simp add: word_neq_0_conv)
    with r True show ?thesis
      by (auto simp: denotes_reconnect_def valid_reconnect_def)
  next
    case False
    then show ?thesis
      using assms by (simp add: denotes_config_def denotes_reconnect_def valid_reconnect_def
          ReconnectConfig_default_def)
  qed
  with syms assms pos show ?thesis
    unfolding valid_config_def denotes_config_def by (metis zero_neq_one)
qed

lemma loaded_valid:
  assumes "json_documented J" and "load_from_file J read_json read_file path = Inr c"
  shows "valid_config c"
proof -
  obtain j where "parse_config_json J j = Inr c"
    using assms(2) by (auto simp: load_from_file_def throw_def split: option.splits sum.splits)
  then have "denotes_config J j c"
    using checked_config [OF assms(1)] by (simp add: checked_def)
  then show ?thesis
    by (rule denoted_valid)
qed

lemma loading_error:
  assumes "json_documented J" and "load_from_file J read_json read_file path = Inl error"
  shows "\<exists>msg. error = RuntimeError msg"
proof -
  have "parse_config_json J j \<noteq> Inl (Library f)" for j f
    using checked_config [OF assms(1)] by (simp add: checked_def)
  with assms(2) show ?thesis
    by (cases error) (auto simp: load_from_file_def throw_def split: option.splits sum.splits)
qed

text \<open>
  A loaded configuration is valid. Whatever the file contains, if
  \<^verbatim>\<open>load_from_file\<close> returns, there is at least one symbol, every symbol is a non-empty word of
  digits and upper-case letters, window, flush interval and thread count are positive, the
  output file, host and port are not empty, and the backoff range and the jitter ratio are in
  order.
\<close>

theorem load_from_file_valid:
  assumes "json_documented J" and "load_from_file J read_json read_file path = Inr c"
  shows "valid_config c"
  using assms by (rule loaded_valid)

text \<open>
  C21: the loader accepts exactly the documents it documents and reports everything else as a
  \<^verbatim>\<open>std::runtime_error\<close>. It returns \<open>c\<close> exactly when the file opens, parses, and its JSON
  value denotes \<open>c\<close>; in every other case it throws a runtime error with a message, never an
  exception of the JSON library.
\<close>

theorem load_from_file_correct:
  assumes "json_documented J"
  shows "(load_from_file J read_json read_file path = Inr c \<longleftrightarrow>
       (\<exists>content j. read_file path = Some content \<and> read_json content = Inr j \<and> denotes_config J j c))
     \<and> ((\<forall>c. load_from_file J read_json read_file path \<noteq> Inr c) \<longrightarrow>
       (\<exists>msg. load_from_file J read_json read_file path = Inl (RuntimeError msg)))"
proof -
  have parse: "parse_config_json J j \<noteq> Inl (Library f)" "parse_config_json J j = Inr c' \<longleftrightarrow> denotes_config J j c'"
    for j f c'
    using checked_config [OF assms] by (simp_all add: checked_def)
  have "\<exists>msg. r = Inl (RuntimeError msg)" if "\<forall>f. r \<noteq> Inl (Library f)" "\<forall>c. r \<noteq> Inr c" for r :: "config_error + Config"
    using that by (metis config_error.exhaust sum.exhaust)
  then show ?thesis
    using parse by (auto simp: load_from_file_def throw_def split: option.splits sum.splits)
qed

definition sample_config :: json_value where
  "sample_config = JObject [(''symbols'', JArray [JString ''btcusdt'', JString ''ETHUSDT'']),
     (''window_ms'', JUnsigned 1000), (''flush_interval_ms'', JUnsigned 5000),
     (''output_file'', JString ''stats.log''), (''ws_host'', JString ''stream.binance.com''),
     (''ws_port'', JString ''9443''),
     (''reconnect'', JObject [(''max_backoff_ms'', JUnsigned 8000)])]"

definition sample_loaded :: Config where
  "sample_loaded = \<lparr>cfg_symbols = [''BTCUSDT'', ''ETHUSDT''], cfg_window_ms = 1000,
     cfg_flush_interval_ms = 5000, cfg_aggregator_threads = 1, cfg_output_file = ''stats.log'',
     cfg_ws_host = ''stream.binance.com'', cfg_ws_port = ''9443'',
     cfg_reconnect = \<lparr>rc_initial_backoff_ms = 500, rc_max_backoff_ms = 8000,
       rc_jitter_ratio = 3602879701896397 / 18014398509481984\<rparr>\<rparr>"

lemma load_sample:
  "load_from_file (table_json table) (\<lambda>_. Inr sample_config) (\<lambda>_. Some []) path = Inr sample_loaded"
proof -
  have upper: "to_upper_ascii ''btcusdt'' = ''BTCUSDT''" "to_upper_ascii ''ETHUSDT'' = ''ETHUSDT''"
    by code_simp+
  show ?thesis
    by (simp add: sample_loaded_def load_from_file_def parse_config_json_def sample_config_def table_json_def
        parse_symbols_def require_field_def json_at_def lib_def parse_symbol_def checked_get_def upper Let_def
        is_valid_symbol_char_def isalnum_def isdigit_def isupper_def islower_def
        parse_positive_u64_def parse_aggregator_threads_def parse_required_string_def
        parse_reconnect_config_def backoff_field_def jitter_field_def ReconnectConfig_default_def)
qed

theorem load_from_file_valid_witness:
  "valid_config sample_loaded \<and> cfg_symbols sample_loaded = [''BTCUSDT'', ''ETHUSDT'']"
  using load_from_file_valid [OF table_json_documented load_sample] by (simp add: sample_loaded_def)

theorem load_from_file_correct_witness:
  "denotes_config (table_json []) sample_config sample_loaded \<and> cfg_window_ms sample_loaded = 1000"
  using load_from_file_correct [OF table_json_documented, THEN conjunct1, THEN iffD1, OF load_sample]
  by (auto simp: sample_loaded_def)

end
