(* ===== verification/BinanceWebSocketClient.thy ===== *)
theory BinanceWebSocketClient
  imports ConnectionError BoundedQueue ConfigLoader
begin

text \<open>
  \<^verbatim>\<open>app/include/agg/net/BinanceWebSocketClient.hpp\<close> and
  \<^verbatim>\<open>app/src/net/BinanceWebSocketClient.cpp\<close>.

  \<^verbatim>\<open>run\<close> is a sequence of steps between which another thread can call \<^verbatim>\<open>stop\<close>. The networking and
  TLS libraries are not part of the program: what a blocking call returns is an input of the
  step, any error code or success at any time; a read may succeed also on a socket that was
  closed, since the libraries keep frames they have already received. One fact of these libraries
  is built in: a successful connect leaves the socket open, also when it was closed before, since
  it opens a socket itself.
\<close>

section \<open>The request target\<close>

definition build_combined_stream_target :: "string list \<Rightarrow> string" where
  "build_combined_stream_target symbols =
     foldl (\<lambda>target (i, symbol).
        (if i \<noteq> 0 then target @ ''/'' else target) @ (map tolower symbol @ ''@trade''))
       ''/stream?streams='' (enumerate 0 symbols)"

section \<open>The client\<close>

text \<open>
  Where \<^verbatim>\<open>run\<close> is: before the assignment to the stop flag, in or before one of its calls, with a
  message in hand for the queue, or after the return.
\<close>

datatype client_phase =
    ClientIdle
  | ClientResolve
  | ClientCheckStop
  | ClientEmplace
  | ClientSni
  | ClientConnect
  | ClientTls
  | ClientHandshake
  | ClientRead
  | ClientPush string
  | ClientReturned

text \<open>\<open>wc_ws\<close> is the optional stream, with whether its socket is open.\<close>

record BinanceWebSocketClient =
  wc_host :: string
  wc_port :: string
  wc_target :: string
  wc_stop_requested :: bool
  wc_ws :: "bool option"
  wc_phase :: client_phase

definition BinanceWebSocketClient_new :: "string \<Rightarrow> string \<Rightarrow> string \<Rightarrow> BinanceWebSocketClient" where
  "BinanceWebSocketClient_new host port target =
     \<lparr>wc_host = host, wc_port = port, wc_target = target, wc_stop_requested = False, wc_ws = None,
      wc_phase = ClientIdle\<rparr>"

text \<open>What the call a thread is in returns, and what a step shows.\<close>

datatype 'ec net_input =
    Silent
  | Returned 'ec
  | SniReturned bool 'ec
  | ReadReturned 'ec string
  | DelayPassed "rat \<Rightarrow> rat \<Rightarrow> rat"

datatype 'ec client_event =
    Quiet
  | Resolving string string
  | Requested string string
  | Received string
  | Pushed string bool
  | Reported ConnectionStage ConnectionErrorKind 'ec

definition client_fails ::
    "'ec error_codes \<Rightarrow> ConnectionStage \<Rightarrow> 'ec \<Rightarrow> 'q \<Rightarrow> BinanceWebSocketClient
     \<Rightarrow> ('ec client_event \<times> 'q \<times> BinanceWebSocketClient) option" where
  "client_fails E stage ec q c =
     Some (Reported stage (classify_error E stage ec) ec, q, c\<lparr>wc_phase := ClientReturned\<rparr>)"

definition BinanceWebSocketClient_run ::
    "'ec error_codes \<Rightarrow> 'ec net_input \<Rightarrow> string BoundedQueue \<Rightarrow> BinanceWebSocketClient
     \<Rightarrow> ('ec client_event \<times> string BoundedQueue \<times> BinanceWebSocketClient) option" where
  "BinanceWebSocketClient_run E input q c =
     (case (wc_phase c, input) of
        (ClientIdle, Silent) \<Rightarrow> Some (Quiet, q, c\<lparr>wc_stop_requested := False, wc_phase := ClientResolve\<rparr>)
      | (ClientResolve, Returned ec) \<Rightarrow>
          if ec_failed E ec then client_fails E Resolve ec q c
          else Some (Resolving (wc_host c) (wc_port c), q, c\<lparr>wc_phase := ClientCheckStop\<rparr>)
      | (ClientCheckStop, Silent) \<Rightarrow>
          Some (Quiet, q, c\<lparr>wc_phase := if wc_stop_requested c then ClientReturned else ClientEmplace\<rparr>)
      | (ClientEmplace, Silent) \<Rightarrow> Some (Quiet, q, c\<lparr>wc_ws := Some False, wc_phase := ClientSni\<rparr>)
      | (ClientSni, SniReturned ok ec) \<Rightarrow>
          if \<not> ok then client_fails E TlsHandshake ec q c
          else Some (Quiet, q, c\<lparr>wc_phase := ClientConnect\<rparr>)
      | (ClientConnect, Returned ec) \<Rightarrow>
          if ec_failed E ec then client_fails E TcpConnect ec q c
          else Some (Quiet, q, c\<lparr>wc_ws := Some True, wc_phase := ClientTls\<rparr>)
      | (ClientTls, Returned ec) \<Rightarrow>
          if ec_failed E ec then client_fails E TlsHandshake ec q c
          else Some (Quiet, q, c\<lparr>wc_phase := ClientHandshake\<rparr>)
      | (ClientHandshake, Returned ec) \<Rightarrow>
          if ec_failed E ec then client_fails E WebSocketHandshake ec q c
          else Some (Requested (wc_host c) (wc_target c), q, c\<lparr>wc_phase := ClientRead\<rparr>)
      | (ClientRead, ReadReturned ec msg) \<Rightarrow>
          if ec_failed E ec then client_fails E Read ec q c
          else Some (Received msg, q, c\<lparr>wc_phase := ClientPush msg\<rparr>)
      | (ClientPush msg, Silent) \<Rightarrow>
          (case bq_push msg q of
             None \<Rightarrow> None
           | Some (ok, q') \<Rightarrow> Some (Pushed msg ok, q', c\<lparr>wc_phase := ClientRead\<rparr>))
      | _ \<Rightarrow> None)"

text \<open>
  \<^verbatim>\<open>stop\<close> is two critical sections, the flag and the closing under the mutex of the stream; the
  error codes of cancel and close are ignored. The destructor calls it on an object that no
  other thread uses any more.
\<close>

definition client_request_stop :: "BinanceWebSocketClient \<Rightarrow> BinanceWebSocketClient" where
  "client_request_stop c = c\<lparr>wc_stop_requested := True\<rparr>"

definition client_close :: "BinanceWebSocketClient \<Rightarrow> BinanceWebSocketClient" where
  "client_close c = (case wc_ws c of None \<Rightarrow> c | Some _ \<Rightarrow> c\<lparr>wc_ws := Some False\<rparr>)"

definition BinanceWebSocketClient_stop :: "BinanceWebSocketClient \<Rightarrow> BinanceWebSocketClient" where
  "BinanceWebSocketClient_stop c = client_close (client_request_stop c)"

section \<open>Runs of a client\<close>

text \<open>
  Any interleaving of the steps of \<^verbatim>\<open>run\<close> with calls of \<^verbatim>\<open>stop\<close>; the queue may be changed by
  other threads between any two steps.
\<close>

inductive client_trace ::
    "'ec error_codes \<Rightarrow> BinanceWebSocketClient \<Rightarrow> 'ec client_event list \<Rightarrow> BinanceWebSocketClient \<Rightarrow> bool"
  for E c0 where
  trace_start: "client_trace E c0 [] c0"
| trace_run: "client_trace E c0 es c \<Longrightarrow> BinanceWebSocketClient_run E input q c = Some (e, q', c') \<Longrightarrow>
     client_trace E c0 (es @ [e]) c'"
| trace_flag: "client_trace E c0 es c \<Longrightarrow> client_trace E c0 es (client_request_stop c)"
| trace_close: "client_trace E c0 es c \<Longrightarrow> client_trace E c0 es (client_close c)"

fun reports_of :: "'ec client_event \<Rightarrow> (ConnectionStage \<times> ConnectionErrorKind \<times> 'ec) list" where
  "reports_of (Reported stage kind ec) = [(stage, kind, ec)]"
| "reports_of _ = []"

fun received_of :: "'ec client_event \<Rightarrow> string list" where
  "received_of (Received m) = [m]"
| "received_of _ = []"

fun pushed_of :: "'ec client_event \<Rightarrow> string list" where
  "pushed_of (Pushed m ok) = [m]"
| "pushed_of _ = []"

fun message_in_hand :: "client_phase \<Rightarrow> string list" where
  "message_in_hand (ClientPush m) = [m]"
| "message_in_hand _ = []"

abbreviation reports :: "'ec client_event list \<Rightarrow> (ConnectionStage \<times> ConnectionErrorKind \<times> 'ec) list" where
  "reports es \<equiv> concat (map reports_of es)"

abbreviation received_messages :: "'ec client_event list \<Rightarrow> string list" where
  "received_messages es \<equiv> concat (map received_of es)"

abbreviation pushed_messages :: "'ec client_event list \<Rightarrow> string list" where
  "pushed_messages es \<equiv> concat (map pushed_of es)"

text \<open>Which phases come after the websocket handshake, and before the stream exists.\<close>

fun handshake_done :: "client_phase \<Rightarrow> bool" where
  "handshake_done ClientRead = True"
| "handshake_done (ClientPush m) = True"
| "handshake_done _ = False"

fun before_stream :: "client_phase \<Rightarrow> bool" where
  "before_stream ph = (ph \<in> {ClientIdle, ClientResolve, ClientCheckStop, ClientEmplace})"

lemma stop_simps [simp]:
  "wc_phase (client_request_stop c) = wc_phase c" "wc_phase (client_close c) = wc_phase c"
  "wc_ws (client_request_stop c) = wc_ws c" "wc_ws (client_close c) = map_option (\<lambda>_. False) (wc_ws c)"
  "wc_stop_requested (client_request_stop c)" "wc_stop_requested (client_close c) = wc_stop_requested c"
  "wc_host (client_request_stop c) = wc_host c" "wc_host (client_close c) = wc_host c"
  "wc_target (client_request_stop c) = wc_target c" "wc_target (client_close c) = wc_target c"
  by (simp_all add: client_request_stop_def client_close_def split: option.splits)

lemmas client_run_splits = client_phase.splits net_input.splits if_splits option.splits

lemma run_step_reports:
  assumes "BinanceWebSocketClient_run E input q c = Some (e, q', c')"
  shows "wc_phase c \<noteq> ClientReturned"
    and "reports_of e = [] \<or> (\<exists>stage ec. reports_of e = [(stage, classify_error E stage ec, ec)])"
    and "wc_phase c' = ClientReturned \<longleftrightarrow>
       reports_of e \<noteq> [] \<or> (wc_phase c = ClientCheckStop \<and> wc_stop_requested c)"
    and "reports_of e \<noteq> [] \<Longrightarrow> wc_phase c \<noteq> ClientCheckStop"
  using assms
  by (auto simp: BinanceWebSocketClient_run_def client_fails_def split: client_run_splits)

lemma run_step_stream:
  assumes "BinanceWebSocketClient_run E input q c = Some (e, q', c')"
    and "before_stream (wc_phase c) \<Longrightarrow> wc_ws c = None"
  shows "before_stream (wc_phase c') \<Longrightarrow> wc_ws c' = None"
    and "wc_phase c = ClientCheckStop \<Longrightarrow> wc_ws c' = None"
    and "wc_phase c = ClientCheckStop \<Longrightarrow> wc_stop_requested c' = wc_stop_requested c"
  using assms
  by (auto simp: BinanceWebSocketClient_run_def client_fails_def split: client_run_splits)

lemma run_step_messages:
  assumes "BinanceWebSocketClient_run E input q c = Some (e, q', c')"
  shows "message_in_hand (wc_phase c) @ received_of e = pushed_of e @ message_in_hand (wc_phase c')"
    and "received_of e \<noteq> [] \<Longrightarrow> handshake_done (wc_phase c)"
    and "handshake_done (wc_phase c') \<Longrightarrow>
       handshake_done (wc_phase c) \<or> e = Requested (wc_host c) (wc_target c)"
    and "wc_host c' = wc_host c" and "wc_target c' = wc_target c" and "wc_port c' = wc_port c"
  using assms
  by (auto simp: BinanceWebSocketClient_run_def client_fails_def split: client_run_splits)

definition report_inv :: "'ec error_codes \<Rightarrow> 'ec client_event list \<Rightarrow> BinanceWebSocketClient \<Rightarrow> bool" where
  "report_inv E es c \<longleftrightarrow> (before_stream (wc_phase c) \<longrightarrow> wc_ws c = None)
     \<and> (if wc_phase c = ClientReturned
        then (\<exists>stage ec. reports es = [(stage, classify_error E stage ec, ec)])
           \<or> reports es = [] \<and> wc_ws c = None \<and> wc_stop_requested c
        else reports es = [])"

lemma trace_reports: "client_trace E (BinanceWebSocketClient_new host port target) es c \<Longrightarrow> report_inv E es c"
proof (induction rule: client_trace.induct)
  case (trace_run es c input q e q' c')
  note R = run_step_reports [OF trace_run(2)]
  have ws: "before_stream (wc_phase c) \<Longrightarrow> wc_ws c = None" and none: "reports es = []"
    using trace_run(3) R(1) by (simp_all add: report_inv_def)
  note S = run_step_stream [OF trace_run(2) ws]
  show ?case
  proof (cases "reports_of e = []")
    case True
    with R(3) S none show ?thesis by (auto simp: report_inv_def)
  next
    case False
    with R(2,3) S(1) none show ?thesis by (auto simp: report_inv_def)
  qed
qed (auto simp: report_inv_def BinanceWebSocketClient_new_def split: if_splits)

definition message_inv :: "'ec client_event list \<Rightarrow> BinanceWebSocketClient \<Rightarrow> bool" where
  "message_inv es c \<longleftrightarrow> received_messages es = pushed_messages es @ message_in_hand (wc_phase c)
     \<and> (received_messages es \<noteq> [] \<or> handshake_done (wc_phase c) \<longrightarrow>
          Requested (wc_host c) (wc_target c) \<in> set es)"

lemma message_inv_stop [simp]:
  "message_inv es (client_request_stop c) = message_inv es c" "message_inv es (client_close c) = message_inv es c"
  by (simp_all only: message_inv_def stop_simps)

lemma trace_messages:
  "client_trace E (BinanceWebSocketClient_new host port target) es c \<Longrightarrow>
     message_inv es c \<and> wc_host c = host \<and> wc_target c = target"
proof (induction rule: client_trace.induct)
  case (trace_run es c input q e q' c')
  note M = run_step_messages [OF trace_run(2)]
  have "received_messages (es @ [e]) = pushed_messages es @ (message_in_hand (wc_phase c) @ received_of e)"
    using trace_run(3) by (simp add: message_inv_def)
  also have "\<dots> = pushed_messages (es @ [e]) @ message_in_hand (wc_phase c')"
    by (simp add: M(1))
  finally have messages: "received_messages (es @ [e]) = pushed_messages (es @ [e]) @ message_in_hand (wc_phase c')" .
  have "Requested (wc_host c) (wc_target c) \<in> set (es @ [e])"
    if new: "received_messages (es @ [e]) \<noteq> [] \<or> handshake_done (wc_phase c')"
  proof -
    have "received_messages (es @ [e]) = received_messages es @ received_of e"
      by simp
    with new M(2,3) have "received_messages es \<noteq> [] \<or> handshake_done (wc_phase c)
        \<or> e = Requested (wc_host c) (wc_target c)"
      by (metis append_Nil2)
    with trace_run(3) show ?thesis
      unfolding message_inv_def by (metis in_set_conv_decomp Un_iff set_append)
  qed
  with messages trace_run(3) M(4,5) show ?case
    unfolding message_inv_def by simp
next
  case trace_start
  then show ?case by (simp add: message_inv_def BinanceWebSocketClient_new_def)
qed simp_all

section \<open>Executable schedules\<close>

datatype 'ec client_action = RunStep "'ec net_input" | StopFlag | StopClose

fun run_client ::
    "'ec error_codes \<Rightarrow> 'ec client_action list \<Rightarrow> string BoundedQueue \<Rightarrow> BinanceWebSocketClient
     \<Rightarrow> ('ec client_event list \<times> string BoundedQueue \<times> BinanceWebSocketClient) option" where
  "run_client E [] q c = Some ([], q, c)"
| "run_client E (RunStep input # acts) q c =
     (case BinanceWebSocketClient_run E input q c of
        None \<Rightarrow> None
      | Some (e, q', c') \<Rightarrow> map_option (\<lambda>(es, q'', c''). (e # es, q'', c'')) (run_client E acts q' c'))"
| "run_client E (StopFlag # acts) q c = run_client E acts q (client_request_stop c)"
| "run_client E (StopClose # acts) q c = run_client E acts q (client_close c)"

lemma run_client_trace:
  "run_client E acts q c = Some (es, q', c') \<Longrightarrow> client_trace E c0 es0 c \<Longrightarrow> client_trace E c0 (es0 @ es) c'"
proof (induction E acts q c arbitrary: es0 es rule: run_client.induct)
  case (2 E input acts q c)
  then obtain e q1 c1 es1 where step: "BinanceWebSocketClient_run E input q c = Some (e, q1, c1)"
    "run_client E acts q1 c1 = Some (es1, q', c')" "es = e # es1"
    by (auto split: option.splits)
  from "2.IH" [OF step(1) _ _ step(2) trace_run [OF "2.prems"(2) step(1)]] step(3) show ?case by simp
qed (auto intro: client_trace.intros)

lemma run_client_new:
  "run_client E acts q (BinanceWebSocketClient_new host port target) = Some (es, q', c) \<Longrightarrow>
     client_trace E (BinanceWebSocketClient_new host port target) es c"
  using run_client_trace [OF _ trace_start] by fastforce

text \<open>
  A connection that delivers one message, and a stop that closes it: the pending read returns
  with an error, and the client reports it.
\<close>

definition stopped_connection :: "nat client_action list" where
  "stopped_connection = [RunStep Silent, RunStep (Returned 0), RunStep Silent, RunStep Silent,
     RunStep (SniReturned True 0), RunStep (Returned 0), RunStep (Returned 0), RunStep (Returned 0),
     RunStep (ReadReturned 0 ''raw''), RunStep Silent, StopFlag, StopClose, RunStep (ReadReturned 9 [])]"

lemma stopped_connection_run:
  "\<exists>es q c. run_client numbered_codes stopped_connection (BoundedQueue_new 4)
       (BinanceWebSocketClient_new ''host'' ''443'' ''/t'') = Some (es, q, c) \<and> bq_items q = [''raw'']
     \<and> es = [Quiet, Resolving ''host'' ''443'', Quiet, Quiet, Quiet, Quiet, Quiet, Requested ''host'' ''/t'',
          Received ''raw'', Pushed ''raw'' True, Reported Read ReadFailure 9]
     \<and> wc_phase c = ClientReturned \<and> wc_stop_requested c"
  by (simp add: stopped_connection_def BinanceWebSocketClient_run_def BinanceWebSocketClient_new_def
      numbered_codes_def client_fails_def classify_error_def client_request_stop_def client_close_def
      bq_defs BoundedQueue_new_def)

section \<open>Properties\<close>

lemma target_eq:
  "build_combined_stream_target symbols
     = ''/stream?streams='' @ join_with ''/'' (map (\<lambda>s. map tolower s @ ''@trade'') symbols)"
  unfolding build_combined_stream_target_def by (rule foldl_join)

lemma map_tolower_valid:
  assumes "valid_symbol s"
  shows "map toupper (map tolower s) = s" and "CHR ''/'' \<notin> set (map tolower s)"
proof -
  have up: "toupper (tolower c) = c \<and> tolower c \<noteq> CHR ''/''" if "isdigit c \<or> isupper c" for c
  proof
    show "toupper (tolower c) = c"
      using that unfolding toupper_tolower by (auto simp: toupper_def islower_def isdigit_def isupper_def)
    have "47 < char_code (tolower c)"
      using that by (auto simp: tolower_def isdigit_def isupper_def)
    then show "tolower c \<noteq> CHR ''/''"
      by auto
  qed
  have chars: "\<forall>c \<in> set s. isdigit c \<or> isupper c"
    using assms by (simp add: valid_symbol_def list_all_iff)
  show "map toupper (map tolower s) = s"
    unfolding map_map comp_def using chars up by (intro map_idI) blast
  show "CHR ''/'' \<notin> set (map tolower s)"
  proof
    assume "CHR ''/'' \<in> set (map tolower s)"
    then obtain c where "c \<in> set s" "CHR ''/'' = tolower c"
      unfolding list.set_map by (rule imageE)
    with chars up [of c] show False by simp
  qed
qed

text \<open>
  C28: the request target is what the exchange's combined stream expects, the stream names of
  the symbols in lower case, separated by slashes. For symbols the loader accepts the target
  determines them: two configurations subscribe to the same target only if they name the same
  symbols in the same order.
\<close>

theorem build_combined_stream_target_correct:
  assumes "list_all valid_symbol symbols" and "list_all valid_symbol symbols'"
  shows "build_combined_stream_target symbols
       = ''/stream?streams='' @ join_with ''/'' (map (\<lambda>s. map tolower s @ ''@trade'') symbols)
     \<and> (build_combined_stream_target symbols = build_combined_stream_target symbols' \<longleftrightarrow> symbols = symbols')"
proof -
  let ?f = "\<lambda>s. map tolower s @ ''@trade''"
  have sep: "\<forall>x \<in> set (map ?f ss). x \<noteq> [] \<and> CHR ''/'' \<notin> set x" if "list_all valid_symbol ss" for ss
    using that map_tolower_valid(2) by (auto simp: list_all_iff)
  have "symbols = symbols'" if "build_combined_stream_target symbols = build_combined_stream_target symbols'"
  proof -
    let ?g = "\<lambda>x. map toupper (take (length x - 6) x)"
    have left_inv: "map ?g (map ?f ss) = ss" if "list_all valid_symbol ss" for ss
      unfolding map_map using that map_tolower_valid(1) by (intro map_idI) (simp add: list_all_iff)
    have "map ?f symbols = map ?f symbols'"
      using that by (intro join_with_inj [OF sep [OF assms(1)] sep [OF assms(2)]]) (simp only: target_eq same_append_eq)
    from arg_cong [OF this, of "map ?g"] show ?thesis
      unfolding left_inv [OF assms(1)] left_inv [OF assms(2)] .
  qed
  then show ?thesis
    by (auto simp: target_eq)
qed

theorem build_combined_stream_target_correct_witness:
  "build_combined_stream_target [''BTCUSDT'', ''ETHUSDT''] = ''/stream?streams=btcusdt@trade/ethusdt@trade''
   \<and> build_combined_stream_target [''BTCUSDT'', ''ETHUSDT''] \<noteq> build_combined_stream_target [''ETHUSDT'', ''BTCUSDT'']"
proof -
  have v: "list_all valid_symbol [''BTCUSDT'', ''ETHUSDT'']" "list_all valid_symbol [''ETHUSDT'', ''BTCUSDT'']"
    by (simp_all add: valid_symbol_def isdigit_def isupper_def)
  have "map tolower ''BTCUSDT'' = ''btcusdt''" "map tolower ''ETHUSDT'' = ''ethusdt''"
    by code_simp+
  then have "''/stream?streams='' @ join_with ''/'' (map (\<lambda>s. map tolower s @ ''@trade'') [''BTCUSDT'', ''ETHUSDT''])
      = ''/stream?streams=btcusdt@trade/ethusdt@trade''"
    by (simp del: map_eq_Cons_conv list.map(2) add: list.map(2) [of "\<lambda>s. map tolower s @ _"])
  then show ?thesis
    using build_combined_stream_target_correct [OF v] by auto
qed

text \<open>
  C20: every connection attempt is reported exactly once. However \<^verbatim>\<open>run\<close> is interleaved with
  \<^verbatim>\<open>stop\<close>, the error handler is not called before \<^verbatim>\<open>run\<close> returns; when it has returned, the handler
  was called exactly once, with the kind that belongs to the stage and the error code, or not at
  all, and then a stop was requested and no stream was ever created. So a stop that closes an
  existing connection is always reported to the handler as well.
\<close>

theorem client_reports_exactly_once:
  assumes "client_trace E (BinanceWebSocketClient_new host port target) es c"
  shows "(wc_phase c \<noteq> ClientReturned \<longrightarrow> reports es = [])
     \<and> (wc_phase c = ClientReturned \<longrightarrow>
          (\<exists>stage ec. reports es = [(stage, classify_error E stage ec, ec)])
          \<or> reports es = [] \<and> wc_ws c = None \<and> wc_stop_requested c)"
  using trace_reports [OF assms] by (auto simp: report_inv_def)

theorem client_reports_exactly_once_witness:
  "\<exists>es c stage ec. client_trace numbered_codes (BinanceWebSocketClient_new ''host'' ''443'' ''/t'') es c
     \<and> wc_stop_requested c \<and> wc_phase c = ClientReturned
     \<and> reports es = [(stage, classify_error numbered_codes stage ec, ec)]"
proof -
  obtain es q c where run: "run_client numbered_codes stopped_connection (BoundedQueue_new 4)
      (BinanceWebSocketClient_new ''host'' ''443'' ''/t'') = Some (es, q, c)"
    "reports es \<noteq> []" "wc_phase c = ClientReturned" "wc_stop_requested c"
    using stopped_connection_run by auto
  note reach = run_client_new [OF run(1)]
  from client_reports_exactly_once [OF reach] run(2-4) reach show ?thesis by blast
qed

text \<open>
  Messages are passed on verbatim, in order and each once. At any moment the messages the
  client has pushed to the queue are those it has received, up to the one it holds, and nothing
  is received before the handshake with the configured host for the configured target.
\<close>

theorem client_delivers_verbatim:
  assumes "client_trace E (BinanceWebSocketClient_new host port target) es c"
  shows "received_messages es = pushed_messages es @ message_in_hand (wc_phase c)
     \<and> (received_messages es \<noteq> [] \<longrightarrow> Requested host target \<in> set es)"
  using trace_messages [OF assms] unfolding message_inv_def by blast

theorem client_delivers_verbatim_witness:
  "\<exists>es c. client_trace numbered_codes (BinanceWebSocketClient_new ''host'' ''443'' ''/t'') es c
     \<and> received_messages es = [''raw''] \<and> pushed_messages es = [''raw''] \<and> Requested ''host'' ''/t'' \<in> set es"
proof -
  obtain es q c where run: "run_client numbered_codes stopped_connection (BoundedQueue_new 4)
      (BinanceWebSocketClient_new ''host'' ''443'' ''/t'') = Some (es, q, c)"
    "received_messages es = [''raw'']" "wc_phase c = ClientReturned"
    using stopped_connection_run by auto
  note reach = run_client_new [OF run(1)]
  from client_delivers_verbatim [OF reach] run(2,3) reach show ?thesis by auto
qed

end
