(* ===== verification/ReconnectPolicy.thy ===== *)
theory ReconnectPolicy
  imports ConfigLoader
begin

text \<open>
  \<^verbatim>\<open>app/include/agg/net/ReconnectPolicy.hpp\<close> and \<^verbatim>\<open>app/src/net/ReconnectPolicy.cpp\<close>. A delay
  is a 64-bit count of milliseconds; the loop of \<^verbatim>\<open>base_delay_for_attempt\<close> doubles an unsigned
  value, which wraps. A \<^verbatim>\<open>double\<close> is the rational it stands for and every operation on doubles
  rounds: \<open>rnd\<close> is the rounding of the floating-point format, \<open>draw lo hi\<close> the next value of the
  uniform distribution on the interval.
\<close>

section \<open>Definitions\<close>

record ReconnectPolicy =
  rp_config :: ReconnectConfig
  rp_attempt :: u32
  rp_stop_requested :: bool

definition ReconnectPolicy_new :: "ReconnectConfig \<Rightarrow> ReconnectPolicy" where
  "ReconnectPolicy_new config = \<lparr>rp_config = config, rp_attempt = 0, rp_stop_requested = False\<rparr>"

text \<open>The doubling loop; the first argument is the number of iterations left.\<close>

fun double_delay :: "nat \<Rightarrow> u64 \<Rightarrow> u64 \<Rightarrow> u64" where
  "double_delay 0 max_backoff_ms delay_ms = delay_ms"
| "double_delay (Suc n) max_backoff_ms delay_ms =
     (if delay_ms < max_backoff_ms then double_delay n max_backoff_ms (delay_ms * 2) else delay_ms)"

definition base_delay_for_attempt :: "ReconnectPolicy \<Rightarrow> u32 \<Rightarrow> i64" where
  "base_delay_for_attempt p attempt =
     (let config = rp_config p;
          delay_ms = double_delay (unat attempt) (rc_max_backoff_ms config) (rc_initial_backoff_ms config)
      in min delay_ms (rc_max_backoff_ms config))"

definition apply_jitter :: "(rat \<Rightarrow> rat) \<Rightarrow> (rat \<Rightarrow> rat \<Rightarrow> rat) \<Rightarrow> ReconnectPolicy \<Rightarrow> i64 \<Rightarrow> i64" where
  "apply_jitter rnd draw p base =
     (if rc_jitter_ratio (rp_config p) \<le> 0 then base
      else
        let base_ms = rnd (of_int (sint base));
            spread = rnd (base_ms * rc_jitter_ratio (rp_config p));
            jittered_ms = draw (rnd (base_ms - spread)) (rnd (base_ms + spread))
        in word_of_int (floor (max 0 jittered_ms)))"

definition ReconnectPolicy_stop :: "ReconnectPolicy \<Rightarrow> ReconnectPolicy" where
  "ReconnectPolicy_stop p = p\<lparr>rp_stop_requested := True\<rparr>"

definition ReconnectPolicy_reset :: "ReconnectPolicy \<Rightarrow> ReconnectPolicy" where
  "ReconnectPolicy_reset p = p\<lparr>rp_attempt := 0, rp_stop_requested := False\<rparr>"

definition current_attempt :: "ReconnectPolicy \<Rightarrow> u32" where
  "current_attempt p = rp_attempt p"

text \<open>
  The end of the timed wait: the predicate decides, whether the wait was woken by \<^verbatim>\<open>stop\<close> or
  the delay has passed. \<open>wait_for_next_attempt\<close> is the whole call, \<open>stopped\<close> telling whether
  another thread calls \<^verbatim>\<open>stop\<close> during it; it gives the delay, the result and the new state.
\<close>

definition finish_wait :: "ReconnectPolicy \<Rightarrow> bool \<times> ReconnectPolicy" where
  "finish_wait p =
     (if rp_stop_requested p then (False, p) else (True, p\<lparr>rp_attempt := rp_attempt p + 1\<rparr>))"

definition wait_for_next_attempt ::
    "(rat \<Rightarrow> rat) \<Rightarrow> (rat \<Rightarrow> rat \<Rightarrow> rat) \<Rightarrow> bool \<Rightarrow> ReconnectPolicy \<Rightarrow> i64 \<times> bool \<times> ReconnectPolicy" where
  "wait_for_next_attempt rnd draw stopped p =
     (let delay = apply_jitter rnd draw p (base_delay_for_attempt p (rp_attempt p))
      in (delay, finish_wait (if stopped then ReconnectPolicy_stop p else p)))"

section \<open>The backoff\<close>

text \<open>The doubling is exact when no value below the maximum overflows in it.\<close>

lemma double_delay_exact:
  assumes "\<forall>j. unat d * 2 ^ j < unat m \<longrightarrow> unat d * 2 ^ Suc j < 2 ^ 64"
  shows "min (unat (double_delay n m d)) (unat m) = min (unat d * 2 ^ n) (unat m)"
  using assms
proof (induction n arbitrary: d)
  case (Suc n)
  show ?case
  proof (cases "d < m")
    case True
    then have "unat d * 2 < 2 ^ 64"
      using Suc.prems [rule_format, of 0] by (simp add: word_less_nat_alt)
    then have twice: "unat (d * 2) = unat d * 2"
      by (simp add: unat_word_ariths)
    have "\<forall>j. unat (d * 2) * 2 ^ j < unat m \<longrightarrow> unat (d * 2) * 2 ^ Suc j < 2 ^ 64"
    proof (intro allI impI)
      fix j assume "unat (d * 2) * 2 ^ j < unat m"
      then show "unat (d * 2) * 2 ^ Suc j < 2 ^ 64"
        using Suc.prems [rule_format, of "Suc j"] by (simp add: twice mult.assoc)
    qed
    with Suc.IH [of "d * 2"] True twice show ?thesis
      by (simp add: mult.assoc)
  next
    case False
    then have "unat m \<le> unat d"
      by (simp add: word_le_nat_alt not_less)
    moreover from this have "unat m \<le> unat d * (2 * 2 ^ n)"
      by (metis le_trans mult_le_mono2 nat_mult_1_right one_le_numeral one_le_power power_Suc)
    ultimately show ?thesis
      using False by (simp add: min_def)
  qed
qed simp


lemma unat_min: "unat (min a b) = min (unat a) (unat b)" for a b :: u64
  by (simp add: min_def word_le_nat_alt)

lemma base_delay_exact:
  assumes "unat (rc_max_backoff_ms (rp_config p)) \<le> 2 ^ 63"
  shows "unat (base_delay_for_attempt p k)
     = min (unat (rc_initial_backoff_ms (rp_config p)) * 2 ^ unat k) (unat (rc_max_backoff_ms (rp_config p)))"
  unfolding base_delay_for_attempt_def Let_def unat_min
  by (intro double_delay_exact allI impI) (use assms in simp)

text \<open>
  What the arithmetic relies on of the floating-point format and of the distribution:
  rounding is monotone and exact on integers of at most 53 bits, and a draw lies in its interval.
\<close>

definition double_rounding :: "(rat \<Rightarrow> rat) \<Rightarrow> bool" where
  "double_rounding rnd \<longleftrightarrow> (\<forall>x y. x \<le> y \<longrightarrow> rnd x \<le> rnd y)
     \<and> (\<forall>n :: int. \<bar>n\<bar> \<le> 2 ^ 53 \<longrightarrow> rnd (of_int n) = of_int n)"

definition draws_within :: "(rat \<Rightarrow> rat \<Rightarrow> rat) \<Rightarrow> bool" where
  "draws_within draw \<longleftrightarrow> (\<forall>lo hi. lo \<le> hi \<longrightarrow> lo \<le> draw lo hi \<and> draw lo hi \<le> hi)"

lemma sint_small:
  fixes w :: u64
  assumes "unat w < 2 ^ 63"
  shows "sint w = int (unat w)"
proof -
  have "uint w < 2 ^ 63"
    using of_nat_less_iff [where ?'a = int, THEN iffD2, OF assms] by simp
  then have "signed_take_bit 63 (uint w) = uint w"
    by (intro signed_take_bit_int_eq_self) (simp_all add: order_trans [OF _ uint_ge_0])
  then show ?thesis
    by (simp add: sint_uint)
qed

section \<open>The jitter\<close>

text \<open>
  The delay differs from the base by at most the configured share of it, rounded up to a
  millisecond; a draw at an end of the interval takes it that far, rounded down.
\<close>

lemma jitter_bounds:
  assumes "double_rounding rnd" and "draws_within draw" and "valid_reconnect (rp_config p)"
    and "unat base \<le> 2 ^ 52"
  shows "\<bar>int (unat (apply_jitter rnd draw p base)) - int (unat base)\<bar>
       \<le> \<lceil>of_nat (unat base) * rc_jitter_ratio (rp_config p)\<rceil>"
    and "draw = (\<lambda>lo hi. lo) \<Longrightarrow> int (unat (apply_jitter rnd draw p base))
       \<le> int (unat base) - \<lfloor>of_nat (unat base) * rc_jitter_ratio (rp_config p)\<rfloor>"
    and "draw = (\<lambda>lo hi. hi) \<Longrightarrow> int (unat base) + \<lfloor>of_nat (unat base) * rc_jitter_ratio (rp_config p)\<rfloor>
       \<le> int (unat (apply_jitter rnd draw p base))"
proof -
  define b q where "b = int (unat base)" and "q = rc_jitter_ratio (rp_config p)"
  have b: "0 \<le> b" "b \<le> 2 ^ 52" "sint base = b"
  proof -
    show "0 \<le> b"
      by (simp add: b_def)
    show "b \<le> 2 ^ 52"
      using of_nat_mono [OF assms(4), where ?'a = int] by (simp add: b_def)
    show "sint base = b"
      unfolding b_def by (rule sint_small, rule le_less_trans [OF assms(4)]) simp
  qed
  have q: "0 \<le> q" "q \<le> 1"
    using assms(3) by (auto simp: q_def valid_reconnect_def)
  have mono: "x \<le> y \<Longrightarrow> rnd x \<le> rnd y" for x y
    using assms(1) by (simp add: double_rounding_def)
  have int: "rnd (of_int n) = of_int n" if "\<bar>n\<bar> \<le> 2 ^ 53" for n
    using assms(1) that by (simp add: double_rounding_def)
  have near: "of_int n \<le> x \<Longrightarrow> of_int n \<le> rnd x" "x \<le> of_int n \<Longrightarrow> rnd x \<le> of_int n" if "\<bar>n\<bar> \<le> 2 ^ 53" for n x
    using mono [of "of_int n" x] mono [of x "of_int n"] int [OF that] by simp_all
  define x where "x = of_int b * q"
  have x: "0 \<le> x" "x \<le> of_int b"
    using q b(1) mult_left_mono [of q 1 "of_int b"] by (simp_all add: x_def)
  then have fx: "0 \<le> \<lfloor>x\<rfloor>" "\<lceil>x\<rceil> \<le> b" "\<lfloor>x\<rfloor> \<le> \<lceil>x\<rceil>"
    by (simp_all add: ceiling_le floor_le_ceiling)
  have bound: "\<bar>n\<bar> \<le> 2 ^ 53" if "0 \<le> n" "n \<le> 2 * b" for n
    using that b(2) by simp
  have small: "\<bar>\<lfloor>x\<rfloor>\<bar> \<le> 2 ^ 53" "\<bar>\<lceil>x\<rceil>\<bar> \<le> 2 ^ 53" "\<bar>b - \<lceil>x\<rceil>\<bar> \<le> 2 ^ 53" "\<bar>b - \<lfloor>x\<rfloor>\<bar> \<le> 2 ^ 53"
    "\<bar>b + \<lfloor>x\<rfloor>\<bar> \<le> 2 ^ 53" "\<bar>b + \<lceil>x\<rceil>\<bar> \<le> 2 ^ 53"
    using fx b(1) by - (rule bound; linarith)+
  define s where "s = rnd x"
  have s: "of_int \<lfloor>x\<rfloor> \<le> s" "s \<le> of_int \<lceil>x\<rceil>"
    unfolding s_def using near(1) [OF small(1), of x] near(2) [OF small(2), of x] by simp_all
  have lo: "of_int (b - \<lceil>x\<rceil>) \<le> rnd (of_int b - s)" "rnd (of_int b - s) \<le> of_int (b - \<lfloor>x\<rfloor>)"
    using s near(1) [OF small(3), of "of_int b - s"] near(2) [OF small(4), of "of_int b - s"] by simp_all
  have hi: "of_int (b + \<lfloor>x\<rfloor>) \<le> rnd (of_int b + s)" "rnd (of_int b + s) \<le> of_int (b + \<lceil>x\<rceil>)"
    using s near(1) [OF small(5), of "of_int b + s"] near(2) [OF small(6), of "of_int b + s"] by simp_all
  have "0 \<le> s"
    using s(1) fx(1) order_trans [of 0 "of_int \<lfloor>x\<rfloor> :: rat" s] by simp
  then have "rnd (of_int b - s) \<le> rnd (of_int b + s)"
    by (intro mono) simp
  define d where "d = draw (rnd (of_int b - s)) (rnd (of_int b + s))"
  have d: "rnd (of_int b - s) \<le> d" "d \<le> rnd (of_int b + s)"
    using assms(2) \<open>rnd (of_int b - s) \<le> rnd (of_int b + s)\<close> by (simp_all add: d_def draws_within_def)
  have f: "b - \<lceil>x\<rceil> \<le> \<lfloor>d\<rfloor>" "\<lfloor>d\<rfloor> \<le> b + \<lceil>x\<rceil>"
    using order_trans [OF lo(1) d(1)] order_trans [OF d(2) hi(2)] by (simp_all add: le_floor_iff, linarith)
  have "0 \<le> \<lfloor>d\<rfloor>"
    using f(1) fx(2) by linarith
  have res: "int (unat (apply_jitter rnd draw p base)) = (if q \<le> 0 then b else \<lfloor>d\<rfloor>)"
  proof (cases "q \<le> 0")
    case True
    then show ?thesis by (simp add: apply_jitter_def q_def b_def)
  next
    case False
    have "0 \<le> d"
      using \<open>0 \<le> \<lfloor>d\<rfloor>\<close> by simp
    then have "apply_jitter rnd draw p base = word_of_int \<lfloor>d\<rfloor>"
      using False int [of b] b(1,2) by (simp add: apply_jitter_def Let_def b(3) d_def s_def x_def q_def max_def)
    moreover have "\<lfloor>d\<rfloor> < 2 ^ 64"
      by (rule le_less_trans [of _ "2 * b"]) (use f(2) fx(2) b(2) in linarith, use b(2) in simp)
    ultimately show ?thesis
      using False \<open>0 \<le> \<lfloor>d\<rfloor>\<close> by (simp add: unsigned_of_int take_bit_int_eq_self)
  qed
  have x_eq: "of_nat (unat base) * rc_jitter_ratio (rp_config p) = x"
    by (simp add: x_def b_def q_def)
  have zero: "x = 0" if "q \<le> 0"
    using that q(1) by (simp add: x_def)
  show "\<bar>int (unat (apply_jitter rnd draw p base)) - int (unat base)\<bar>
       \<le> \<lceil>of_nat (unat base) * rc_jitter_ratio (rp_config p)\<rceil>"
    unfolding res x_eq using f fx zero by (auto simp: b_def)
  show "int (unat (apply_jitter rnd draw p base))
       \<le> int (unat base) - \<lfloor>of_nat (unat base) * rc_jitter_ratio (rp_config p)\<rfloor>" if "draw = (\<lambda>lo hi. lo)"
    unfolding res x_eq using that zero lo(2) by (auto simp: b_def d_def floor_le_iff)
  show "int (unat base) + \<lfloor>of_nat (unat base) * rc_jitter_ratio (rp_config p)\<rfloor>
       \<le> int (unat (apply_jitter rnd draw p base))" if "draw = (\<lambda>lo hi. hi)"
    unfolding res x_eq using that zero hi(1) by (auto simp: b_def d_def le_floor_iff)
qed

section \<open>Repeated waits\<close>

text \<open>
  A connect loop's calls of \<^verbatim>\<open>wait_for_next_attempt\<close> that no thread interrupts, one draw each:
  the delays with the results, and the state after the last.
\<close>

fun run_waits ::
    "(rat \<Rightarrow> rat) \<Rightarrow> (rat \<Rightarrow> rat \<Rightarrow> rat) list \<Rightarrow> ReconnectPolicy \<Rightarrow> (i64 \<times> bool) list \<times> ReconnectPolicy" where
  "run_waits rnd [] p = ([], p)"
| "run_waits rnd (draw # draws) p =
     (case wait_for_next_attempt rnd draw False p of (delay, ok, p1) \<Rightarrow>
      case run_waits rnd draws p1 of (results, p2) \<Rightarrow> ((delay, ok) # results, p2))"

lemma attempt_irrelevant [simp]:
  "base_delay_for_attempt (p\<lparr>rp_attempt := n\<rparr>) k = base_delay_for_attempt p k"
  "apply_jitter rnd draw (p\<lparr>rp_attempt := n\<rparr>) d = apply_jitter rnd draw p d"
  by (simp_all add: base_delay_for_attempt_def apply_jitter_def)

lemma run_waits_eq:
  assumes "\<not> rp_stop_requested p" and "run_waits rnd draws p = (results, p')"
  shows "results = map (\<lambda>i. (apply_jitter rnd (draws ! i) p
       (base_delay_for_attempt p (rp_attempt p + of_nat i)), True)) [0..<length draws]"
    and "p' = p\<lparr>rp_attempt := rp_attempt p + of_nat (length draws)\<rparr>"
proof -
  have "run_waits rnd draws p = (map (\<lambda>i. (apply_jitter rnd (draws ! i) p
       (base_delay_for_attempt p (rp_attempt p + of_nat i)), True)) [0..<length draws],
     p\<lparr>rp_attempt := rp_attempt p + of_nat (length draws)\<rparr>)"
    using assms(1)
  proof (induction draws arbitrary: p)
    case (Cons draw draws)
    let ?p = "p\<lparr>rp_attempt := rp_attempt p + 1\<rparr>"
    have "wait_for_next_attempt rnd draw False p
        = (apply_jitter rnd draw p (base_delay_for_attempt p (rp_attempt p)), True, ?p)"
      using Cons.prems by (simp add: wait_for_next_attempt_def finish_wait_def Let_def)
    moreover have "\<not> rp_stop_requested ?p"
      using Cons.prems by simp
    ultimately show ?case
      using Cons.IH [of ?p] unfolding length_Cons upt_conv_Cons [OF zero_less_Suc] map_Suc_upt [symmetric]
      by (simp add: comp_def add.assoc)
  qed simp
  with assms(2) show "results = map (\<lambda>i. (apply_jitter rnd (draws ! i) p
       (base_delay_for_attempt p (rp_attempt p + of_nat i)), True)) [0..<length draws]"
    "p' = p\<lparr>rp_attempt := rp_attempt p + of_nat (length draws)\<rparr>"
    by simp_all
qed

section \<open>Properties\<close>

text \<open>
  Exponential backoff with a cap. For a maximum of at most \<open>2\<^sup>6\<^sup>3\<close> milliseconds the delay
  of attempt \<open>k\<close> is exactly \<open>min (initial * 2\<^sup>k) max\<close>; so it never decreases from one attempt to
  the next, and from attempt 63 on it is the maximum.
\<close>

theorem base_delay_backoff:
  assumes "valid_reconnect (rp_config p)" and "unat (rc_max_backoff_ms (rp_config p)) \<le> 2 ^ 63"
  shows "unat (base_delay_for_attempt p k)
       = min (unat (rc_initial_backoff_ms (rp_config p)) * 2 ^ unat k) (unat (rc_max_backoff_ms (rp_config p)))
     \<and> (unat j \<le> unat k \<longrightarrow> base_delay_for_attempt p j \<le> base_delay_for_attempt p k)
     \<and> (63 \<le> unat k \<longrightarrow> base_delay_for_attempt p k = rc_max_backoff_ms (rp_config p))"
proof (intro conjI impI)
  let ?i = "unat (rc_initial_backoff_ms (rp_config p))" and ?m = "unat (rc_max_backoff_ms (rp_config p))"
  note exact = base_delay_exact [OF assms(2)]
  show "unat (base_delay_for_attempt p k) = min (?i * 2 ^ unat k) ?m"
    by (rule exact)
  have pos: "1 \<le> ?i"
    using assms(1) by (simp add: valid_reconnect_def word_less_nat_alt Suc_leI)
  show "base_delay_for_attempt p j \<le> base_delay_for_attempt p k" if "unat j \<le> unat k"
  proof -
    have "?i * 2 ^ unat j \<le> ?i * 2 ^ unat k"
      using that by (intro mult_left_mono power_increasing) simp_all
    then have "min (?i * 2 ^ unat j) ?m \<le> min (?i * 2 ^ unat k) ?m"
      by (rule min.mono) simp
    then show ?thesis
      unfolding word_le_nat_alt exact .
  qed
  show "base_delay_for_attempt p k = rc_max_backoff_ms (rp_config p)" if "63 \<le> unat k"
  proof -
    have "(2::nat) ^ 63 \<le> 2 ^ unat k"
      using that by (intro power_increasing) simp_all
    also have "\<dots> \<le> ?i * 2 ^ unat k"
      using pos by simp
    finally have "?m \<le> ?i * 2 ^ unat k"
      using assms(2) by simp
    then show ?thesis
      by (simp add: word_unat_eq_iff exact)
  qed
qed

theorem base_delay_backoff_witness:
  "valid_reconnect ReconnectConfig_default
   \<and> unat (base_delay_for_attempt (ReconnectPolicy_new ReconnectConfig_default) 3) = 4000
   \<and> unat (base_delay_for_attempt (ReconnectPolicy_new ReconnectConfig_default) 9) = 30000"
proof -
  have v: "valid_reconnect ReconnectConfig_default"
    by (simp add: valid_reconnect_def ReconnectConfig_default_def)
  let ?p = "ReconnectPolicy_new ReconnectConfig_default"
  have p: "rp_config ?p = ReconnectConfig_default"
    by (simp add: ReconnectPolicy_new_def)
  from base_delay_backoff [of ?p 3 0] base_delay_backoff [of ?p 9 0] v show ?thesis
    unfolding p by (simp add: ReconnectConfig_default_def)
qed


text \<open>Exact arithmetic, and draws at the lower end.\<close>

lemma exact_rounding: "double_rounding id" "draws_within (\<lambda>lo hi. lo)"
  by (simp_all add: double_rounding_def draws_within_def)

text \<open>
  C30: the delays of a connect loop. After \<^verbatim>\<open>reset\<close>, as long as nobody stops the policy, every
  call of \<^verbatim>\<open>wait_for_next_attempt\<close> returns true and counts one attempt (for less than \<open>2\<^sup>3\<^sup>2\<close> calls). With a
  maximum of at most \<open>2\<^sup>5\<^sup>2\<close> milliseconds, the delay of the \<open>i\<close>-th call differs from \<open>min (initial * 2\<^sup>i) max\<close>
  by at most this base times the jitter ratio, rounded up, so it is exact without jitter; and a draw
  at an end of the distribution takes it that far, rounded down.
\<close>

theorem wait_delays_back_off:
  assumes "double_rounding rnd" and "\<forall>draw \<in> set draws. draws_within draw"
    and "valid_reconnect (rp_config p)" and "unat (rc_max_backoff_ms (rp_config p)) \<le> 2 ^ 52"
    and "run_waits rnd draws (ReconnectPolicy_reset p) = (results, p')"
    and "length draws < 2 ^ 32" and "i < length draws"
  shows "length results = length draws \<and> unat (current_attempt p') = length draws \<and> snd (results ! i)
     \<and> (let base = min (unat (rc_initial_backoff_ms (rp_config p)) * 2 ^ i) (unat (rc_max_backoff_ms (rp_config p)));
            spread = of_nat base * rc_jitter_ratio (rp_config p);
            delay = int (unat (fst (results ! i)))
        in \<bar>delay - int base\<bar> \<le> \<lceil>spread\<rceil>
           \<and> (draws ! i = (\<lambda>lo hi. lo) \<longrightarrow> delay \<le> int base - \<lfloor>spread\<rfloor>)
           \<and> (draws ! i = (\<lambda>lo hi. hi) \<longrightarrow> int base + \<lfloor>spread\<rfloor> \<le> delay))"
proof -
  let ?r = "ReconnectPolicy_reset p" and ?m = "unat (rc_max_backoff_ms (rp_config p))"
  define base where "base = min (unat (rc_initial_backoff_ms (rp_config p)) * 2 ^ i) ?m"
  have r [simp]: "rp_config ?r = rp_config p" "rp_attempt ?r = 0" "\<not> rp_stop_requested ?r"
    by (simp_all add: ReconnectPolicy_reset_def)
  note W = run_waits_eq [OF r(3) assms(5)]
  have i: "unat (of_nat i :: u32) = i"
    using assms(6,7) by (simp add: unat_of_nat)
  have len: "unat (of_nat (length draws) :: u32) = length draws"
    using assms(6) by (simp add: unat_of_nat)
  have "?m \<le> 2 ^ 63"
    using assms(4) by (rule order_trans) simp
  then have b: "unat (base_delay_for_attempt ?r (of_nat i)) = base"
    using base_delay_exact [of ?r "of_nat i"] by (simp add: i base_def)
  have "base \<le> 2 ^ 52"
    unfolding base_def by (rule order_trans [OF min.cobounded2 assms(4)])
  then have small: "unat (base_delay_for_attempt ?r (of_nat i)) \<le> 2 ^ 52"
    by (simp only: b)
  have valid: "valid_reconnect (rp_config ?r)" and draw: "draws_within (draws ! i)"
    using assms(2,3,7) by simp_all
  have at: "results ! i = (apply_jitter rnd (draws ! i) ?r (base_delay_for_attempt ?r (of_nat i)), True)"
    using W(1) assms(7) by simp
  have fin: "unat (current_attempt p') = length draws" "length results = length draws"
    using len by (simp_all add: W current_attempt_def)
  from jitter_bounds [OF assms(1) draw valid small] fin show ?thesis
    unfolding b r Let_def at fst_conv snd_conv base_def [symmetric] by blast
qed

theorem wait_delays_back_off_witness:
  "\<exists>results p'. run_waits id [\<lambda>lo hi. lo, \<lambda>lo hi. hi]
       (ReconnectPolicy_reset (ReconnectPolicy_new ReconnectConfig_default)) = (results, p')
     \<and> unat (current_attempt p') = 2 \<and> 1200 \<le> uint (fst (results ! 1)) \<and> uint (fst (results ! 1)) \<le> 1201"
proof -
  let ?p = "ReconnectPolicy_new ReconnectConfig_default"
    and ?draws = "[\<lambda>lo hi. lo, \<lambda>lo hi. hi] :: (rat \<Rightarrow> rat \<Rightarrow> rat) list"
  obtain results p' where run: "run_waits id ?draws (ReconnectPolicy_reset ?p) = (results, p')"
    by (cases "run_waits id ?draws (ReconnectPolicy_reset ?p)")
  have "\<forall>draw \<in> set ?draws. draws_within draw"
    by (simp add: draws_within_def)
  moreover have "\<lfloor>1000 * rc_jitter_ratio ReconnectConfig_default\<rfloor> = 200"
    "\<lceil>1000 * rc_jitter_ratio ReconnectConfig_default\<rceil> = 201"
    by (simp_all add: ReconnectConfig_default_def floor_eq_iff ceiling_eq_iff)
  moreover have "rp_config ?p = ReconnectConfig_default" "valid_reconnect ReconnectConfig_default"
    "unat (rc_initial_backoff_ms ReconnectConfig_default) = 500" "unat (rc_max_backoff_ms ReconnectConfig_default) = 30000"
    by (simp_all add: ReconnectPolicy_new_def ReconnectConfig_default_def valid_reconnect_def)
  ultimately have "unat (current_attempt p') = 2 \<and> 1200 \<le> uint (fst (results ! 1)) \<and> uint (fst (results ! 1)) \<le> 1201"
    using wait_delays_back_off [OF exact_rounding(1) _ _ _ run, of 1] by (auto simp: Let_def)
  with run show ?thesis by blast
qed


text \<open>
  A stopped policy never waits again. Once \<^verbatim>\<open>stop\<close> has been called, before or during a
  wait, every wait returns false at once and counts no attempt, however often it is called;
  \<^verbatim>\<open>reset\<close> makes it wait again, whether or not the stop has been noticed.
\<close>

theorem stopped_policy_never_waits:
  "snd (wait_for_next_attempt rnd draw True p) = (False, ReconnectPolicy_stop p)
   \<and> map snd (fst (run_waits rnd draws (ReconnectPolicy_stop p))) = replicate (length draws) False
   \<and> snd (run_waits rnd draws (ReconnectPolicy_stop p)) = ReconnectPolicy_stop p
   \<and> fst (snd (wait_for_next_attempt rnd draw False (ReconnectPolicy_reset (ReconnectPolicy_stop p))))"
proof -
  have "map snd (fst (run_waits rnd draws (ReconnectPolicy_stop p))) = replicate (length draws) False
      \<and> snd (run_waits rnd draws (ReconnectPolicy_stop p)) = ReconnectPolicy_stop p"
    by (induction draws)
      (auto simp: wait_for_next_attempt_def finish_wait_def ReconnectPolicy_stop_def Let_def split: prod.splits)
  then show ?thesis
    by (simp add: wait_for_next_attempt_def finish_wait_def ReconnectPolicy_stop_def ReconnectPolicy_reset_def Let_def)
qed

end
