(* ===== verification/NetworkStage.thy ===== *)
theory NetworkStage
  imports BinanceWebSocketClient ReconnectPolicy
begin

text \<open>
  \<^verbatim>\<open>app/include/agg/runtime/NetworkStage.hpp\<close> and \<^verbatim>\<open>app/src/runtime/NetworkStage.cpp\<close>: the
  thread that keeps a connection up, and the thread that stops it, step by step. The mutex
  around the client pointer is held while \<^verbatim>\<open>stop\<close> is inside the client's own \<^verbatim>\<open>stop\<close> (the state
  \<open>StageClose\<close>), so the network thread can neither replace nor drop the client there.
\<close>

section \<open>State\<close>

text \<open>
  Where \<^verbatim>\<open>run\<close> is; the argument is its local variable \<^verbatim>\<open>had_successful_read\<close>. \<open>NetworkOff\<close> is a
  thread object that is not joinable: not started, or joined.
\<close>

datatype network_phase =
    NetworkOff
  | NetworkLoop
  | NetworkCreate
  | NetworkClient bool
  | NetworkDrop bool
  | NetworkCheck bool
  | NetworkPolicyReset
  | NetworkWait
  | NetworkDone

datatype network_stop = StageIdle | StagePolicy | StageClient | StageClose | StageJoin | StageStopped

record NetworkStage =
  ns_host :: string
  ns_port :: string
  ns_target :: string
  ns_policy :: ReconnectPolicy
  ns_client :: "BinanceWebSocketClient option"
  ns_stop_requested :: bool
  ns_phase :: network_phase
  ns_stopper :: network_stop

definition NetworkStage_new :: "string \<Rightarrow> string \<Rightarrow> string \<Rightarrow> ReconnectConfig \<Rightarrow> NetworkStage" where
  "NetworkStage_new host port target reconnect_config =
     \<lparr>ns_host = host, ns_port = port, ns_target = target, ns_policy = ReconnectPolicy_new reconnect_config,
      ns_client = None, ns_stop_requested = False, ns_phase = NetworkOff, ns_stopper = StageIdle\<rparr>"

section \<open>The threads\<close>

text \<open>\<^verbatim>\<open>start\<close> on a stage that runs would end the process; it is not enabled then.\<close>

definition NetworkStage_start :: "NetworkStage \<Rightarrow> NetworkStage option" where
  "NetworkStage_start s = (if ns_phase s = NetworkOff then Some (s\<lparr>ns_phase := NetworkLoop\<rparr>) else None)"

datatype 'ec network_event = NetworkQuiet | ClientDid "'ec client_event" | Waited i64 bool

text \<open>The handler \<^verbatim>\<open>run\<close> passes to the client notes an error of the read stage.\<close>

fun read_failed :: "'ec client_event \<Rightarrow> bool" where
  "read_failed (Reported stage kind ec) = (stage = Read)"
| "read_failed _ = False"

definition NetworkStage_run ::
    "(rat \<Rightarrow> rat) \<Rightarrow> 'ec error_codes \<Rightarrow> 'ec net_input \<Rightarrow> string BoundedQueue \<Rightarrow> NetworkStage
     \<Rightarrow> ('ec network_event \<times> string BoundedQueue \<times> NetworkStage) option" where
  "NetworkStage_run rnd E input q s =
     (case ns_phase s of
        NetworkLoop \<Rightarrow>
          Some (NetworkQuiet, q, s\<lparr>ns_phase := if ns_stop_requested s then NetworkDone else NetworkCreate\<rparr>)
      | NetworkCreate \<Rightarrow>
          if ns_stopper s = StageClose then None
          else Some (NetworkQuiet, q,
                 s\<lparr>ns_client := Some (BinanceWebSocketClient_new (ns_host s) (ns_port s) (ns_target s)),
                   ns_phase := NetworkClient False\<rparr>)
      | NetworkClient had_successful_read \<Rightarrow>
          (case ns_client s of
             None \<Rightarrow> None
           | Some client \<Rightarrow>
               (case BinanceWebSocketClient_run E input q client of
                  None \<Rightarrow> None
                | Some (e, q', client') \<Rightarrow>
                    let had_successful_read = (had_successful_read \<or> read_failed e)
                    in Some (ClientDid e, q',
                         s\<lparr>ns_client := Some client',
                           ns_phase := if wc_phase client' = ClientReturned then NetworkDrop had_successful_read
                                       else NetworkClient had_successful_read\<rparr>)))
      | NetworkDrop had_successful_read \<Rightarrow>
          if ns_stopper s = StageClose then None
          else Some (NetworkQuiet, q, s\<lparr>ns_client := None, ns_phase := NetworkCheck had_successful_read\<rparr>)
      | NetworkCheck had_successful_read \<Rightarrow>
          Some (NetworkQuiet, q,
            s\<lparr>ns_phase := if ns_stop_requested s then NetworkDone
                          else if had_successful_read then NetworkPolicyReset else NetworkWait\<rparr>)
      | NetworkPolicyReset \<Rightarrow>
          Some (NetworkQuiet, q, s\<lparr>ns_policy := ReconnectPolicy_reset (ns_policy s), ns_phase := NetworkWait\<rparr>)
      | NetworkWait \<Rightarrow>
          (case input of
             DelayPassed draw \<Rightarrow>
               (case wait_for_next_attempt rnd draw False (ns_policy s) of (delay, ok, policy) \<Rightarrow>
                  Some (Waited delay ok, q,
                    s\<lparr>ns_policy := policy, ns_phase := if ok then NetworkLoop else NetworkDone\<rparr>))
           | _ \<Rightarrow> None)
      | _ \<Rightarrow> None)"

definition NetworkStage_stop :: "NetworkStage \<Rightarrow> NetworkStage option" where
  "NetworkStage_stop s =
     (case ns_stopper s of
        StageIdle \<Rightarrow> Some (s\<lparr>ns_stop_requested := True, ns_stopper := StagePolicy\<rparr>)
      | StagePolicy \<Rightarrow> Some (s\<lparr>ns_policy := ReconnectPolicy_stop (ns_policy s), ns_stopper := StageClient\<rparr>)
      | StageClient \<Rightarrow>
          (case ns_client s of
             None \<Rightarrow> Some (s\<lparr>ns_stopper := StageJoin\<rparr>)
           | Some client \<Rightarrow> Some (s\<lparr>ns_client := Some (client_request_stop client), ns_stopper := StageClose\<rparr>))
      | StageClose \<Rightarrow> Some (s\<lparr>ns_client := map_option client_close (ns_client s), ns_stopper := StageJoin\<rparr>)
      | StageJoin \<Rightarrow>
          if ns_phase s = NetworkOff \<or> ns_phase s = NetworkDone
          then Some (s\<lparr>ns_phase := NetworkOff, ns_stopper := StageStopped\<rparr>) else None
      | StageStopped \<Rightarrow> Some (s\<lparr>ns_stop_requested := True, ns_stopper := StagePolicy\<rparr>))"

section \<open>Runs of the stage\<close>

text \<open>
  Any interleaving of the network thread with the calls of \<^verbatim>\<open>start\<close> and \<^verbatim>\<open>stop\<close>; other threads may
  change the queue between two steps, and the draws of the random distribution lie in its
  interval.
\<close>

inductive network_trace ::
    "(rat \<Rightarrow> rat) \<Rightarrow> 'ec error_codes \<Rightarrow> NetworkStage \<Rightarrow> 'ec network_event list \<Rightarrow> NetworkStage \<Rightarrow> bool"
  for rnd E s0 where
  network_init: "network_trace rnd E s0 [] s0"
| network_run: "network_trace rnd E s0 es s \<Longrightarrow> NetworkStage_run rnd E input q s = Some (e, q', s') \<Longrightarrow>
     (\<And>draw. input = DelayPassed draw \<Longrightarrow> draws_within draw) \<Longrightarrow> network_trace rnd E s0 (es @ [e]) s'"
| network_start: "network_trace rnd E s0 es s \<Longrightarrow> NetworkStage_start s = Some s' \<Longrightarrow> network_trace rnd E s0 es s'"
| network_stop: "network_trace rnd E s0 es s \<Longrightarrow> NetworkStage_stop s = Some s' \<Longrightarrow> network_trace rnd E s0 es s'"

fun client_event_of :: "'ec network_event \<Rightarrow> 'ec client_event list" where
  "client_event_of (ClientDid e) = [e]"
| "client_event_of _ = []"

abbreviation client_events :: "'ec network_event list \<Rightarrow> 'ec client_event list" where
  "client_events es \<equiv> concat (map client_event_of es)"

definition stage_hand :: "NetworkStage \<Rightarrow> string list" where
  "stage_hand s = (case ns_client s of None \<Rightarrow> [] | Some c \<Rightarrow> message_in_hand (wc_phase c))"

text \<open>
  The client exists exactly while the network thread uses it, is addressed to the configured
  endpoint, and the flag is set from the first step of \<^verbatim>\<open>stop\<close> on.
\<close>

definition stage_inv :: "NetworkStage \<Rightarrow> bool" where
  "stage_inv s \<longleftrightarrow>
     (case ns_phase s of
        NetworkClient had \<Rightarrow> \<exists>c. ns_client s = Some c \<and> wc_phase c \<noteq> ClientReturned
      | NetworkDrop had \<Rightarrow> \<exists>c. ns_client s = Some c \<and> wc_phase c = ClientReturned
      | _ \<Rightarrow> ns_client s = None)
     \<and> (ns_stopper s = StageClose \<longrightarrow> ns_client s \<noteq> None)
     \<and> (ns_stop_requested s \<longleftrightarrow> ns_stopper s \<noteq> StageIdle)
     \<and> (\<forall>c. ns_client s = Some c \<longrightarrow> wc_host c = ns_host s \<and> wc_port c = ns_port s \<and> wc_target c = ns_target s)"

lemmas network_run_splits = network_phase.splits if_splits option.splits prod.splits net_input.splits


lemma stage_inv_new: "stage_inv (NetworkStage_new host port target config)"
  by (simp add: stage_inv_def NetworkStage_new_def)

lemma start_stage_inv: "stage_inv s \<Longrightarrow> NetworkStage_start s = Some s' \<Longrightarrow> stage_inv s'"
  by (auto simp: stage_inv_def NetworkStage_start_def split: if_splits)

lemma stop_stage_inv: "stage_inv s \<Longrightarrow> NetworkStage_stop s = Some s' \<Longrightarrow> stage_inv s'"
  by (cases "ns_stopper s"; cases "ns_phase s")
    (auto simp: stage_inv_def NetworkStage_stop_def client_request_stop_def client_close_def
      split: if_splits option.splits)

text \<open>A step of the network thread while a client runs is a step of that client.\<close>

lemma network_client_step:
  assumes "stage_inv s" and "ns_phase s = NetworkClient had" and "NetworkStage_run rnd E input q s = Some (e, q', s')"
  obtains c ce c' where "ns_client s = Some c" "BinanceWebSocketClient_run E input q c = Some (ce, q', c')"
    "e = ClientDid ce"
    "s' = s\<lparr>ns_client := Some c', ns_phase := if wc_phase c' = ClientReturned then NetworkDrop (had \<or> read_failed ce)
        else NetworkClient (had \<or> read_failed ce)\<rparr>"
proof -
  obtain c where c: "ns_client s = Some c"
    using assms(1,2) by (auto simp: stage_inv_def)
  then obtain ce c' where "BinanceWebSocketClient_run E input q c = Some (ce, q', c')"
    "e = ClientDid ce"
    "s' = s\<lparr>ns_client := Some c', ns_phase := if wc_phase c' = ClientReturned then NetworkDrop (had \<or> read_failed ce)
        else NetworkClient (had \<or> read_failed ce)\<rparr>"
    using assms(2,3) by (auto simp: NetworkStage_run_def Let_def split: option.splits)
  with c show thesis by (rule that)
qed

text \<open>A step outside a client touches neither the queue nor any message.\<close>

lemma network_quiet_step:
  assumes "\<forall>had. ns_phase s \<noteq> NetworkClient had" and "NetworkStage_run rnd E input q s = Some (e, q', s')"
  shows "client_event_of e = []" and "q' = q"
  using assms by (auto simp: NetworkStage_run_def split: network_phase.splits if_splits net_input.splits prod.splits)

lemma run_stage_inv:
  assumes "stage_inv s" and "NetworkStage_run rnd E input q s = Some (e, q', s')"
  shows "stage_inv s'"
proof (cases "\<exists>had. ns_phase s = NetworkClient had")
  case True
  then obtain had where "ns_phase s = NetworkClient had" by blast
  then obtain c ce c' where step: "ns_client s = Some c"
    "BinanceWebSocketClient_run E input q c = Some (ce, q', c')"
    "s' = s\<lparr>ns_client := Some c', ns_phase := if wc_phase c' = ClientReturned then NetworkDrop (had \<or> read_failed ce)
        else NetworkClient (had \<or> read_failed ce)\<rparr>"
    using network_client_step [OF assms(1) _ assms(2)] by metis
  with assms(1) run_step_messages(4-6) [OF step(2)] show ?thesis
    by (auto simp: stage_inv_def)
next
  case False
  with assms show ?thesis
    by (cases "ns_phase s")
      (auto simp: stage_inv_def NetworkStage_run_def BinanceWebSocketClient_new_def
        split: if_splits net_input.splits prod.splits)
qed

lemma network_inv: "network_trace rnd E (NetworkStage_new host port target config) es s \<Longrightarrow> stage_inv s"
  by (induction rule: network_trace.induct)
    (auto intro: stage_inv_new run_stage_inv start_stage_inv stop_stage_inv)

lemma run_stage_messages:
  assumes "stage_inv s" and "NetworkStage_run rnd E input q s = Some (e, q', s')"
  shows "stage_hand s @ received_messages (client_event_of e) = pushed_messages (client_event_of e) @ stage_hand s'"
proof (cases "\<exists>had. ns_phase s = NetworkClient had")
  case True
  then obtain had where "ns_phase s = NetworkClient had" by blast
  then obtain c ce c' where step: "ns_client s = Some c" "e = ClientDid ce"
    "BinanceWebSocketClient_run E input q c = Some (ce, q', c')" "ns_client s' = Some c'"
    using network_client_step [OF assms(1) _ assms(2)]
    by (metis (no_types, lifting) NetworkStage.select_convs(5) NetworkStage.surjective NetworkStage.update_convs(5,7))
  with run_step_messages(1) [OF step(3)] show ?thesis
    by (simp add: stage_hand_def)
next
  case False
  have "stage_hand s = stage_hand s'"
    using assms False by (auto simp: stage_hand_def stage_inv_def NetworkStage_run_def BinanceWebSocketClient_new_def
        split: network_phase.splits if_splits net_input.splits prod.splits)
  with network_quiet_step [OF _ assms(2)] False show ?thesis by auto
qed

lemma stop_stage_hand: "NetworkStage_stop s = Some s' \<Longrightarrow> stage_hand s' = stage_hand s"
  by (auto simp: NetworkStage_stop_def stage_hand_def split: network_stop.splits if_splits option.splits)

lemma start_stage_hand: "NetworkStage_start s = Some s' \<Longrightarrow> stage_hand s' = stage_hand s"
  by (auto simp: NetworkStage_start_def stage_hand_def split: if_splits)

lemma network_messages:
  "network_trace rnd E (NetworkStage_new host port target config) es s \<Longrightarrow>
     received_messages (client_events es) = pushed_messages (client_events es) @ stage_hand s"
proof (induction rule: network_trace.induct)
  case network_init
  then show ?case by (simp add: stage_hand_def NetworkStage_new_def)
next
  case (network_run es s input q e q' s')
  from network_run(4) run_stage_messages [OF network_inv [OF network_run(1)] network_run(2)] show ?case
    by simp
qed (simp_all add: stop_stage_hand start_stage_hand)


section \<open>After a stop\<close>

text \<open>
  How many steps the network thread has left once the stage is told to stop. The client may be
  anywhere in its attempt, and \<^verbatim>\<open>run\<close> may not look at the flag any more: its first statement clears it,
  and the only check is after the resolve. So the whole attempt is counted. What can prolong it
  is a message: reading one takes the client back by a step.
\<close>

fun client_work :: "client_phase \<Rightarrow> nat" where
  "client_work ClientIdle = 9"
| "client_work ClientResolve = 8"
| "client_work ClientCheckStop = 7"
| "client_work ClientEmplace = 6"
| "client_work ClientSni = 5"
| "client_work ClientConnect = 4"
| "client_work ClientTls = 3"
| "client_work ClientHandshake = 2"
| "client_work ClientRead = 1"
| "client_work (ClientPush m) = 2"
| "client_work ClientReturned = 0"

definition network_work :: "NetworkStage \<Rightarrow> nat" where
  "network_work s =
     (case ns_phase s of
        NetworkLoop \<Rightarrow> 1
      | NetworkWait \<Rightarrow> 2
      | NetworkPolicyReset \<Rightarrow> 3
      | NetworkCheck had \<Rightarrow> 4
      | NetworkDrop had \<Rightarrow> 5
      | NetworkClient had \<Rightarrow> 5 + (case ns_client s of None \<Rightarrow> 0 | Some c \<Rightarrow> client_work (wc_phase c))
      | NetworkCreate \<Rightarrow> 15
      | _ \<Rightarrow> 0)"

lemma client_step_work:
  assumes "BinanceWebSocketClient_run E input q c = Some (e, q', c')"
  shows "client_work (wc_phase c') + 1 \<le> client_work (wc_phase c) + 2 * length (received_of e)"
  using assms
  by (auto simp: BinanceWebSocketClient_run_def client_fails_def split: client_run_splits)

lemma network_step_work:
  assumes "stage_inv s" and "ns_stop_requested s" and "NetworkStage_run rnd E input q s = Some (e, q', s')"
  shows "network_work s' + 1 \<le> network_work s + 2 * length (received_messages (client_event_of e))"
proof (cases "\<exists>had. ns_phase s = NetworkClient had")
  case True
  then obtain had where had: "ns_phase s = NetworkClient had" by blast
  then obtain c ce c' where step: "ns_client s = Some c"
    "BinanceWebSocketClient_run E input q c = Some (ce, q', c')" "e = ClientDid ce"
    "s' = s\<lparr>ns_client := Some c', ns_phase := if wc_phase c' = ClientReturned then NetworkDrop (had \<or> read_failed ce)
        else NetworkClient (had \<or> read_failed ce)\<rparr>"
    using network_client_step [OF assms(1) _ assms(3)] by metis
  from client_step_work [OF step(2)] had step(1) show ?thesis
    unfolding step(3,4) by (auto simp: network_work_def)
next
  case False
  with assms(2,3) show ?thesis
    by (cases "ns_phase s") (auto simp: network_work_def NetworkStage_run_def BinanceWebSocketClient_new_def
        split: if_splits net_input.splits prod.splits)
qed

lemma run_keeps_stop:
  assumes "NetworkStage_run rnd E input q s = Some (e, q', s')"
  shows "ns_stop_requested s' = ns_stop_requested s" and "ns_stopper s' = ns_stopper s"
  using assms by (auto simp: NetworkStage_run_def Let_def split: network_run_splits)

lemma network_work_bound: "network_work s \<le> 15"
proof -
  have "client_work ph \<le> 10" for ph
    by (cases ph) simp_all
  then show ?thesis
    by (auto simp: network_work_def split: network_phase.splits option.splits)
qed

text \<open>
  The network thread can take a step: all it may wait for is an answer or room in the queue. An
  answer that ends the call the thread is in with an error brings no message.
\<close>

fun failing_input :: "'ec \<Rightarrow> client_phase \<Rightarrow> 'ec net_input" where
  "failing_input ec ClientRead = ReadReturned ec []"
| "failing_input ec ClientSni = SniReturned False ec"
| "failing_input ec ph = (if ph \<in> {ClientResolve, ClientConnect, ClientTls, ClientHandshake} then Returned ec else Silent)"

lemma client_enabled:
  assumes "wc_phase c \<noteq> ClientReturned" and "ec_failed E ec"
    and "bq_shutdown q \<or> length (bq_items q) < bq_capacity q"
  shows "\<exists>e q' c'. BinanceWebSocketClient_run E (failing_input ec (wc_phase c)) q c = Some (e, q', c') \<and> received_of e = []"
proof (cases "wc_phase c")
  case (ClientPush m)
  obtain ok q' where "bq_push m q = Some (ok, q')"
    using bq.push_blocks [of m q] assms(3) by (cases "bq_push m q") auto
  with ClientPush show ?thesis
    by (simp add: BinanceWebSocketClient_run_def)
qed (use assms(1,2) in \<open>auto simp: BinanceWebSocketClient_run_def client_fails_def\<close>)

lemma network_enabled:
  assumes "stage_inv s" and "ns_phase s \<noteq> NetworkOff" and "ns_phase s \<noteq> NetworkDone"
    and "ns_stopper s \<noteq> StageClose" and "ec_failed E ec"
    and "bq_shutdown q \<or> length (bq_items q) < bq_capacity q"
  shows "\<exists>input e q' s'. NetworkStage_run rnd E input q s = Some (e, q', s') \<and> received_messages (client_event_of e) = []"
proof (cases "ns_phase s")
  case (NetworkClient had)
  then obtain c where c: "ns_client s = Some c" "wc_phase c \<noteq> ClientReturned"
    using assms(1) by (auto simp: stage_inv_def)
  with client_enabled [OF c(2) assms(5,6)] NetworkClient show ?thesis
    by (intro exI [of _ "failing_input ec (wc_phase c)"]) (auto simp: NetworkStage_run_def Let_def)
next
  case NetworkWait
  then show ?thesis
    by (intro exI [of _ "DelayPassed (\<lambda>lo hi. lo)"]) (auto simp: NetworkStage_run_def split: prod.splits)
qed (use assms(2-4) in \<open>auto simp: NetworkStage_run_def\<close>)

section \<open>Executable schedules\<close>

datatype 'ec network_action = NetworkRuns "'ec net_input" "string BoundedQueue" | NetworkStarts | NetworkStops

fun run_network ::
    "(rat \<Rightarrow> rat) \<Rightarrow> 'ec error_codes \<Rightarrow> 'ec network_action list \<Rightarrow> NetworkStage
     \<Rightarrow> ('ec network_event list \<times> NetworkStage) option" where
  "run_network rnd E [] s = Some ([], s)"
| "run_network rnd E (NetworkRuns input q # acts) s =
     (case NetworkStage_run rnd E input q s of
        None \<Rightarrow> None
      | Some (e, q', s') \<Rightarrow> map_option (\<lambda>(es, s''). (e # es, s'')) (run_network rnd E acts s'))"
| "run_network rnd E (NetworkStarts # acts) s = Option.bind (NetworkStage_start s) (run_network rnd E acts)"
| "run_network rnd E (NetworkStops # acts) s = Option.bind (NetworkStage_stop s) (run_network rnd E acts)"

lemma run_network_trace:
  assumes "run_network rnd E acts s = Some (es, s')" and "network_trace rnd E s0 es0 s"
    and "\<forall>draw q. NetworkRuns (DelayPassed draw) q \<in> set acts \<longrightarrow> draws_within draw"
  shows "network_trace rnd E s0 (es0 @ es) s'"
  using assms
proof (induction rnd E acts s arbitrary: es0 es rule: run_network.induct)
  case (2 rnd E input q acts s)
  obtain e q1 s1 es1 where step: "NetworkStage_run rnd E input q s = Some (e, q1, s1)"
    "run_network rnd E acts s1 = Some (es1, s')" "es = e # es1"
    using "2.prems"(1) by (auto split: option.splits)
  have "network_trace rnd E s0 (es0 @ [e]) s1"
    using "2.prems"(2,3) step(1) by (auto intro: network_run)
  moreover have "\<forall>draw q. NetworkRuns (DelayPassed draw) q \<in> set acts \<longrightarrow> draws_within draw"
    using "2.prems"(3) by auto
  ultimately show ?case
    using "2.IH" [OF step(1) refl refl step(2), of "es0 @ [e]"] step(3) by simp
qed (auto simp: bind_eq_Some_conv intro: network_trace.intros)

lemma stopped_run_bound:
  assumes "stage_inv s" and "ns_stop_requested s" and "run_network rnd E acts s = Some (es, s')"
    and "\<forall>act \<in> set acts. \<exists>input q. act = NetworkRuns input q"
  shows "stage_inv s' \<and> ns_stopper s' = ns_stopper s
     \<and> length acts + network_work s' \<le> network_work s + 2 * length (received_messages (client_events es))"
  using assms
proof (induction acts arbitrary: s es)
  case (Cons act acts)
  then obtain input q where act: "act = NetworkRuns input q" by auto
  obtain e q1 s1 es1 where step: "NetworkStage_run rnd E input q s = Some (e, q1, s1)"
    "run_network rnd E acts s1 = Some (es1, s')" "es = e # es1"
    using Cons.prems(3) act by (auto split: option.splits)
  note keeps = run_keeps_stop [OF step(1)]
  have "stage_inv s' \<and> ns_stopper s' = ns_stopper s1
      \<and> length acts + network_work s' \<le> network_work s1 + 2 * length (received_messages (client_events es1))"
    using Cons.prems(2,4) keeps(1) by (intro Cons.IH [OF run_stage_inv [OF Cons.prems(1) step(1)] _ step(2)]) simp_all
  with network_step_work [OF Cons.prems(1,2) step(1)] keeps(2) step(3) show ?case by simp
qed simp


section \<open>The waits\<close>

lemma wait_bounded:
  assumes "double_rounding rnd" and "draws_within draw" and "valid_reconnect (rp_config p)"
    and "unat (rc_max_backoff_ms (rp_config p)) \<le> 2 ^ 52"
  shows "int (unat (fst (wait_for_next_attempt rnd draw b p))) \<le> int (unat (rc_max_backoff_ms (rp_config p)))
     + \<lceil>of_nat (unat (rc_max_backoff_ms (rp_config p))) * rc_jitter_ratio (rp_config p)\<rceil>"
proof -
  let ?base = "base_delay_for_attempt p (rp_attempt p)" and ?m = "unat (rc_max_backoff_ms (rp_config p))"
    and ?q = "rc_jitter_ratio (rp_config p)"
  have "?m \<le> 2 ^ 63"
    using assms(4) by (rule order_trans) simp
  then have base: "unat ?base \<le> ?m"
    by (simp add: base_delay_exact)
  note J = jitter_bounds(1) [OF assms(1-3) order_trans [OF base assms(4)]]
  have "(of_nat (unat ?base) :: rat) \<le> of_nat ?m"
    using base by (rule of_nat_mono)
  then have "\<lceil>of_nat (unat ?base) * ?q\<rceil> \<le> \<lceil>of_nat ?m * ?q\<rceil>"
    using assms(3) by (intro ceiling_mono mult_right_mono) (simp_all add: valid_reconnect_def)
  moreover have "int (unat ?base) \<le> int ?m"
    using base by (rule of_nat_mono)
  ultimately show ?thesis
    unfolding wait_for_next_attempt_def Let_def fst_conv using J by linarith
qed

lemma policy_config [simp]:
  "rp_config (ReconnectPolicy_reset p) = rp_config p" "rp_config (ReconnectPolicy_stop p) = rp_config p"
  "rp_config (snd (snd (wait_for_next_attempt rnd draw b p))) = rp_config p"
  by (simp_all add: ReconnectPolicy_reset_def ReconnectPolicy_stop_def wait_for_next_attempt_def finish_wait_def Let_def)

lemma run_policy_config:
  assumes "stage_inv s" and "NetworkStage_run rnd E input q s = Some (e, q', s')"
  shows "rp_config (ns_policy s') = rp_config (ns_policy s)"
    and "e = Waited delay ok \<Longrightarrow> \<exists>draw. input = DelayPassed draw
       \<and> delay = fst (wait_for_next_attempt rnd draw False (ns_policy s))"
proof -
  have *: "wait_for_next_attempt rnd draw b p = (d, ok', p') \<Longrightarrow> rp_config p' = rp_config p" for draw b p d ok' p'
    by (metis policy_config(3) snd_conv)
  show "rp_config (ns_policy s') = rp_config (ns_policy s)"
    using assms(2) by (auto simp: NetworkStage_run_def Let_def dest: * split: network_run_splits)
  show "\<exists>draw. input = DelayPassed draw \<and> delay = fst (wait_for_next_attempt rnd draw False (ns_policy s))"
    if "e = Waited delay ok"
    using assms(2) that by (auto simp: NetworkStage_run_def Let_def split: network_run_splits)
qed

lemma network_waits:
  assumes "network_trace rnd E (NetworkStage_new host port target config) es s"
    and "double_rounding rnd" and "valid_reconnect config" and "unat (rc_max_backoff_ms config) \<le> 2 ^ 52"
  shows "rp_config (ns_policy s) = config
     \<and> (\<forall>delay ok. Waited delay ok \<in> set es \<longrightarrow> int (unat delay) \<le> int (unat (rc_max_backoff_ms config))
       + \<lceil>of_nat (unat (rc_max_backoff_ms config)) * rc_jitter_ratio config\<rceil>)"
  using assms(1)
proof (induction rule: network_trace.induct)
  case (network_run es s input q e q' s')
  note P = run_policy_config [OF network_inv [OF network_run(1)] network_run(2)]
  have "int (unat delay) \<le> int (unat (rc_max_backoff_ms config))
       + \<lceil>of_nat (unat (rc_max_backoff_ms config)) * rc_jitter_ratio config\<rceil>" if "e = Waited delay ok" for delay ok
    using P(2) [OF that] wait_bounded [OF assms(2), of _ "ns_policy s"] network_run(3,4) assms(3,4) by fastforce
  with network_run(4) P(1) show ?case by auto
qed (auto simp: NetworkStage_new_def ReconnectPolicy_new_def NetworkStage_start_def NetworkStage_stop_def
    split: if_splits option.splits network_stop.splits)


section \<open>Concrete schedules\<close>

abbreviation room_queue :: "string BoundedQueue" where
  "room_queue \<equiv> BoundedQueue_new 1"

definition connects :: "nat network_action list" where
  "connects = map (\<lambda>input. NetworkRuns input room_queue)
     [Silent, Returned 0, Silent, Silent, SniReturned True 0, Returned 0, Returned 0, Returned 0]"

definition reads :: "string \<Rightarrow> nat network_action list" where
  "reads m = [NetworkRuns (ReadReturned 0 m) room_queue, NetworkRuns Silent room_queue]"

definition starts :: "nat network_action list" where
  "starts = [NetworkStarts, NetworkRuns Silent room_queue, NetworkRuns Silent room_queue]"

text \<open>The four steps of \<^verbatim>\<open>stop\<close> up to the join.\<close>

definition stops :: "nat network_action list" where
  "stops = [NetworkStops, NetworkStops, NetworkStops, NetworkStops]"

lemma run_network_append:
  "run_network rnd E xs s = Some (es, s1) \<Longrightarrow> run_network rnd E ys s1 = Some (es', s2) \<Longrightarrow>
     run_network rnd E (xs @ ys) s = Some (es @ es', s2)"
proof (induction rnd E xs s arbitrary: es rule: run_network.induct)
  case (2 rnd E input q acts s)
  then obtain e q1 s' es1 where "NetworkStage_run rnd E input q s = Some (e, q1, s')"
    "run_network rnd E acts s' = Some (es1, s1)" "es = e # es1"
    by (auto split: option.splits)
  with 2 show ?case by simp
qed (auto simp: bind_eq_Some_conv)

lemmas network_exec = NetworkStage_run_def NetworkStage_start_def NetworkStage_stop_def NetworkStage_new_def
  BinanceWebSocketClient_run_def BinanceWebSocketClient_new_def client_fails_def client_request_stop_def
  client_close_def classify_error_def numbered_codes_def Let_def bq_defs BoundedQueue_new_def
  ReconnectPolicy_stop_def ReconnectPolicy_new_def connects_def starts_def stops_def reads_def

definition is_reading :: "NetworkStage \<Rightarrow> bool" where
  "is_reading s \<longleftrightarrow> (\<exists>c. ns_client s = Some c \<and> ns_phase s = NetworkClient False \<and> wc_phase c = ClientRead
     \<and> wc_ws c = Some True \<and> \<not> wc_stop_requested c)"

text \<open>All of \<^verbatim>\<open>stop\<close> up to the join happens before the first statement of the client's \<^verbatim>\<open>run\<close>.\<close>

lemma early_stop:
  "\<exists>es s c. run_network id numbered_codes (starts @ stops) (NetworkStage_new host port target config) = Some (es, s)
     \<and> ns_stopper s = StageJoin \<and> ns_client s = Some c \<and> wc_stop_requested c \<and> ns_phase s = NetworkClient False
     \<and> wc_phase c = ClientIdle \<and> received_messages (client_events es) = []"
  by (simp add: network_exec)

lemma late_connect:
  assumes "ns_client s = Some c" and "ns_phase s = NetworkClient False" and "wc_phase c = ClientIdle"
  shows "\<exists>es s'. run_network id numbered_codes connects s = Some (es, s')
     \<and> is_reading s' \<and> ns_stopper s' = ns_stopper s \<and> received_messages (client_events es) = []"
  using assms by (simp add: network_exec is_reading_def)

lemma reading_goes_on:
  assumes "is_reading s"
  shows "\<exists>es s'. run_network id numbered_codes (concat (map reads msgs)) s = Some (es, s') \<and> is_reading s'
     \<and> ns_stopper s' = ns_stopper s \<and> received_messages (client_events es) = msgs"
  using assms
proof (induction msgs arbitrary: s)
  case (Cons m msgs)
  have "\<exists>es s1. run_network id numbered_codes (reads m) s = Some (es, s1) \<and> is_reading s1
      \<and> ns_stopper s1 = ns_stopper s \<and> received_messages (client_events es) = [m]"
    using Cons.prems by (auto simp: is_reading_def reads_def NetworkStage_run_def BinanceWebSocketClient_run_def
        numbered_codes_def Let_def bq_defs BoundedQueue_new_def)
  then obtain es s1 where s1: "run_network id numbered_codes (reads m) s = Some (es, s1)" "is_reading s1"
    "ns_stopper s1 = ns_stopper s" "received_messages (client_events es) = [m]" by blast
  obtain es' s2 where s2: "run_network id numbered_codes (concat (map reads msgs)) s1 = Some (es', s2)"
    "is_reading s2" "ns_stopper s2 = ns_stopper s1" "received_messages (client_events es') = msgs"
    using Cons.IH [OF s1(2)] by blast
  have "run_network id numbered_codes (concat (map reads (m # msgs))) s = Some (es @ es', s2)"
    using run_network_append [OF s1(1) s2(1)] by (simp only: list.map concat.simps)
  moreover have "received_messages (client_events (es @ es')) = m # msgs"
    using s1(4) s2(4) by simp
  ultimately show ?case
    using s1(3) s2(2,3) by metis
qed (simp add: is_reading_def)

lemma no_draws: "NetworkRuns (DelayPassed draw) q \<notin> set (starts @ stops @ connects @ concat (map reads msgs))"
  by (auto simp: starts_def stops_def connects_def reads_def)


definition failed_attempt :: "nat network_action list" where
  "failed_attempt = map (\<lambda>input. NetworkRuns input room_queue)
     [Silent, Returned 9, Silent, Silent, DelayPassed (\<lambda>lo hi. lo)]"

definition failed_read :: "nat network_action list" where
  "failed_read = map (\<lambda>input. NetworkRuns input room_queue) [ReadReturned 9 [], Silent, Silent]"

lemma lower_draws:
  "\<forall>draw q. NetworkRuns (DelayPassed draw) q \<in> set (starts @ failed_attempt) \<longrightarrow> draws_within draw"
  "\<forall>draw q. NetworkRuns (DelayPassed draw) q \<in> set (starts @ failed_attempt @ tl starts @ connects @ failed_read)
     \<longrightarrow> draws_within draw"
  by (auto simp: starts_def failed_attempt_def connects_def failed_read_def draws_within_def)

lemma stop_overtaken:
  "\<exists>es s es' s' c. network_trace id numbered_codes (NetworkStage_new host port target config) es s
     \<and> ns_stopper s = StageJoin \<and> ns_client s = Some c \<and> wc_stop_requested c \<and> received_messages (client_events es) = []
     \<and> run_network id numbered_codes (connects @ concat (map reads msgs)) s = Some (es', s')
     \<and> received_messages (client_events es') = msgs \<and> is_reading s' \<and> ns_stopper s' = StageJoin"
proof -
  obtain es s c where s: "run_network id numbered_codes (starts @ stops) (NetworkStage_new host port target config)
      = Some (es, s)" "ns_stopper s = StageJoin" "received_messages (client_events es) = []"
    "ns_client s = Some c" "wc_stop_requested c" "ns_phase s = NetworkClient False" "wc_phase c = ClientIdle"
    using early_stop by blast
  obtain es1 s1 where s1: "run_network id numbered_codes connects s = Some (es1, s1)" "is_reading s1"
    "ns_stopper s1 = ns_stopper s" "received_messages (client_events es1) = []"
    using late_connect [OF s(4,6,7)] by blast
  obtain es' s' where s': "run_network id numbered_codes (concat (map reads msgs)) s1 = Some (es', s')"
    "is_reading s'" "ns_stopper s' = ns_stopper s1" "received_messages (client_events es') = msgs"
    using reading_goes_on [OF s1(2)] by blast
  have "\<forall>draw q. NetworkRuns (DelayPassed draw) q \<in> set (starts @ stops) \<longrightarrow> draws_within draw"
    using no_draws by fastforce
  from run_network_trace [OF s(1) network_init this]
  have "network_trace id numbered_codes (NetworkStage_new host port target config) es s" by simp
  moreover have "received_messages (client_events (es1 @ es')) = msgs"
    using s1(4) s'(4) by simp
  ultimately show ?thesis
    using s run_network_append [OF s1(1) s'(1)] s1(3) s'(2,3) by metis
qed

section \<open>Properties\<close>

text \<open>
  Across all reconnections the messages pushed to the raw queue are exactly the messages
  received, in order, each once, up to the one in the network thread's hand.
\<close>

theorem network_delivers_verbatim:
  assumes "network_trace rnd E (NetworkStage_new host port target config) es s"
  shows "received_messages (client_events es) = pushed_messages (client_events es) @ stage_hand s"
  by (rule network_messages [OF assms])

text \<open>
  A stopped network thread ends with its connection. Let \<^verbatim>\<open>stop\<close> have come to the join. Then
  whatever the network answers, the thread takes at most fifteen more steps and two for every message
  that still comes from the connection it has or makes, and until it is done it can take one as
  soon as its pending call returns and the queue has room.
\<close>

theorem network_stop_effective:
  assumes "network_trace rnd E (NetworkStage_new host port target config) es s"
    and "ns_stopper s = StageJoin"
    and "\<forall>act \<in> set acts. \<exists>input q. act = NetworkRuns input q"
    and "run_network rnd E acts s = Some (es', s')"
    and "ec_failed E ec" and "bq_shutdown q \<or> length (bq_items q) < bq_capacity q"
  shows "length acts \<le> 15 + 2 * length (received_messages (client_events es'))
     \<and> (NetworkStage_stop s' \<noteq> None \<or> (\<exists>input. NetworkStage_run rnd E input q s' \<noteq> None))"
proof
  note inv = network_inv [OF assms(1)]
  have "ns_stop_requested s"
    using inv assms(2) by (simp add: stage_inv_def)
  note after = stopped_run_bound [OF inv this assms(4,3)]
  with network_work_bound [of s] show "length acts \<le> 15 + 2 * length (received_messages (client_events es'))" by simp
  show "NetworkStage_stop s' \<noteq> None \<or> (\<exists>input. NetworkStage_run rnd E input q s' \<noteq> None)"
  proof (cases "ns_phase s' = NetworkOff \<or> ns_phase s' = NetworkDone")
    case True
    with after assms(2) show ?thesis by (simp add: NetworkStage_stop_def)
  next
    case False
    with network_enabled [OF _ _ _ _ assms(5,6), of s' rnd] after assms(2) show ?thesis by auto
  qed
qed

text \<open>
  C19: a stop can get lost. Let \<^verbatim>\<open>stop\<close> do everything it does before the join between the
  creation of a client and the first statement of its \<^verbatim>\<open>run\<close>, so that the client has been told to
  stop. For every list of messages there is a continuation in which this statement clears the flag, the
  connection is made, and after the stop the thread receives all the messages on it: \<^verbatim>\<open>stop\<close> is
  still blocked in the join, the socket is open, and the client's flag is not set.
\<close>

theorem network_stop_lost:
  "\<exists>es s c inputs es' s' c'. network_trace id numbered_codes (NetworkStage_new host port target config) es s
     \<and> ns_stopper s = StageJoin \<and> ns_client s = Some c \<and> wc_stop_requested c \<and> received_messages (client_events es) = []
     \<and> run_network id numbered_codes (map (\<lambda>input. NetworkRuns input room_queue) inputs) s = Some (es', s')
     \<and> received_messages (client_events es') = msgs
     \<and> ns_stopper s' = StageJoin \<and> NetworkStage_stop s' = None
     \<and> ns_client s' = Some c' \<and> wc_phase c' = ClientRead \<and> wc_ws c' = Some True \<and> \<not> wc_stop_requested c'"
proof -
  have "\<exists>inputs. connects @ concat (map reads msgs) = map (\<lambda>input. NetworkRuns input room_queue) inputs"
    by (intro exI [of _ "[Silent, Returned 0, Silent, Silent, SniReturned True 0, Returned 0, Returned 0, Returned 0]
        @ concat (map (\<lambda>m. [ReadReturned 0 m, Silent]) msgs)"])
      (simp add: connects_def reads_def [abs_def] map_concat comp_def)
  then obtain inputs where inputs: "connects @ concat (map reads msgs) = map (\<lambda>input. NetworkRuns input room_queue) inputs"
    by blast
  obtain es s es' s' c where run: "network_trace id numbered_codes (NetworkStage_new host port target config) es s"
    "ns_stopper s = StageJoin" "ns_client s = Some c" "wc_stop_requested c" "received_messages (client_events es) = []"
    "run_network id numbered_codes (connects @ concat (map reads msgs)) s = Some (es', s')"
    "received_messages (client_events es') = msgs" "is_reading s'" "ns_stopper s' = StageJoin"
    using stop_overtaken [of host port target config msgs] by blast
  then obtain c' where "ns_client s' = Some c'" "ns_phase s' = NetworkClient False" "wc_phase c' = ClientRead"
    "wc_ws c' = Some True" "\<not> wc_stop_requested c'"
    by (auto simp: is_reading_def)
  moreover from this have "NetworkStage_stop s' = None"
    using run(9) by (simp add: NetworkStage_stop_def)
  ultimately show ?thesis
    using run inputs by metis
qed

text \<open>
  C29: for a configured maximum of at most \<open>2\<^sup>5\<^sup>2\<close> milliseconds no wait between two attempts is
  longer than the maximum plus its share by the jitter ratio, rounded up to a millisecond, whatever
  happens on the connections.
\<close>

theorem network_waits_bounded:
  assumes "network_trace rnd E (NetworkStage_new host port target config) es s"
    and "double_rounding rnd" and "valid_reconnect config" and "unat (rc_max_backoff_ms config) \<le> 2 ^ 52"
    and "Waited delay ok \<in> set es"
  shows "int (unat delay) \<le> int (unat (rc_max_backoff_ms config))
       + \<lceil>of_nat (unat (rc_max_backoff_ms config)) * rc_jitter_ratio config\<rceil>"
  using network_waits [OF assms(1-4)] assms(5) by blast


text \<open>
  The backoff is reset without any message. An attempt fails, and the next connection
  fails in its first read: no message has ever been received, and the stage goes on to reset the
  policy, though the attempt count is one.
\<close>

theorem backoff_reset_without_message:
  "\<exists>es s. network_trace id numbered_codes (NetworkStage_new host port target config) es s
     \<and> received_messages (client_events es) = [] \<and> current_attempt (ns_policy s) = 1
     \<and> (\<exists>e q' s'. NetworkStage_run id numbered_codes Silent room_queue s = Some (e, q', s')
          \<and> current_attempt (ns_policy s') = 0)"
proof -
  have "\<exists>es s. run_network id numbered_codes (starts @ failed_attempt @ tl starts @ connects @ failed_read)
      (NetworkStage_new host port target config) = Some (es, s)
      \<and> received_messages (client_events es) = [] \<and> current_attempt (ns_policy s) = 1 \<and> ns_phase s = NetworkPolicyReset"
    by (simp add: network_exec failed_attempt_def failed_read_def wait_for_next_attempt_def finish_wait_def
        current_attempt_def)
  then obtain es s where run: "run_network id numbered_codes (starts @ failed_attempt @ tl starts @ connects @ failed_read)
      (NetworkStage_new host port target config) = Some (es, s)"
    "received_messages (client_events es) = []" "current_attempt (ns_policy s) = 1" "ns_phase s = NetworkPolicyReset"
    by blast
  have "network_trace id numbered_codes (NetworkStage_new host port target config) es s"
    using run_network_trace [OF run(1) network_init lower_draws(2)] by simp
  moreover have "\<exists>e q' s'. NetworkStage_run id numbered_codes Silent room_queue s = Some (e, q', s')
      \<and> current_attempt (ns_policy s') = 0"
    using run(4) by (simp add: NetworkStage_run_def ReconnectPolicy_reset_def current_attempt_def)
  ultimately show ?thesis
    using run(2,3) by blast
qed

section \<open>Witnesses\<close>

theorem network_delivers_verbatim_witness:
  "\<exists>es s. network_trace id numbered_codes (NetworkStage_new ''host'' ''443'' ''/t'' ReconnectConfig_default) es s
     \<and> pushed_messages (client_events es) @ stage_hand s = [''a'', ''b'']"
proof -
  let ?s0 = "NetworkStage_new ''host'' ''443'' ''/t'' ReconnectConfig_default" and ?acts = "connects @ concat (map reads [''a'', ''b''])"
  obtain es s es' s' where run: "network_trace id numbered_codes ?s0 es s" "received_messages (client_events es) = []"
    "run_network id numbered_codes ?acts s = Some (es', s')" "received_messages (client_events es') = [''a'', ''b'']"
    using stop_overtaken [of "''host''" "''443''" "''/t''" ReconnectConfig_default "[''a'', ''b'']"] by metis
  have "\<forall>draw q. NetworkRuns (DelayPassed draw) q \<in> set ?acts \<longrightarrow> draws_within draw"
    by (simp add: connects_def reads_def)
  note reach = run_network_trace [OF run(3,1) this]
  from network_delivers_verbatim [OF reach] run(2,4)
  have "pushed_messages (client_events (es @ es')) @ stage_hand s' = [''a'', ''b'']" by simp
  with reach show ?thesis by blast
qed

theorem network_stop_effective_witness:
  "\<exists>es s es' s'. network_trace id numbered_codes (NetworkStage_new ''host'' ''443'' ''/t'' ReconnectConfig_default) es s
     \<and> ns_stopper s = StageJoin
     \<and> run_network id numbered_codes failed_read s = Some (es', s') \<and> ns_phase s' = NetworkDone
     \<and> (NetworkStage_stop s' \<noteq> None \<or> (\<exists>input. NetworkStage_run id numbered_codes input room_queue s' \<noteq> None))"
proof -
  have "\<exists>es s es' s'. run_network id numbered_codes (starts @ connects @ stops)
      (NetworkStage_new ''host'' ''443'' ''/t'' ReconnectConfig_default) = Some (es, s)
      \<and> ns_stopper s = StageJoin
      \<and> run_network id numbered_codes failed_read s = Some (es', s') \<and> ns_phase s' = NetworkDone"
    by (simp add: network_exec failed_read_def)
  then obtain es s es' s' where run: "run_network id numbered_codes (starts @ connects @ stops)
      (NetworkStage_new ''host'' ''443'' ''/t'' ReconnectConfig_default) = Some (es, s)"
    "ns_stopper s = StageJoin"
    "run_network id numbered_codes failed_read s = Some (es', s')" "ns_phase s' = NetworkDone" by blast
  have "\<forall>draw q. NetworkRuns (DelayPassed draw) q \<in> set (starts @ connects @ stops) \<longrightarrow> draws_within draw"
    by (auto simp: starts_def stops_def connects_def)
  from run_network_trace [OF run(1) network_init this]
  have reach: "network_trace id numbered_codes (NetworkStage_new ''host'' ''443'' ''/t'' ReconnectConfig_default) es s"
    by simp
  have acts: "\<forall>act \<in> set failed_read. \<exists>input q. act = NetworkRuns input q"
    by (simp add: failed_read_def)
  have "ec_failed numbered_codes 9" "bq_shutdown room_queue \<or> length (bq_items room_queue) < bq_capacity room_queue"
    by (simp_all add: numbered_codes_def BoundedQueue_new_def)
  from network_stop_effective [OF reach run(2) acts run(3) this] reach run show ?thesis by blast
qed

theorem network_waits_bounded_witness:
  "\<exists>es s delay ok. network_trace id numbered_codes (NetworkStage_new ''host'' ''443'' ''/t'' ReconnectConfig_default) es s
     \<and> Waited delay ok \<in> set es \<and> unat delay \<le> 36001"
proof -
  have "\<exists>es s delay ok. run_network id numbered_codes (starts @ failed_attempt)
      (NetworkStage_new ''host'' ''443'' ''/t'' ReconnectConfig_default) = Some (es, s) \<and> Waited delay ok \<in> set es"
    by (simp add: network_exec failed_attempt_def wait_for_next_attempt_def finish_wait_def) blast
  then obtain es s delay ok where run: "run_network id numbered_codes (starts @ failed_attempt)
      (NetworkStage_new ''host'' ''443'' ''/t'' ReconnectConfig_default) = Some (es, s)" "Waited delay ok \<in> set es"
    by blast
  have reach: "network_trace id numbered_codes (NetworkStage_new ''host'' ''443'' ''/t'' ReconnectConfig_default) es s"
    using run_network_trace [OF run(1) network_init lower_draws(1)] by simp
  have "valid_reconnect ReconnectConfig_default" "unat (rc_max_backoff_ms ReconnectConfig_default) \<le> 2 ^ 52"
    by (simp_all add: valid_reconnect_def ReconnectConfig_default_def)
  note W = network_waits_bounded [OF reach exact_rounding(1) this run(2)]
  have m: "unat (rc_max_backoff_ms ReconnectConfig_default) = 30000"
    and j: "\<lceil>30000 * rc_jitter_ratio ReconnectConfig_default\<rceil> = 6001"
    by (simp_all add: ReconnectConfig_default_def ceiling_eq_iff)
  have "unat delay \<le> 36001"
    using W unfolding m of_nat_numeral j by linarith
  with reach run(2) show ?thesis by blast
qed

end
