(* ===== verification/CliOptions.thy ===== *)
theory CliOptions
  imports Agg_Prelude
begin

text \<open>
  \<^verbatim>\<open>app/include/agg/runtime/CliOptions.hpp\<close> and \<^verbatim>\<open>app/src/runtime/CliOptions.cpp\<close>. The
  arguments are the list \<^verbatim>\<open>argv[0]\<close>, \<dots>, \<^verbatim>\<open>argv[argc-1]\<close>; the loop counter \<open>i\<close> is kept, since the
  code advances it inside the body too.
\<close>

section \<open>Definitions\<close>

record CliOptions =
  cli_config_path :: string

definition CliOptions_default :: CliOptions where
  "CliOptions_default = \<lparr>cli_config_path = ''config/config.json''\<rparr>"

definition kConfigFlag :: string where
  "kConfigFlag = ''--config''"

definition kConfigFlagWithEquals :: string where
  "kConfigFlagWithEquals = ''--config=''"

datatype cli_error = InvalidArgument string

text \<open>\<^verbatim>\<open>arg.rfind(flag, 0) == 0\<close>: the argument starts with the flag.\<close>

definition starts_with :: "string \<Rightarrow> string \<Rightarrow> bool" where
  "starts_with flag arg \<longleftrightarrow> take (length flag) arg = flag"

function parse_cli_args :: "string list \<Rightarrow> nat \<Rightarrow> CliOptions \<Rightarrow> cli_error + CliOptions" where
  "parse_cli_args argv i options =
     (if \<not> i < length argv then Inr options
      else
        let arg = argv ! i
        in if arg = kConfigFlag then
             (if length argv \<le> i + 1 then Inl (InvalidArgument ''--config requires a path argument'')
              else parse_cli_args argv (i + 2) (options\<lparr>cli_config_path := argv ! (i + 1)\<rparr>))
           else if starts_with kConfigFlagWithEquals arg then
             parse_cli_args argv (i + 1)
               (options\<lparr>cli_config_path := drop (length kConfigFlagWithEquals) arg\<rparr>)
           else parse_cli_args argv (i + 1) options)"
  by pat_completeness auto
termination
  by (relation "measure (\<lambda>(argv, i, _). length argv - i)") auto

declare parse_cli_args.simps [simp del]

definition parse_cli_options :: "string list \<Rightarrow> cli_error + CliOptions" where
  "parse_cli_options argv = parse_cli_args argv 1 CliOptions_default"

section \<open>Specification\<close>

text \<open>
  The paths the arguments name, in order, \<open>None\<close> when a flag has no value: the same language
  as a recursion on the list.
\<close>

fun config_paths :: "string list \<Rightarrow> string list option" where
  "config_paths [] = Some []"
| "config_paths (a # as) =
     (if a = ''--config'' then
        (case as of [] \<Rightarrow> None | p # as' \<Rightarrow> map_option (Cons p) (config_paths as'))
      else if starts_with ''--config='' a
      then map_option (Cons (drop (length ''--config='') a)) (config_paths as)
      else config_paths as)"

lemma parse_cli_args_eq:
  "parse_cli_args argv i options =
     (case config_paths (drop i argv) of
        None \<Rightarrow> Inl (InvalidArgument ''--config requires a path argument'')
      | Some ps \<Rightarrow> Inr (if ps = [] then options else \<lparr>cli_config_path = last ps\<rparr>))"
proof (induction argv i options rule: parse_cli_args.induct)
  case (1 argv i options)
  note flags = kConfigFlag_def kConfigFlagWithEquals_def
  show ?case
  proof (cases "i < length argv")
    case False
    then show ?thesis by (subst parse_cli_args.simps) simp
  next
    case True
    note drop_i = Cons_nth_drop_Suc [OF True, symmetric]
    consider "argv ! i = kConfigFlag" "length argv \<le> i + 1"
      | "argv ! i = kConfigFlag" "i + 1 < length argv"
      | "argv ! i \<noteq> kConfigFlag" "starts_with kConfigFlagWithEquals (argv ! i)"
      | "argv ! i \<noteq> kConfigFlag" "\<not> starts_with kConfigFlagWithEquals (argv ! i)"
      by linarith
    then show ?thesis
    proof cases
      case 1
      with True show ?thesis
        by (subst parse_cli_args.simps) (simp add: drop_i flags)
    next
      case 2
      then have "drop (Suc i) argv = argv ! Suc i # drop (Suc (Suc i)) argv"
        by (simp add: Cons_nth_drop_Suc)
      with 2 True "1.IH"(1) [of "argv ! i"] show ?thesis
        by (subst parse_cli_args.simps) (auto simp: drop_i flags split: option.splits)
    next
      case 3
      with True "1.IH"(2) [of "argv ! i"] show ?thesis
        by (cases options, subst parse_cli_args.simps) (auto simp: drop_i flags split: option.splits)
    next
      case 4
      with True "1.IH"(3) [of "argv ! i"] show ?thesis
        by (subst parse_cli_args.simps) (auto simp: drop_i flags split: option.splits)
    qed
  qed
qed

section \<open>Properties\<close>

text \<open>
  C33: the last \<^verbatim>\<open>--config\<close> wins. For every argument list the parser terminates; it fails
  exactly when a \<^verbatim>\<open>--config\<close> that is not itself the value of another one is the last argument,
  returns the default path when no path is given and the last path given otherwise, and
  ignores every other argument.
\<close>

theorem parse_cli_options_correct:
  "parse_cli_options argv =
     (case config_paths (tl argv) of
        None \<Rightarrow> Inl (InvalidArgument ''--config requires a path argument'')
      | Some ps \<Rightarrow> Inr \<lparr>cli_config_path = (if ps = [] then ''config/config.json'' else last ps)\<rparr>)"
  by (simp add: parse_cli_options_def parse_cli_args_eq drop_Suc CliOptions_default_def split: option.splits)

end
