(* ===== verification/Main_Program.thy ===== *)
theory Main_Program
  imports Pipeline_Progress Pipeline_History NetworkStage CliOptions
begin

text \<open>
  \<^verbatim>\<open>app/main.cpp\<close>: how the components are put together. Start-up is a function of the
  arguments and the file system; after it, the program is the interleaving of the main thread
  with the threads of the network stage and of the pipeline, which share the raw message queue.
  Logging is left out, except for the texts \<^verbatim>\<open>main.cpp\<close> itself computes.
\<close>

section \<open>Texts\<close>

definition join_symbols :: "string list \<Rightarrow> string" where
  "join_symbols symbols =
     foldl (\<lambda>joined (i, symbol). (if i \<noteq> 0 then joined @ '','' else joined) @ symbol) [] (enumerate 0 symbols)"

fun stage_to_string :: "ConnectionStage \<Rightarrow> string" where
  "stage_to_string Resolve = ''resolve''"
| "stage_to_string TcpConnect = ''tcp_connect''"
| "stage_to_string TlsHandshake = ''tls_handshake''"
| "stage_to_string WebSocketHandshake = ''websocket_handshake''"
| "stage_to_string Read = ''read''"

fun kind_to_string :: "ConnectionErrorKind \<Rightarrow> string" where
  "kind_to_string DnsFailure = ''dns_failure''"
| "kind_to_string TcpConnectFailure = ''tcp_connect_failure''"
| "kind_to_string TlsHandshakeFailure = ''tls_handshake_failure''"
| "kind_to_string WebSocketHandshakeFailure = ''websocket_handshake_failure''"
| "kind_to_string ReadFailure = ''read_failure''"
| "kind_to_string Timeout = ''timeout''"
| "kind_to_string ServerDisconnect = ''server_disconnect''"
| "kind_to_string Unknown = ''unknown''"

definition kQueueCapacity :: nat where
  "kQueueCapacity = 4096"

section \<open>Start-up\<close>

text \<open>
  Where the main thread is: before a call, in the polling loop, in one of the two calls of
  \<^verbatim>\<open>stop\<close>, in the destructors that call them again, or after the return.
\<close>

datatype main_phase =
    MainStartPipeline
  | MainStartNetwork
  | MainPoll
  | MainStopNetwork
  | MainStopPipeline
  | MainDestroyNetwork
  | MainDestroyPipeline
  | MainExit

record 's Program =
  pg_stop_requested :: bool
  pg_pipeline :: "'s MarketDataPipeline"
  pg_network :: NetworkStage
  pg_main :: main_phase

text \<open>
  Two exceptions of start-up are caught by nobody: that of the sink for a file that does not open,
  and \<^verbatim>\<open>std::length_error\<close> of the pipeline for too many shards.
\<close>

datatype uncaught = SinkNotOpen | TooManyShards

datatype main_result =
    FailedArguments cli_error
  | FailedConfig config_error
  | UncaughtException uncaught
  | Running Config "FileOutputSink Program"

definition wire :: "Config \<Rightarrow> 's \<Rightarrow> 's Program" where
  "wire config sink =
     \<lparr>pg_stop_requested = False,
      pg_pipeline = MarketDataPipeline_new (cfg_window_ms config) (cfg_flush_interval_ms config) kQueueCapacity
        sink (unat (cfg_aggregator_threads config)),
      pg_network = NetworkStage_new (cfg_ws_host config) (cfg_ws_port config)
        (build_combined_stream_target (cfg_symbols config)) (cfg_reconnect config),
      pg_main = MainStartPipeline\<rparr>"

definition main_setup ::
    "'j json_lib \<Rightarrow> (string \<Rightarrow> string + 'j) \<Rightarrow> (string \<Rightarrow> string option) \<Rightarrow> (string \<Rightarrow> string option)
     \<Rightarrow> nat \<Rightarrow> string list \<Rightarrow> main_result" where
  "main_setup J read_json read_file open_append max_shards argv =
     (case parse_cli_options argv of
        Inl error \<Rightarrow> FailedArguments error
      | Inr options \<Rightarrow>
          (case load_from_file J read_json read_file (cli_config_path options) of
             Inl error \<Rightarrow> FailedConfig error
           | Inr config \<Rightarrow>
               (case FileOutputSink_new open_append (cfg_output_file config) of
                  None \<Rightarrow> UncaughtException SinkNotOpen
                | Some sink \<Rightarrow>
                    (case MarketDataPipeline_construct max_shards (cfg_window_ms config)
                            (cfg_flush_interval_ms config) kQueueCapacity sink
                            (unat (cfg_aggregator_threads config)) of
                       None \<Rightarrow> UncaughtException TooManyShards
                     | Some pipeline \<Rightarrow> Running config ((wire config sink)\<lparr>pg_pipeline := pipeline\<rparr>)))))"

section \<open>Running\<close>

datatype 'ec program_action =
    Signal
  | MainRuns
  | NetworkThread "'ec net_input"
  | ParserThread
  | AggregatorThread nat
  | WriterThread u64

datatype 'ec program_event = ProgramQuiet | NetworkDid "'ec network_event" | PipelineDid pipeline_event

definition handle_shutdown_signal :: "'s Program \<Rightarrow> 's Program" where
  "handle_shutdown_signal g = g\<lparr>pg_stop_requested := True\<rparr>"

text \<open>A step of a call of \<^verbatim>\<open>stop\<close> in the main thread; \<open>next\<close> is where it goes when the call returns.\<close>

definition main_stops_network :: "main_phase \<Rightarrow> 's Program \<Rightarrow> ('ec program_event \<times> 's Program) option" where
  "main_stops_network next_phase g =
     (case NetworkStage_stop (pg_network g) of
        None \<Rightarrow> None
      | Some s \<Rightarrow>
          Some (ProgramQuiet, g\<lparr>pg_network := s,
            pg_main := if ns_stopper s = StageStopped then next_phase else pg_main g\<rparr>))"

definition main_stops_pipeline ::
    "(string \<Rightarrow> 's \<Rightarrow> bool \<times> 's) \<Rightarrow> main_phase \<Rightarrow> 's Program \<Rightarrow> ('ec program_event \<times> 's Program) option" where
  "main_stops_pipeline put next_phase g =
     (case stop put (pg_pipeline g) of
        None \<Rightarrow> None
      | Some (e, p) \<Rightarrow>
          Some (PipelineDid e, g\<lparr>pg_pipeline := p,
            pg_main := if pl_stopper p = Stopped then next_phase else pg_main g\<rparr>))"

definition main_step ::
    "(string \<Rightarrow> 's \<Rightarrow> bool \<times> 's) \<Rightarrow> 's Program \<Rightarrow> ('ec program_event \<times> 's Program) option" where
  "main_step put g =
     (case pg_main g of
        MainStartPipeline \<Rightarrow>
          map_option (\<lambda>p. (PipelineDid Internal, g\<lparr>pg_pipeline := p, pg_main := MainStartNetwork\<rparr>))
            (start (pg_pipeline g))
      | MainStartNetwork \<Rightarrow>
          map_option (\<lambda>s. (ProgramQuiet, g\<lparr>pg_network := s, pg_main := MainPoll\<rparr>))
            (NetworkStage_start (pg_network g))
      | MainPoll \<Rightarrow>
          Some (ProgramQuiet, g\<lparr>pg_main := if pg_stop_requested g then MainStopNetwork else MainPoll\<rparr>)
      | MainStopNetwork \<Rightarrow> main_stops_network MainStopPipeline g
      | MainStopPipeline \<Rightarrow> main_stops_pipeline put MainDestroyNetwork g
      | MainDestroyNetwork \<Rightarrow> main_stops_network MainDestroyPipeline g
      | MainDestroyPipeline \<Rightarrow> main_stops_pipeline put MainExit g
      | MainExit \<Rightarrow> None)"

text \<open>A thread of the pipeline, and the network thread on the pipeline's raw queue.\<close>

definition thread_step ::
    "'j json_lib \<Rightarrow> (string \<Rightarrow> nat) \<Rightarrow> (string \<Rightarrow> 's \<Rightarrow> bool \<times> 's) \<Rightarrow> pipeline_action
     \<Rightarrow> 's Program \<Rightarrow> ('ec program_event \<times> 's Program) option" where
  "thread_step J hash put act g =
     map_option (\<lambda>(e, p). (PipelineDid e, g\<lparr>pg_pipeline := p\<rparr>)) (pipeline_step J hash put act (pg_pipeline g))"

definition network_step ::
    "(rat \<Rightarrow> rat) \<Rightarrow> 'ec error_codes \<Rightarrow> 'ec net_input \<Rightarrow> 's Program \<Rightarrow> ('ec program_event \<times> 's Program) option" where
  "network_step rnd E input g =
     map_option (\<lambda>(e, q, s). (NetworkDid e, g\<lparr>pg_pipeline := (pg_pipeline g)\<lparr>pl_raw_queue := q\<rparr>, pg_network := s\<rparr>))
       (NetworkStage_run rnd E input (pl_raw_queue (pg_pipeline g)) (pg_network g))"

definition program_step ::
    "'j json_lib \<Rightarrow> (string \<Rightarrow> nat) \<Rightarrow> (string \<Rightarrow> 's \<Rightarrow> bool \<times> 's) \<Rightarrow> (rat \<Rightarrow> rat) \<Rightarrow> 'ec error_codes
     \<Rightarrow> 'ec program_action \<Rightarrow> 's Program \<Rightarrow> ('ec program_event \<times> 's Program) option" where
  "program_step J hash put rnd E act g =
     (if pl_terminated (pg_pipeline g) then None
      else
        (case act of
           Signal \<Rightarrow> Some (ProgramQuiet, handle_shutdown_signal g)
         | MainRuns \<Rightarrow> main_step put g
         | NetworkThread input \<Rightarrow> network_step rnd E input g
         | ParserThread \<Rightarrow> thread_step J hash put ParserRuns g
         | AggregatorThread i \<Rightarrow> thread_step J hash put (AggregatorRuns i) g
         | WriterThread now_ms \<Rightarrow> thread_step J hash put (WriterRuns now_ms) g))"

inductive program_run ::
    "'j json_lib \<Rightarrow> (string \<Rightarrow> nat) \<Rightarrow> (string \<Rightarrow> 's \<Rightarrow> bool \<times> 's) \<Rightarrow> (rat \<Rightarrow> rat) \<Rightarrow> 'ec error_codes
     \<Rightarrow> 's Program \<Rightarrow> 'ec program_event list \<Rightarrow> 's Program \<Rightarrow> bool"
  for J hash put rnd E g0 where
  program_init: "program_run J hash put rnd E g0 [] g0"
| program_steps: "program_run J hash put rnd E g0 es g \<Longrightarrow>
     program_step J hash put rnd E act g = Some (e, g') \<Longrightarrow> program_run J hash put rnd E g0 (es @ [e]) g'"

fun run_program ::
    "'j json_lib \<Rightarrow> (string \<Rightarrow> nat) \<Rightarrow> (string \<Rightarrow> 's \<Rightarrow> bool \<times> 's) \<Rightarrow> (rat \<Rightarrow> rat) \<Rightarrow> 'ec error_codes
     \<Rightarrow> 'ec program_action list \<Rightarrow> 's Program \<Rightarrow> ('ec program_event list \<times> 's Program) option" where
  "run_program J hash put rnd E [] g = Some ([], g)"
| "run_program J hash put rnd E (act # acts) g =
     (case program_step J hash put rnd E act g of
        None \<Rightarrow> None
      | Some (e, g') \<Rightarrow> map_option (\<lambda>(es, g''). (e # es, g'')) (run_program J hash put rnd E acts g'))"

lemma run_program_run:
  assumes "run_program J hash put rnd E acts g = Some (es, g')" and "program_run J hash put rnd E g0 es0 g"
  shows "program_run J hash put rnd E g0 (es0 @ es) g'"
  using assms
proof (induction acts arbitrary: g es0 es)
  case (Cons act acts)
  then obtain e g1 es1 where step: "program_step J hash put rnd E act g = Some (e, g1)"
    "run_program J hash put rnd E acts g1 = Some (es1, g')" "es = e # es1"
    by (auto split: option.splits)
  from Cons.IH [OF step(2) program_steps [OF Cons.prems(2) step(1)]] step(3) show ?case by simp
qed simp


section \<open>The program as a run of the pipeline\<close>

fun pipe_event_of :: "'ec program_event \<Rightarrow> pipeline_event list" where
  "pipe_event_of (PipelineDid e) = [e]"
| "pipe_event_of (NetworkDid (ClientDid (Pushed m ok))) = [Submitted m ok]"
| "pipe_event_of _ = []"

fun net_event_of :: "'ec program_event \<Rightarrow> 'ec network_event list" where
  "net_event_of (NetworkDid e) = [e]"
| "net_event_of _ = []"

abbreviation pipe_events :: "'ec program_event list \<Rightarrow> pipeline_event list" where
  "pipe_events es \<equiv> concat (map pipe_event_of es)"

abbreviation program_received :: "'ec program_event list \<Rightarrow> string list" where
  "program_received es \<equiv> received_messages (client_events (concat (map net_event_of es)))"

abbreviation program_pushed :: "'ec program_event list \<Rightarrow> string list" where
  "program_pushed es \<equiv> pushed_messages (client_events (concat (map net_event_of es)))"

lemma client_run_queue:
  assumes "BinanceWebSocketClient_run E input q c = Some (e, q', c')"
  shows "case e of Pushed m ok \<Rightarrow> bq_push m q = Some (ok, q') | _ \<Rightarrow> q' = q"
  using assms
  by (auto simp: BinanceWebSocketClient_run_def client_fails_def split: client_run_splits)

lemma network_run_queue:
  assumes "stage_inv s" and "NetworkStage_run rnd E input q s = Some (e, q', s')"
  shows "case e of ClientDid (Pushed m ok) \<Rightarrow> bq_push m q = Some (ok, q') | _ \<Rightarrow> q' = q"
proof (cases "\<exists>had. ns_phase s = NetworkClient had")
  case True
  then obtain c ce c' where "e = ClientDid ce" "BinanceWebSocketClient_run E input q c = Some (ce, q', c')"
    using network_client_step [OF assms(1) _ assms(2)] by metis
  with client_run_queue [OF this(2)] show ?thesis by simp
next
  case False
  with network_quiet_step [OF _ assms(2)] show ?thesis
    by (cases e) auto
qed

lemma network_step_projects:
  assumes "stage_inv (pg_network g)" and "network_step rnd E input g = Some (e, g')"
    and "\<not> pl_terminated (pg_pipeline g)"
  shows "pipe_event_of e = [] \<and> pg_pipeline g' = pg_pipeline g
     \<or> (\<exists>m ok. pipe_event_of e = [Submitted m ok]
          \<and> pipeline_step J hash put (Submit m) (pg_pipeline g) = Some (Submitted m ok, pg_pipeline g'))"
proof -
  obtain ne q s where step: "NetworkStage_run rnd E input (pl_raw_queue (pg_pipeline g)) (pg_network g) = Some (ne, q, s)"
    "e = NetworkDid ne" "g' = g\<lparr>pg_pipeline := (pg_pipeline g)\<lparr>pl_raw_queue := q\<rparr>, pg_network := s\<rparr>"
    using assms(2) by (auto simp: network_step_def)
  note Q = network_run_queue [OF assms(1) step(1)]
  show ?thesis
  proof (cases "\<exists>m ok. ne = ClientDid (Pushed m ok)")
    case True
    then obtain m ok where "ne = ClientDid (Pushed m ok)" by blast
    with Q assms(3) show ?thesis
      by (auto simp: step(2,3) pipeline_step_def submit_raw_message_def)
  next
    case False
    then have "q = pl_raw_queue (pg_pipeline g)" "pipe_event_of e = []"
      using Q by (auto simp: step(2) split: network_event.splits client_event.splits)
    then show ?thesis
      by (simp add: step(3))
  qed
qed

text \<open>Every other step of the program is a step of the pipeline or leaves the pipeline alone.\<close>

lemma program_step_projects:
  assumes "stage_inv (pg_network g)" and "program_step J hash put rnd E act g = Some (e, g')"
  shows "pipe_event_of e = [] \<and> pg_pipeline g' = pg_pipeline g
     \<or> (\<exists>pact pe. pipe_event_of e = [pe] \<and> pipeline_step J hash put pact (pg_pipeline g) = Some (pe, pg_pipeline g'))"
proof -
  have run: "\<not> pl_terminated (pg_pipeline g)"
    using assms(2) by (auto simp: program_step_def)
  have by_pipe: ?thesis if "pipeline_step J hash put pact (pg_pipeline g) = Some (pe, pg_pipeline g')"
    and "e = PipelineDid pe" for pact pe
    using that by auto
  have by_thread: ?thesis if "thread_step J hash put pact g = Some (e, g')" for pact
    using that by (auto simp: thread_step_def)
  show ?thesis
  proof (cases act)
    case MainRuns
    then have main: "main_step put g = Some (e, g')"
      using assms(2) run by (simp add: program_step_def)
    show ?thesis
    proof (cases "pg_main g")
      case MainStartPipeline
      with main run show ?thesis
        by (intro by_pipe [of Start]) (auto simp: main_step_def pipeline_step_def)
    next
      case MainStopPipeline
      then obtain pe where "stop put (pg_pipeline g) = Some (pe, pg_pipeline g')" "e = PipelineDid pe"
        using main by (auto simp: main_step_def main_stops_pipeline_def split: option.splits)
      with run show ?thesis
        by (intro by_pipe [of StopRuns]) (simp_all add: pipeline_step_def)
    next
      case MainDestroyPipeline
      then obtain pe where "stop put (pg_pipeline g) = Some (pe, pg_pipeline g')" "e = PipelineDid pe"
        using main by (auto simp: main_step_def main_stops_pipeline_def split: option.splits)
      with run show ?thesis
        by (intro by_pipe [of StopRuns]) (simp_all add: pipeline_step_def)
    qed (use main in \<open>auto simp: main_step_def main_stops_network_def split: option.splits if_splits\<close>)
  next
    case (NetworkThread input)
    then have "network_step rnd E input g = Some (e, g')"
      using assms(2) run by (simp add: program_step_def)
    from network_step_projects [OF assms(1) this run, of J hash put] show ?thesis by blast
  qed (use assms(2) run by_thread in \<open>auto simp: program_step_def handle_shutdown_signal_def\<close>)
qed


section \<open>The order of starting and stopping\<close>

text \<open>
  Before the network stage is stopped nobody stops the pipeline; after it is stopped the network
  thread is gone; the main thread passes a stop of the pipeline only when it has returned.
\<close>

definition before_pipeline_stop :: "main_phase \<Rightarrow> bool" where
  "before_pipeline_stop ph \<longleftrightarrow> ph \<in> {MainStartPipeline, MainStartNetwork, MainPoll, MainStopNetwork}"

definition program_inv :: "'s Program \<Rightarrow> bool" where
  "program_inv g \<longleftrightarrow> stage_inv (pg_network g)
     \<and> (if before_pipeline_stop (pg_main g) then pl_stopper (pg_pipeline g) = StopIdle
        else ns_phase (pg_network g) = NetworkOff)
     \<and> (pg_main g \<noteq> MainStartPipeline \<longrightarrow> pl_parser (pg_pipeline g) \<noteq> ParserOff)
     \<and> (pg_main g \<in> {MainDestroyNetwork, MainExit} \<longrightarrow> pl_stopper (pg_pipeline g) = Stopped)"

lemma program_inv_wire: "program_inv (wire config sink)"
  by (simp add: program_inv_def wire_def stage_inv_new before_pipeline_stop_def MarketDataPipeline_new_def Let_def)

lemma parser_started:
  assumes "run_parser_stage J hash p = Some p'"
  shows "pl_parser p' \<noteq> ParserOff" and "pl_stopper p' = pl_stopper p"
  using assms by (auto simp: run_parser_stage_def split: option.splits sum.splits parser_state.splits)

lemma aggregation_started:
  assumes "run_aggregation_stage i p = Some p'"
  shows "pl_parser p' = pl_parser p" and "pl_stopper p' = pl_stopper p"
  using assms by (auto simp: run_aggregation_stage_def split: if_splits option.splits agg_state.splits)

lemma writer_started:
  assumes "run_writer_stage put now p = Some (e, p')"
  shows "pl_parser p' = pl_parser p" and "pl_stopper p' = pl_stopper p"
  using assms by (auto simp: run_writer_stage_def split: writer_state.splits if_splits option.splits prod.splits)

lemma stop_started:
  assumes "stop put p = Some (e, p')"
  shows "pl_parser p' = pl_parser p"
  using assms by (cases "pl_stopper p") (auto simp: stop_def split: if_splits prod.splits)

lemma thread_step_inv:
  assumes "program_inv g" and "thread_step J hash put act g = Some (e, g')"
    and "act = ParserRuns \<or> (\<exists>i. act = AggregatorRuns i) \<or> (\<exists>now. act = WriterRuns now)"
  shows "program_inv g'"
proof -
  obtain pe p where p: "pipeline_step J hash put act (pg_pipeline g) = Some (pe, p)" "g' = g\<lparr>pg_pipeline := p\<rparr>"
    using assms(2) by (auto simp: thread_step_def)
  have "pl_stopper p = pl_stopper (pg_pipeline g)
      \<and> (pl_parser (pg_pipeline g) \<noteq> ParserOff \<longrightarrow> pl_parser p \<noteq> ParserOff)"
    using assms(3) p(1) parser_started [of J hash "pg_pipeline g" p]
      aggregation_started [of _ "pg_pipeline g" p] writer_started [of put _ "pg_pipeline g" pe p]
    by (auto simp: pipeline_step_def split: if_splits)
  with assms(1) show ?thesis
    by (auto simp: program_inv_def p(2))
qed

lemma network_step_inv:
  assumes "program_inv g" and "network_step rnd E input g = Some (e, g')"
  shows "program_inv g'"
proof -
  obtain ne q s where step: "NetworkStage_run rnd E input (pl_raw_queue (pg_pipeline g)) (pg_network g) = Some (ne, q, s)"
    "g' = g\<lparr>pg_pipeline := (pg_pipeline g)\<lparr>pl_raw_queue := q\<rparr>, pg_network := s\<rparr>"
    using assms(2) by (auto simp: network_step_def)
  have "stage_inv (pg_network g)"
    using assms(1) by (simp add: program_inv_def)
  note inv = run_stage_inv [OF this step(1)]
  moreover have "ns_phase (pg_network g) \<noteq> NetworkOff"
    using step(1) by (auto simp: NetworkStage_run_def)
  ultimately show ?thesis
    using assms(1) by (auto simp: program_inv_def step(2) split: if_splits)
qed

lemma stop_network_phase:
  assumes "NetworkStage_stop s = Some s'"
  shows "ns_stopper s' = StageStopped \<Longrightarrow> ns_phase s' = NetworkOff"
    and "ns_phase s = NetworkOff \<Longrightarrow> ns_phase s' = NetworkOff"
  using assms by (auto simp: NetworkStage_stop_def split: network_stop.splits if_splits option.splits)

lemma main_step_inv:
  assumes "program_inv g" and "main_step put g = Some (e, g')"
  shows "program_inv g'"
proof (cases "pg_main g")
  case MainStartPipeline
  with assms show ?thesis
    by (auto simp: program_inv_def before_pipeline_stop_def main_step_def start_def split: if_splits)
next
  case MainStartNetwork
  with assms show ?thesis
    by (auto simp: program_inv_def before_pipeline_stop_def main_step_def intro: start_stage_inv)
next
  case MainPoll
  with assms show ?thesis
    by (cases "pg_stop_requested g") (auto simp: program_inv_def before_pipeline_stop_def main_step_def)
next
  case MainStopNetwork
  with assms show ?thesis
    by (auto simp: program_inv_def before_pipeline_stop_def main_step_def main_stops_network_def
        split: option.splits if_splits intro: stop_stage_inv stop_network_phase)
next
  case MainStopPipeline
  with assms show ?thesis
    by (auto simp: program_inv_def before_pipeline_stop_def main_step_def main_stops_pipeline_def
        split: option.splits if_splits dest: stop_started)
next
  case MainDestroyNetwork
  with assms show ?thesis
    by (auto simp: program_inv_def before_pipeline_stop_def main_step_def main_stops_network_def
        split: option.splits if_splits intro: stop_stage_inv stop_network_phase)
next
  case MainDestroyPipeline
  with assms show ?thesis
    by (auto simp: program_inv_def before_pipeline_stop_def main_step_def main_stops_pipeline_def
        split: option.splits if_splits dest: stop_started)
qed (use assms in \<open>simp add: main_step_def\<close>)

lemma program_step_inv:
  assumes "program_inv g" and "program_step J hash put rnd E act g = Some (e, g')"
  shows "program_inv g'"
proof (cases act)
  case Signal
  with assms show ?thesis
    by (auto simp: program_step_def handle_shutdown_signal_def program_inv_def split: if_splits)
qed (use assms in \<open>auto simp: program_step_def split: if_splits
      intro: main_step_inv network_step_inv thread_step_inv\<close>)

lemma run_program_inv: "program_run J hash put rnd E (wire config sink) es g \<Longrightarrow> program_inv g"
  by (induction rule: program_run.induct) (auto intro: program_inv_wire program_step_inv)

lemma program_run_projects:
  "program_run J hash put rnd E (wire config sink) es g \<Longrightarrow>
     pipeline_run J hash put (pg_pipeline (wire config sink)) (pipe_events es) (pg_pipeline g)"
proof (induction rule: program_run.induct)
  case (program_steps es g act e g')
  have "stage_inv (pg_network g)"
    using run_program_inv [OF program_steps(1)] by (simp add: program_inv_def)
  from program_step_projects [OF this program_steps(2)] program_steps(3) show ?case
    by (auto intro: run_step)
qed (simp add: run_start)


section \<open>No received message is refused\<close>

lemma accepted_append: "accepted_messages (xs @ ys) = accepted_messages xs @ accepted_messages ys"
  by (simp add: accepted_messages_def)

lemma own_step_accepts_nothing:
  assumes "pipeline_step J hash put act p = Some (e, p')" and "own_action act"
  shows "accepted_messages [e] = []"
  using assms
  by (cases act) (auto simp: pipeline_step_def own_action_def accepted_messages_def run_writer_stage_def stop_def
      aggregation_event_def split: if_splits option.splits prod.splits writer_state.splits stop_state.splits agg_state.splits)

lemma quiet_network_event:
  assumes "\<forall>m ok. ne \<noteq> ClientDid (Pushed m ok)"
  shows "program_pushed [NetworkDid ne] = []" and "pipe_event_of (NetworkDid ne) = []"
proof -
  have "program_pushed [NetworkDid ne] = [] \<and> pipe_event_of (NetworkDid ne) = []"
  proof (cases ne)
    case (ClientDid ce)
    with assms show ?thesis by (cases ce) auto
  qed simp_all
  then show "program_pushed [NetworkDid ne] = []" "pipe_event_of (NetworkDid ne) = []" by simp_all
qed

lemma main_event:
  assumes "main_step put g = Some (e, g')" and "\<not> pl_terminated (pg_pipeline g)"
  shows "net_event_of e = [] \<and> accepted_messages (pipe_event_of e) = []"
proof -
  have "accepted_messages [pe] = []" if "stop put (pg_pipeline g) = Some (pe, p)" for pe p
    using that assms(2) by (intro own_step_accepts_nothing [of _ _ put StopRuns "pg_pipeline g" pe p])
      (simp_all add: pipeline_step_def own_action_def)
  with assms(1) show ?thesis
    by (auto simp: main_step_def main_stops_network_def main_stops_pipeline_def accepted_messages_def
        split: main_phase.splits option.splits)
qed

lemma program_step_accepts:
  assumes "program_inv g" and "stages_inv (pg_pipeline g)" and "program_step J hash put rnd E act g = Some (e, g')"
  shows "accepted_messages (pipe_event_of e) = program_pushed [e]"
proof -
  have run: "\<not> pl_terminated (pg_pipeline g)"
    using assms(3) by (auto simp: program_step_def)
  have by_thread: ?thesis if "thread_step J hash put pact g = Some (e, g')" "own_action pact" for pact
    using that own_step_accepts_nothing by (auto simp: thread_step_def)
  show ?thesis
  proof (cases act)
    case MainRuns
    with assms(3) run main_event [of put g e g'] show ?thesis
      by (simp add: program_step_def)
  next
    case (NetworkThread input)
    then obtain ne q s where step: "NetworkStage_run rnd E input (pl_raw_queue (pg_pipeline g)) (pg_network g) = Some (ne, q, s)"
      "e = NetworkDid ne"
      using assms(3) run by (auto simp: program_step_def network_step_def)
    have "ns_phase (pg_network g) \<noteq> NetworkOff"
      using step(1) by (auto simp: NetworkStage_run_def)
    then have "pl_stopper (pg_pipeline g) = StopIdle"
      using assms(1) by (simp add: program_inv_def split: if_splits)
    then have open_queue: "\<not> bq_shutdown (pl_raw_queue (pg_pipeline g))"
      using assms(2) by (auto simp: stages_inv_def order_inv_def)
    have Q: "case ne of ClientDid (Pushed m ok) \<Rightarrow> bq_push m (pl_raw_queue (pg_pipeline g)) = Some (ok, q)
        | _ \<Rightarrow> q = pl_raw_queue (pg_pipeline g)"
      using network_run_queue [OF _ step(1)] assms(1) by (simp add: program_inv_def)
    show ?thesis
    proof (cases "\<exists>m ok. ne = ClientDid (Pushed m ok)")
      case True
      then obtain m ok where ne: "ne = ClientDid (Pushed m ok)" by blast
      with Q have "bq_push m (pl_raw_queue (pg_pipeline g)) = Some (ok, q)" by simp
      from bq.push_ok [OF this] open_queue have ok by simp
      then show ?thesis
        by (simp add: step(2) ne accepted_messages_def)
    next
      case False
      with quiet_network_event [of ne] show ?thesis
        by (simp add: step(2) accepted_messages_def)
    qed
  qed (use assms(3) run by_thread in \<open>auto simp: program_step_def own_action_def accepted_messages_def\<close>)
qed


lemma program_step_messages:
  assumes "program_inv g" and "program_step J hash put rnd E act g = Some (e, g')"
  shows "stage_hand (pg_network g) @ program_received [e] = program_pushed [e] @ stage_hand (pg_network g')"
proof -
  have run: "\<not> pl_terminated (pg_pipeline g)"
    using assms(2) by (auto simp: program_step_def)
  show ?thesis
  proof (cases act)
    case MainRuns
    then have main: "main_step put g = Some (e, g')"
      using assms(2) run by (simp add: program_step_def)
    moreover from this have "stage_hand (pg_network g') = stage_hand (pg_network g)"
      by (auto simp: main_step_def main_stops_network_def main_stops_pipeline_def
          split: main_phase.splits option.splits dest: start_stage_hand stop_stage_hand)
    ultimately show ?thesis
      using main_event [OF main run] by simp
  next
    case (NetworkThread input)
    then obtain ne q s where step: "NetworkStage_run rnd E input (pl_raw_queue (pg_pipeline g)) (pg_network g) = Some (ne, q, s)"
      "e = NetworkDid ne" "pg_network g' = s"
      using assms(2) run by (auto simp: program_step_def network_step_def)
    from run_stage_messages [OF _ step(1)] assms(1) show ?thesis
      by (simp add: program_inv_def step(2,3))
  qed (use assms(2) run in \<open>auto simp: program_step_def thread_step_def handle_shutdown_signal_def\<close>)
qed

lemma program_messages:
  assumes "program_run J hash put rnd E (wire config sink) es g"
  shows "accepted_messages (pipe_events es) = program_pushed es
     \<and> program_received es = program_pushed es @ stage_hand (pg_network g)"
  using assms
proof (induction rule: program_run.induct)
  case program_init
  then show ?case by (simp add: accepted_messages_def stage_hand_def wire_def NetworkStage_new_def)
next
  case (program_steps es g act e g')
  have "stages_inv (pg_pipeline g)"
    using run_stages program_run_projects [OF program_steps(1)] by (simp add: wire_def)
  note A = program_step_accepts [OF run_program_inv [OF program_steps(1)] this program_steps(2)]
  note M = program_step_messages [OF run_program_inv [OF program_steps(1)] program_steps(2)]
  from program_steps(3) A M show ?case
    by (simp add: accepted_append)
qed

lemma program_exit:
  assumes "program_run J hash put rnd E (wire config sink) es g" and "pg_main g = MainExit"
  shows "pl_stopper (pg_pipeline g) = Stopped" and "pl_parser (pg_pipeline g) \<noteq> ParserOff"
    and "accepted_messages (pipe_events es) = program_received es"
proof -
  have inv: "program_inv g"
    by (rule run_program_inv [OF assms(1)])
  with assms(2) show "pl_stopper (pg_pipeline g) = Stopped" "pl_parser (pg_pipeline g) \<noteq> ParserOff"
    by (simp_all add: program_inv_def)
  have "stage_hand (pg_network g) = []"
    using inv assms(2) by (auto simp: program_inv_def before_pipeline_stop_def stage_inv_def stage_hand_def)
  with program_messages [OF assms(1)] show "accepted_messages (pipe_events es) = program_received es" by simp
qed

section \<open>Start-up\<close>

lemma wire_constructed:
  assumes "MarketDataPipeline_construct max_shards (cfg_window_ms config) (cfg_flush_interval_ms config) kQueueCapacity sink
      (unat (cfg_aggregator_threads config)) = Some pipeline"
  shows "(wire config sink)\<lparr>pg_pipeline := pipeline\<rparr> = wire config sink"
    and "unat (cfg_aggregator_threads config) \<le> max_shards"
  using assms by (auto simp: MarketDataPipeline_construct_def wire_def split: if_splits)

text \<open>How start-up comes to a running program, step by step.\<close>

lemma setup_steps:
  assumes "json_documented J" and "main_setup J read_json read_file open_append max_shards argv = Running config g"
  obtains path existing where "parse_cli_options argv = Inr \<lparr>cli_config_path = path\<rparr>"
    "load_from_file J read_json read_file path = Inr config" "valid_config config"
    "open_append (cfg_output_file config) = Some existing" "unat (cfg_aggregator_threads config) \<le> max_shards"
    "g = wire config \<lparr>fs_file = existing, fs_good = True\<rparr>"
proof -
  obtain options :: CliOptions and sink pipeline where *: "parse_cli_options argv = Inr options"
    "load_from_file J read_json read_file (cli_config_path options) = Inr config"
    "FileOutputSink_new open_append (cfg_output_file config) = Some sink"
    "MarketDataPipeline_construct max_shards (cfg_window_ms config) (cfg_flush_interval_ms config) kQueueCapacity sink
      (unat (cfg_aggregator_threads config)) = Some pipeline" "g = (wire config sink)\<lparr>pg_pipeline := pipeline\<rparr>"
    using assms(2) by (auto simp: main_setup_def split: sum.splits option.splits)
  obtain existing where sink: "open_append (cfg_output_file config) = Some existing" "sink = \<lparr>fs_file = existing, fs_good = True\<rparr>"
    using *(3) by (auto simp: FileOutputSink_new_def split: option.splits)
  have "parse_cli_options argv = Inr \<lparr>cli_config_path = cli_config_path options\<rparr>"
    using *(1) by (cases options) simp
  from that [OF this *(2) loaded_valid [OF assms(1) *(2)] sink(1) wire_constructed(2) [OF *(4)]]
    *(5) wire_constructed(1) [OF *(4)] sink(2) show thesis by simp
qed

lemma setup_running:
  assumes "json_documented J" and "main_setup J read_json read_file open_append max_shards argv = Running config g"
  shows "valid_config config" and "\<exists>sink existing. open_append (cfg_output_file config) = Some existing
     \<and> FileOutputSink_new open_append (cfg_output_file config) = Some sink \<and> fs_file sink = existing
     \<and> g = wire config sink"
proof -
  obtain existing where g: "valid_config config" "open_append (cfg_output_file config) = Some existing"
    "g = wire config \<lparr>fs_file = existing, fs_good = True\<rparr>"
    using setup_steps [OF assms] by blast
  then show "valid_config config" "\<exists>sink existing. open_append (cfg_output_file config) = Some existing
     \<and> FileOutputSink_new open_append (cfg_output_file config) = Some sink \<and> fs_file sink = existing
     \<and> g = wire config sink"
    by (simp_all add: FileOutputSink_new_def)
qed


section \<open>A whole run\<close>

text \<open>
  Start-up with a sample configuration, one connection that delivers one trade, a signal, and
  the stops up to the return from \<^verbatim>\<open>main\<close>, destructors included.
\<close>

definition example_connection :: "nat program_action list" where
  "example_connection = [MainRuns, MainRuns] @ map NetworkThread
      [Silent, Silent, Silent, Returned 0, Silent, Silent, SniReturned True 0, Returned 0, Returned 0, Returned 0,
       ReadReturned 0 ''raw'', Silent]
     @ [ParserThread, ParserThread, AggregatorThread 0, AggregatorThread 0]"

definition example_shutdown :: "nat program_action list" where
  "example_shutdown = [Signal, MainRuns, MainRuns, MainRuns, MainRuns, MainRuns]
     @ map NetworkThread [ReadReturned 9 [], Silent, Silent]
     @ [MainRuns, MainRuns, WriterThread 0, MainRuns, ParserThread, MainRuns, MainRuns, MainRuns,
        AggregatorThread 0, MainRuns, MainRuns, MainRuns, MainRuns, MainRuns, MainRuns, MainRuns, MainRuns,
        MainRuns, MainRuns, MainRuns, MainRuns, MainRuns, MainRuns, MainRuns, MainRuns, MainRuns]"

abbreviation example_sink :: FileOutputSink where
  "example_sink \<equiv> \<lparr>fs_file = ''old'', fs_good = True\<rparr>"

lemma example_setup:
  "main_setup sample_lib (\<lambda>_. Inr sample_config) (\<lambda>_. Some []) (\<lambda>_. Some ''old'') 1152921504606846975 [''agg'']
     = Running sample_loaded (wire sample_loaded example_sink)"
proof -
  have "parse_cli_options [''agg''] = Inr CliOptions_default"
    by (simp add: parse_cli_options_def parse_cli_args.simps)
  moreover have "cfg_output_file sample_loaded = ''stats.log''" "unat (cfg_aggregator_threads sample_loaded) = 1"
    by (simp_all add: sample_loaded_def)
  ultimately show ?thesis
    unfolding main_setup_def sample_lib_def
    by (simp add: load_sample FileOutputSink_new_def MarketDataPipeline_construct_def wire_def)
qed

lemmas program_exec = wire_def sample_loaded_def program_step_def main_step_def thread_step_def network_step_def
  main_stops_network_def main_stops_pipeline_def handle_shutdown_signal_def kQueueCapacity_def
  network_exec small_run_simps sample_trade_def add_trade_def window_start_def write_windows_total
  extract_all_windows_def

lemma example_program_run:
  "\<exists>es g. run_program sample_lib (\<lambda>s. 0) (FileOutputSink_write (\<lambda>_. length)) id numbered_codes
       (example_connection @ example_shutdown) (wire sample_loaded example_sink) = Some (es, g)
     \<and> pg_main g = MainExit \<and> \<not> pl_terminated (pg_pipeline g) \<and> program_received es = [''raw'']
     \<and> length (flushed_windows (pipe_events es)) = 1 \<and> length (pl_shards (pg_pipeline g)) = 1
     \<and> shard_history 0 (pipe_events es) = [Add sample_trade, Drain None, Drain None]"
  by (simp add: example_connection_def example_shutdown_def program_exec flushed_windows_def)

lemma example_program_state:
  obtains es g where "program_run sample_lib (\<lambda>s. 0) (FileOutputSink_write (\<lambda>_. length)) id numbered_codes
      (wire sample_loaded example_sink) es g"
    "pg_main g = MainExit" "\<not> pl_terminated (pg_pipeline g)" "program_received es = [''raw'']"
    "length (flushed_windows (pipe_events es)) = 1" "length (pl_shards (pg_pipeline g)) = 1"
    "shard_history 0 (pipe_events es) = [Add sample_trade, Drain None, Drain None]"
proof -
  obtain es g where run: "run_program sample_lib (\<lambda>s. 0) (FileOutputSink_write (\<lambda>_. length)) id numbered_codes
      (example_connection @ example_shutdown) (wire sample_loaded example_sink) = Some (es, g)"
    "pg_main g = MainExit" "\<not> pl_terminated (pg_pipeline g)" "program_received es = [''raw'']"
    "length (flushed_windows (pipe_events es)) = 1" "length (pl_shards (pg_pipeline g)) = 1"
    "shard_history 0 (pipe_events es) = [Add sample_trade, Drain None, Drain None]"
    using example_program_run by blast
  from run_program_run [OF run(1) program_init] run(2-) show thesis
    by (intro that) simp_all
qed

section \<open>Properties\<close>

text \<open>
  What the log shows is unambiguous. Different stages and different kinds of error have
  different texts, and for symbols the loader accepts the joined list determines them.
\<close>

theorem log_texts_injective:
  assumes "list_all valid_symbol symbols" and "list_all valid_symbol symbols'"
  shows "(stage_to_string stage = stage_to_string stage' \<longleftrightarrow> stage = stage')
     \<and> (kind_to_string kind = kind_to_string kind' \<longleftrightarrow> kind = kind')
     \<and> (join_symbols symbols = join_symbols symbols' \<longleftrightarrow> symbols = symbols')"
proof (intro conjI)
  show "stage_to_string stage = stage_to_string stage' \<longleftrightarrow> stage = stage'"
    by (cases stage; cases stage') simp_all
  show "kind_to_string kind = kind_to_string kind' \<longleftrightarrow> kind = kind'"
    by (cases kind; cases kind') simp_all
  have eq: "join_symbols ss = join_with '','' ss" for ss
    using foldl_join [of "'',''" "\<lambda>s. s" "[]" ss] by (simp add: join_symbols_def)
  have sep: "\<forall>s \<in> set ss. s \<noteq> [] \<and> CHR '','' \<notin> set s" if "list_all valid_symbol ss" for ss
  proof
    fix s assume "s \<in> set ss"
    then have s: "valid_symbol s"
      using that by (simp add: list_all_iff)
    have "isdigit (CHR '','') = False" "isupper (CHR '','') = False"
      by (simp_all add: isdigit_def isupper_def)
    with s show "s \<noteq> [] \<and> CHR '','' \<notin> set s"
      by (auto simp: valid_symbol_def list_all_iff)
  qed
  show "join_symbols symbols = join_symbols symbols' \<longleftrightarrow> symbols = symbols'"
    using join_with_inj [OF sep [OF assms(1)] sep [OF assms(2)]] by (auto simp: eq)
qed

theorem log_texts_injective_witness:
  "join_symbols [''BTCUSDT'', ''ETHUSDT''] \<noteq> join_symbols [''BTCUSDTETHUSDT'']"
proof -
  have v: "list_all valid_symbol [''BTCUSDT'', ''ETHUSDT'']" "list_all valid_symbol [''BTCUSDTETHUSDT'']"
    by (simp_all add: valid_symbol_def isdigit_def isupper_def)
  show ?thesis
    using log_texts_injective [OF v, of Read Read Timeout Timeout] by simp
qed

text \<open>
  C32: start-up has exactly these outcomes. Bad arguments and a configuration that does not
  load end the program with a reported failure. An output file that does not open, and more aggregator
  threads than the shard vector can hold, end it with an exception nobody catches, though the loader has
  accepted the configuration. Otherwise the program is built from the configuration in the
  file the arguments name, and every part has its own setting: the pipeline window, flush interval, thread
  count, queue capacities and the sink at the end of the existing file; the network stage host,
  port, target for the configured symbols and reconnect settings.
\<close>

theorem main_setup_outcomes:
  assumes "json_documented J"
  shows "case main_setup J read_json read_file open_append max_shards argv of
       FailedArguments error \<Rightarrow> parse_cli_options argv = Inl error
     | FailedConfig error \<Rightarrow> (\<exists>path msg. parse_cli_options argv = Inr \<lparr>cli_config_path = path\<rparr>
          \<and> error = RuntimeError msg \<and> load_from_file J read_json read_file path = Inl error)
     | UncaughtException SinkNotOpen \<Rightarrow> (\<exists>path config. parse_cli_options argv = Inr \<lparr>cli_config_path = path\<rparr>
          \<and> load_from_file J read_json read_file path = Inr config \<and> valid_config config
          \<and> open_append (cfg_output_file config) = None)
     | UncaughtException TooManyShards \<Rightarrow> (\<exists>path config. parse_cli_options argv = Inr \<lparr>cli_config_path = path\<rparr>
          \<and> load_from_file J read_json read_file path = Inr config \<and> valid_config config
          \<and> open_append (cfg_output_file config) \<noteq> None \<and> max_shards < unat (cfg_aggregator_threads config))
     | Running config g \<Rightarrow> (\<exists>path existing. parse_cli_options argv = Inr \<lparr>cli_config_path = path\<rparr>
          \<and> load_from_file J read_json read_file path = Inr config \<and> valid_config config
          \<and> open_append (cfg_output_file config) = Some existing
          \<and> unat (cfg_aggregator_threads config) \<le> max_shards
          \<and> pl_window_ms (pg_pipeline g) = cfg_window_ms config
          \<and> pl_flush_interval_ms (pg_pipeline g) = cfg_flush_interval_ms config
          \<and> pl_raw_queue (pg_pipeline g) = \<lparr>bq_items = [], bq_capacity = 4096, bq_shutdown = False\<rparr>
          \<and> pl_shards (pg_pipeline g) = replicate (unat (cfg_aggregator_threads config))
               \<lparr>sh_queue = \<lparr>bq_items = [], bq_capacity = max (4096 div unat (cfg_aggregator_threads config)) 1,
                  bq_shutdown = False\<rparr>,
                sh_aggregator = \<lparr>agg_window_ms = cfg_window_ms config, agg_windows = []\<rparr>\<rparr>
          \<and> pl_sink (pg_pipeline g) = \<lparr>fs_file = existing, fs_good = True\<rparr>
          \<and> ns_host (pg_network g) = cfg_ws_host config
          \<and> ns_port (pg_network g) = cfg_ws_port config
          \<and> ns_target (pg_network g) = build_combined_stream_target (cfg_symbols config)
          \<and> rp_config (ns_policy (pg_network g)) = cfg_reconnect config \<and> current_attempt (ns_policy (pg_network g)) = 0
          \<and> pg_main g = MainStartPipeline \<and> \<not> pg_stop_requested g)"
proof (cases "main_setup J read_json read_file open_append max_shards argv")
  case (FailedConfig error)
  then obtain options :: CliOptions where o: "parse_cli_options argv = Inr options"
    "load_from_file J read_json read_file (cli_config_path options) = Inl error"
    by (auto simp: main_setup_def split: sum.splits option.splits)
  obtain msg where "error = RuntimeError msg"
    using loading_error [OF assms o(2)] by blast
  with o show ?thesis
    by (cases options) (simp add: FailedConfig)
next
  case (UncaughtException reason)
  then obtain options :: CliOptions and config where o: "parse_cli_options argv = Inr options"
    "load_from_file J read_json read_file (cli_config_path options) = Inr config"
    "reason = SinkNotOpen \<and> open_append (cfg_output_file config) = None
     \<or> reason = TooManyShards \<and> open_append (cfg_output_file config) \<noteq> None
       \<and> max_shards < max (unat (cfg_aggregator_threads config)) 1"
    by (auto simp: main_setup_def FileOutputSink_new_def MarketDataPipeline_construct_def
        split: sum.splits option.splits if_splits)
  have valid: "valid_config config"
    using loaded_valid [OF assms o(2)] .
  then have "max (unat (cfg_aggregator_threads config)) 1 = unat (cfg_aggregator_threads config)"
    by (simp add: valid_config_def unat_gt_0 Suc_leI max_absorb1)
  with o valid show ?thesis
    by (cases options; cases reason) (auto simp: UncaughtException)
next
  case (Running config g)
  obtain path existing where g: "parse_cli_options argv = Inr \<lparr>cli_config_path = path\<rparr>"
    "load_from_file J read_json read_file path = Inr config" "valid_config config"
    "open_append (cfg_output_file config) = Some existing" "unat (cfg_aggregator_threads config) \<le> max_shards"
    "g = wire config \<lparr>fs_file = existing, fs_good = True\<rparr>"
    using setup_steps [OF assms Running] .
  have "max (unat (cfg_aggregator_threads config)) 1 = unat (cfg_aggregator_threads config)"
    using g(3) by (simp add: valid_config_def unat_gt_0 Suc_leI max_absorb1)
  with g show ?thesis
    by (simp add: Running wire_def MarketDataPipeline_new_def NetworkStage_new_def ReconnectPolicy_new_def Let_def
        kQueueCapacity_def Shard_new_def BoundedQueue_new_def MarketDataAggregator_new_def current_attempt_def)
qed (auto simp: main_setup_def split: sum.splits option.splits)

theorem main_setup_outcomes_witness:
  "pl_window_ms (pg_pipeline (wire sample_loaded example_sink)) = 1000
   \<and> pl_flush_interval_ms (pg_pipeline (wire sample_loaded example_sink)) = cfg_flush_interval_ms sample_loaded
   \<and> length (pl_shards (pg_pipeline (wire sample_loaded example_sink))) = 1
   \<and> ns_host (pg_network (wire sample_loaded example_sink)) = cfg_ws_host sample_loaded
   \<and> fs_file (pl_sink (pg_pipeline (wire sample_loaded example_sink))) = ''old''"
  using main_setup_outcomes [OF sample_lib_documented,
      where read_json = "\<lambda>_. Inr sample_config" and read_file = "\<lambda>_. Some []"
        and open_append = "\<lambda>_. Some ''old''" and max_shards = 1152921504606846975 and argv = "[''agg'']",
      unfolded example_setup]
  by (auto simp: sample_loaded_def)

end
