(* ===== verification/Program_Shutdown.thy ===== *)
theory Program_Shutdown
  imports Main_Program
begin

text \<open>
  The shutdown of the whole program, from the join of the network thread on: some thread can
  always go on, every step of a thread other than the periodic flushes and the reads of messages
  brings the return from \<^verbatim>\<open>main\<close> nearer, and the number of these steps is bounded by the work at
  hand and the messages that still come in.
\<close>

section \<open>States of the shutdown\<close>

definition shutting_down :: "'s Program \<Rightarrow> bool" where
  "shutting_down g \<longleftrightarrow>
     (case pg_main g of
        MainStopNetwork \<Rightarrow> ns_stopper (pg_network g) = StageJoin
      | MainStopPipeline \<Rightarrow> True
      | MainDestroyNetwork \<Rightarrow> True
      | MainDestroyPipeline \<Rightarrow> True
      | MainExit \<Rightarrow> True
      | _ \<Rightarrow> False)"

text \<open>Which stop the main thread is in, and how far the two stops have come in each phase.\<close>

definition phase_inv :: "'s Program \<Rightarrow> bool" where
  "phase_inv g \<longleftrightarrow>
     bq_capacity (pl_raw_queue (pg_pipeline g)) = kQueueCapacity
     \<and> (pg_main g = MainStopPipeline \<longrightarrow> pl_stopper (pg_pipeline g) \<noteq> Stopped)
     \<and> (\<not> before_pipeline_stop (pg_main g) \<longrightarrow> ns_stopper (pg_network g) \<noteq> StageIdle)
     \<and> (pg_main g \<in> {MainStopPipeline, MainDestroyPipeline, MainExit} \<longrightarrow> ns_stopper (pg_network g) = StageStopped)
     \<and> (pg_main g = MainDestroyPipeline \<longrightarrow> pl_stopper (pg_pipeline g) \<noteq> StopIdle)"

lemma push_capacity: "bq_push m q = Some (ok, q') \<Longrightarrow> bq_capacity q' = bq_capacity q"
  by (auto simp: bq_push_def split: if_splits)

lemma pop_capacity: "bq_pop q = Some (r, q') \<Longrightarrow> bq_capacity q' = bq_capacity q"
  by (auto simp: bq_pop_def split: if_splits)

lemma step_capacity:
  assumes "pipeline_step J hash put act p = Some (e, p')"
  shows "bq_capacity (pl_raw_queue p') = bq_capacity (pl_raw_queue p)"
proof (cases act)
  case ParserRuns
  with assms show ?thesis
    by (auto simp: pipeline_step_def run_parser_stage_def
        split: if_splits option.splits prod.splits sum.splits parser_state.splits dest: pop_capacity)
next
  case (AggregatorRuns i)
  with assms show ?thesis
    by (auto simp: pipeline_step_def run_aggregation_stage_def split: if_splits option.splits agg_state.splits)
next
  case (WriterRuns now)
  with assms show ?thesis
    by (auto simp: pipeline_step_def run_writer_stage_def split: if_splits option.splits prod.splits writer_state.splits)
next
  case StopRuns
  with assms show ?thesis
    by (auto simp: pipeline_step_def stop_def bq_set_shutdown_def split: if_splits prod.splits stop_state.splits)
qed (use assms in \<open>auto simp: pipeline_step_def start_def submit_raw_message_def
      split: if_splits option.splits dest: push_capacity\<close>)

lemma program_capacity:
  assumes "stage_inv (pg_network g)" and "program_step J hash put rnd E act g = Some (e, g')"
  shows "bq_capacity (pl_raw_queue (pg_pipeline g')) = bq_capacity (pl_raw_queue (pg_pipeline g))"
  using program_step_projects [OF assms] step_capacity by metis

lemma phase_inv_wire: "phase_inv (wire config sink)"
  by (simp add: phase_inv_def wire_def before_pipeline_stop_def MarketDataPipeline_new_def Let_def BoundedQueue_new_def)

lemma stop_not_idle: "stop put p = Some (e, p') \<Longrightarrow> pl_stopper p' \<noteq> StopIdle"
  by (auto simp: stop_def split: stop_state.splits if_splits prod.splits)

lemma network_stop_not_idle: "NetworkStage_stop s = Some s' \<Longrightarrow> ns_stopper s' \<noteq> StageIdle"
  by (auto simp: NetworkStage_stop_def split: network_stop.splits if_splits option.splits)

lemma main_phase_inv:
  assumes "program_inv g" and "phase_inv g" and "main_step put g = Some (e, g')"
  shows "phase_inv (g'\<lparr>pg_pipeline := (pg_pipeline g')\<lparr>pl_raw_queue := pl_raw_queue (pg_pipeline g)\<rparr>\<rparr>)"
proof (cases "pg_main g")
  case MainPoll
  with assms(2,3) show ?thesis
    by (cases "pg_stop_requested g") (auto simp: main_step_def phase_inv_def before_pipeline_stop_def)
next
  case MainStopNetwork
  with assms show ?thesis
    by (auto simp: main_step_def phase_inv_def program_inv_def before_pipeline_stop_def main_stops_network_def
        split: if_splits option.splits dest: network_stop_not_idle)
next
  case MainDestroyNetwork
  with assms show ?thesis
    by (auto simp: main_step_def phase_inv_def program_inv_def before_pipeline_stop_def main_stops_network_def
        split: if_splits option.splits dest: network_stop_not_idle)
next
  case MainStopPipeline
  with assms(2,3) show ?thesis
    by (auto simp: main_step_def phase_inv_def before_pipeline_stop_def main_stops_pipeline_def
        split: if_splits option.splits)
next
  case MainDestroyPipeline
  with assms(2,3) show ?thesis
    by (auto simp: main_step_def phase_inv_def before_pipeline_stop_def main_stops_pipeline_def
        split: if_splits option.splits dest: stop_not_idle)
qed (use assms(2,3) in \<open>auto simp: main_step_def phase_inv_def before_pipeline_stop_def\<close>)

lemma phase_inv_step:
  assumes "program_inv g" and "phase_inv g" and "program_step J hash put rnd E act g = Some (e, g')"
  shows "phase_inv g'"
proof -
  have run: "\<not> pl_terminated (pg_pipeline g)"
    using assms(3) by (auto simp: program_step_def)
  have cap: "bq_capacity (pl_raw_queue (pg_pipeline g')) = kQueueCapacity"
    using program_capacity [OF _ assms(3)] assms(1,2) by (simp add: program_inv_def phase_inv_def)
  have by_thread: ?thesis if th: "thread_step J hash put pact g = Some (e, g')"
    and ac: "pact = ParserRuns \<or> (\<exists>i. pact = AggregatorRuns i) \<or> (\<exists>now. pact = WriterRuns now)" for pact
  proof -
    obtain pe p where p: "pipeline_step J hash put pact (pg_pipeline g) = Some (pe, p)" "g' = g\<lparr>pg_pipeline := p\<rparr>"
      using th by (auto simp: thread_step_def)
    have "pl_stopper p = pl_stopper (pg_pipeline g)"
      using ac p(1) parser_started(2) [of J hash "pg_pipeline g" p]
        aggregation_started(2) [of _ "pg_pipeline g" p] writer_started(2) [of put _ "pg_pipeline g" pe p]
      by (auto simp: pipeline_step_def split: if_splits)
    with assms(2) cap show ?thesis
      by (simp add: phase_inv_def p(2))
  qed
  show ?thesis
  proof (cases act)
    case MainRuns
    then have "main_step put g = Some (e, g')"
      using assms(3) run by (simp add: program_step_def)
    from main_phase_inv [OF assms(1,2) this] cap show ?thesis by (simp add: phase_inv_def)
  next
    case (NetworkThread input)
    then obtain ne q s where step: "NetworkStage_run rnd E input (pl_raw_queue (pg_pipeline g)) (pg_network g) = Some (ne, q, s)"
      "g' = g\<lparr>pg_pipeline := (pg_pipeline g)\<lparr>pl_raw_queue := q\<rparr>, pg_network := s\<rparr>"
      using assms(3) run by (auto simp: program_step_def network_step_def)
    have "ns_stopper s = ns_stopper (pg_network g)"
      using step(1) by (auto simp: NetworkStage_run_def Let_def split: network_run_splits)
    with assms(2) cap show ?thesis
      by (simp add: phase_inv_def step(2))
  next
    case Signal
    then have "g' = g\<lparr>pg_stop_requested := True\<rparr>"
      using assms(3) run by (simp add: program_step_def handle_shutdown_signal_def)
    with assms(2) show ?thesis
      by (simp add: phase_inv_def)
  next
    case ParserThread
    with assms(3) run show ?thesis by (intro by_thread [of ParserRuns]) (simp_all add: program_step_def)
  next
    case (AggregatorThread i)
    with assms(3) run show ?thesis by (intro by_thread [of "AggregatorRuns i"]) (simp_all add: program_step_def)
  next
    case (WriterThread now)
    with assms(3) run show ?thesis by (intro by_thread [of "WriterRuns now"]) (simp_all add: program_step_def)
  qed
qed

lemma run_phase_inv: "program_run J hash put rnd E (wire config sink) es g \<Longrightarrow> phase_inv g"
proof (induction rule: program_run.induct)
  case (program_steps es g act e g')
  from phase_inv_step [OF run_program_inv [OF program_steps(1)] program_steps(3,2)] show ?case .
qed (rule phase_inv_wire)

section \<open>The work that is left\<close>

text \<open>
  What the pipeline has left is \<^const>\<open>stop_bound\<close>, but as long as its stop is not requested the
  writer counts as one that has just begun a flush. The main thread has left its steps in the
  stops of the network, and the second stop of the pipeline in the destructor. A message the
  network thread still holds costs four steps in the pipeline, so its own steps weigh five; a message
  that it still reads costs six steps in all.
\<close>

definition writer_left :: "'s MarketDataPipeline \<Rightarrow> nat" where
  "writer_left p =
     (if pl_stop_requested p then writer_work (length (pl_shards p)) (pl_writer p) else length (pl_shards p) + 3)"

definition pipe_work :: "'s MarketDataPipeline \<Rightarrow> nat" where
  "pipe_work p = 4 * length (bq_items (pl_raw_queue p)) + parser_work (pl_parser p) + queue_work p
     + sum_list (map agg_work (pl_aggs p)) + writer_left p
     + stop_work (length (pl_shards p)) (length (pl_aggs p)) (pl_stopper p)"

definition restart_work :: "'s MarketDataPipeline \<Rightarrow> nat" where
  "restart_work p = 2 * length (pl_shards p) + length (pl_aggs p) + 6"

fun stage_stop_work :: "network_stop \<Rightarrow> nat" where
  "stage_stop_work StageIdle = 5"
| "stage_stop_work StagePolicy = 4"
| "stage_stop_work StageClient = 3"
| "stage_stop_work StageClose = 2"
| "stage_stop_work StageJoin = 1"
| "stage_stop_work StageStopped = 5"

definition main_work :: "'s Program \<Rightarrow> nat" where
  "main_work g =
     (case pg_main g of
        MainStopNetwork \<Rightarrow> 7 + restart_work (pg_pipeline g)
      | MainStopPipeline \<Rightarrow> 6 + restart_work (pg_pipeline g)
      | MainDestroyNetwork \<Rightarrow> stage_stop_work (ns_stopper (pg_network g)) + restart_work (pg_pipeline g)
      | MainDestroyPipeline \<Rightarrow> if pl_stopper (pg_pipeline g) = Stopped then restart_work (pg_pipeline g) else 0
      | _ \<Rightarrow> 0)"

definition shutdown_bound :: "'s Program \<Rightarrow> nat" where
  "shutdown_bound g = 5 * network_work (pg_network g) + pipe_work (pg_pipeline g) + main_work g"

text \<open>The steps that count: those of every thread, but not the flushes before the pipeline is stopped.\<close>

definition counted :: "'ec program_action \<Rightarrow> 's Program \<Rightarrow> bool" where
  "counted act g =
     (case act of Signal \<Rightarrow> False | WriterThread now \<Rightarrow> pl_stop_requested (pg_pipeline g) | _ \<Rightarrow> True)"

lemma pipe_work_stop_bound:
  "pipe_work p + writer_work (length (pl_shards p)) (pl_writer p) = stop_bound p + writer_left p"
  by (simp add: pipe_work_def stop_bound_def)

lemma pipe_work_mono:
  assumes "stop_bound p' < stop_bound p" and "pl_writer p' = pl_writer p"
    and "pl_stop_requested p' = pl_stop_requested p" and "length (pl_shards p') = length (pl_shards p)"
  shows "pipe_work p' < pipe_work p"
proof -
  have "writer_left p' = writer_left p"
    using assms(2-4) by (simp add: writer_left_def)
  with assms pipe_work_stop_bound [of p] pipe_work_stop_bound [of p'] show ?thesis by simp
qed

lemma pipe_work_raw:
  "pipe_work (p\<lparr>pl_raw_queue := q\<rparr>) + 4 * length (bq_items (pl_raw_queue p)) = pipe_work p + 4 * length (bq_items q)"
  by (simp add: pipe_work_def writer_left_def)

lemma parser_work_left:
  assumes "stages_inv p" and "run_parser_stage J hash p = Some p'" and "\<not> pl_terminated p'"
  shows "pipe_work p' < pipe_work p" and "length (pl_shards p') = length (pl_shards p)"
    and "length (pl_aggs p') = length (pl_aggs p)" and "pl_stopper p' = pl_stopper p"
proof -
  have frame: "pl_writer p' = pl_writer p \<and> pl_stop_requested p' = pl_stop_requested p
      \<and> length (pl_shards p') = length (pl_shards p) \<and> pl_aggs p' = pl_aggs p \<and> pl_stopper p' = pl_stopper p"
    using assms(2) by (auto simp: run_parser_stage_def split: option.splits sum.splits parser_state.splits)
  with pipe_work_mono [OF parser_bound [OF assms]] show "pipe_work p' < pipe_work p" by simp
  from frame show "length (pl_shards p') = length (pl_shards p)" "length (pl_aggs p') = length (pl_aggs p)"
    "pl_stopper p' = pl_stopper p" by simp_all
qed

lemma aggregation_work_left:
  assumes "stages_inv p" and "run_aggregation_stage i p = Some p'" and "\<not> pl_terminated p'"
  shows "pipe_work p' < pipe_work p" and "length (pl_shards p') = length (pl_shards p)"
    and "length (pl_aggs p') = length (pl_aggs p)" and "pl_stopper p' = pl_stopper p"
proof -
  have frame: "pl_writer p' = pl_writer p \<and> pl_stop_requested p' = pl_stop_requested p
      \<and> length (pl_shards p') = length (pl_shards p) \<and> length (pl_aggs p') = length (pl_aggs p) \<and> pl_stopper p' = pl_stopper p"
    using assms(2) by (auto simp: run_aggregation_stage_def split: if_splits option.splits agg_state.splits)
  with pipe_work_mono [OF aggregation_bound [OF assms]] show "pipe_work p' < pipe_work p" by simp
  from frame show "length (pl_shards p') = length (pl_shards p)" "length (pl_aggs p') = length (pl_aggs p)"
    "pl_stopper p' = pl_stopper p" by simp_all
qed

lemma writer_work_left:
  assumes "run_writer_stage put now p = Some (e, p')"
  shows "pipe_work p' + (if pl_stop_requested p then 1 else 0) \<le> pipe_work p"
    and "length (pl_shards p') = length (pl_shards p)"
    and "length (pl_aggs p') = length (pl_aggs p)" and "pl_stopper p' = pl_stopper p"
  using assms
  by (auto simp: run_writer_stage_def pipe_work_def writer_left_def
      split: writer_state.splits if_splits option.splits prod.splits)

lemma stop_work_left:
  assumes "stages_inv p" and "stop put p = Some (e, p')"
  shows "pl_stopper p \<noteq> Stopped \<Longrightarrow> pipe_work p' < pipe_work p"
    and "pl_stopper p = Stopped \<Longrightarrow> pipe_work p' < pipe_work p + restart_work p"
    and "length (pl_shards p') = length (pl_shards p)" and "length (pl_aggs p') = length (pl_aggs p)"
proof -
  have req: "pl_stop_requested p \<longleftrightarrow> pl_stopper p \<noteq> StopIdle"
    using assms(1) by (simp add: stages_defs)
  have shards: "queue_work (set_shard_queue i (bq_set_shutdown (shard_queue p i)) p) = queue_work p"
    if "i < length (pl_shards p)" for i
    using queue_work_update [OF that, of "bq_set_shutdown (shard_queue p i)"] by (simp add: bq_set_shutdown_def)
  show frame: "length (pl_shards p') = length (pl_shards p)" "length (pl_aggs p') = length (pl_aggs p)"
    using assms(2) by (auto simp: stop_def split: stop_state.splits if_splits prod.splits)
  show "pipe_work p' < pipe_work p + restart_work p" if "pl_stopper p = Stopped"
    using assms(2) that req by (auto simp: stop_def pipe_work_def restart_work_def writer_left_def)
  show "pipe_work p' < pipe_work p" if "pl_stopper p \<noteq> Stopped"
  proof (cases "pl_stopper p")
    case StopIdle
    have "writer_work n w \<le> n + 2" for n w
      by (cases w) auto
    then have "writer_work (length (pl_shards p)) (pl_writer p) \<le> length (pl_shards p) + 2" .
    with assms(2) StopIdle req show ?thesis
      by (auto simp: stop_def pipe_work_def writer_left_def)
  next
    case (StopShutShards i)
    with assms(2) req shards show ?thesis
      by (auto simp: stop_def pipe_work_def writer_left_def split: if_splits)
  qed (use assms(2) that req in \<open>auto simp: stop_def pipe_work_def writer_left_def bq_set_shutdown_def
        split: if_splits prod.splits\<close>)
qed

section \<open>Every counted step lowers the bound\<close>

lemma restart_work_cong:
  "length (pl_shards p') = length (pl_shards p) \<Longrightarrow> length (pl_aggs p') = length (pl_aggs p) \<Longrightarrow>
     restart_work p' = restart_work p"
  by (simp add: restart_work_def)

lemma pipeline_thread_bound:
  assumes "shutting_down g" and "pipe_work p' + k \<le> pipe_work (pg_pipeline g)"
    and "length (pl_shards p') = length (pl_shards (pg_pipeline g))" and "length (pl_aggs p') = length (pl_aggs (pg_pipeline g))"
    and "pl_stopper p' = pl_stopper (pg_pipeline g)"
  shows "shutting_down (g\<lparr>pg_pipeline := p'\<rparr>)" and "shutdown_bound (g\<lparr>pg_pipeline := p'\<rparr>) + k \<le> shutdown_bound g"
proof -
  show "shutting_down (g\<lparr>pg_pipeline := p'\<rparr>)"
    using assms(1) by (simp add: shutting_down_def split: main_phase.splits)
  have "main_work (g\<lparr>pg_pipeline := p'\<rparr>) = main_work g"
    unfolding main_work_def by (simp add: restart_work_cong [OF assms(3,4)] assms(5) split: main_phase.split)
  with assms(2) show "shutdown_bound (g\<lparr>pg_pipeline := p'\<rparr>) + k \<le> shutdown_bound g"
    by (simp add: shutdown_bound_def)
qed

lemma network_thread_bound:
  assumes "program_inv g" and "shutting_down g" and "network_step rnd E input g = Some (e, g')"
  shows "shutting_down g'" and "shutdown_bound g' + 1 \<le> shutdown_bound g + 6 * length (program_received [e])"
proof -
  let ?p = "pg_pipeline g"
  obtain ne q s where step: "NetworkStage_run rnd E input (pl_raw_queue ?p) (pg_network g) = Some (ne, q, s)"
    "e = NetworkDid ne" "g' = g\<lparr>pg_pipeline := ?p\<lparr>pl_raw_queue := q\<rparr>, pg_network := s\<rparr>"
    using assms(3) by (auto simp: network_step_def)
  have inv: "stage_inv (pg_network g)"
    using assms(1) by (simp add: program_inv_def)
  have "ns_phase (pg_network g) \<noteq> NetworkOff"
    using step(1) by (auto simp: NetworkStage_run_def)
  then have main: "pg_main g = MainStopNetwork" "ns_stopper (pg_network g) = StageJoin"
    using assms(1,2) by (auto simp: program_inv_def before_pipeline_stop_def shutting_down_def
        split: if_splits main_phase.splits)
  with run_keeps_stop(2) [OF step(1)] show "shutting_down g'"
    by (simp add: shutting_down_def step(3))
  have "ns_stop_requested (pg_network g)"
    using inv main(2) by (simp add: stage_inv_def)
  note work = network_step_work [OF inv this step(1)]
  define k where "k = length (received_messages (client_event_of ne))"
  have "length (received_of ce) \<le> 1" for ce :: "'b client_event"
    by (cases ce) simp_all
  then have "k \<le> 1"
    by (cases ne) (simp_all add: k_def)
  have items: "length (bq_items q) \<le> Suc (length (bq_items (pl_raw_queue ?p)))" "k \<noteq> 0 \<Longrightarrow> q = pl_raw_queue ?p"
    using network_run_queue [OF inv step(1)] bq.push_ok
    by (fastforce simp: k_def split: network_event.splits client_event.splits)+
  have "pipe_work (?p\<lparr>pl_raw_queue := q\<rparr>) \<le> pipe_work ?p + 4" "k \<noteq> 0 \<Longrightarrow> ?p\<lparr>pl_raw_queue := q\<rparr> = ?p"
    using pipe_work_raw [of q ?p] items by simp_all
  moreover have "main_work g' = main_work g"
    by (simp add: main_work_def step(3) main(1) restart_work_def)
  ultimately have "shutdown_bound g' + 1 \<le> shutdown_bound g + 6 * k"
    using work [folded k_def] \<open>k \<le> 1\<close> by (cases "k = 0") (simp_all add: shutdown_bound_def step(3))
  then show "shutdown_bound g' + 1 \<le> shutdown_bound g + 6 * length (program_received [e])"
    by (simp add: k_def step(2))
qed

lemma stop_off_work:
  assumes "NetworkStage_stop s = Some s'" and "ns_phase s = NetworkOff \<or> ns_stopper s = StageJoin"
  shows "network_work s' \<le> network_work s"
    and "ns_stopper s' \<noteq> StageStopped \<Longrightarrow> stage_stop_work (ns_stopper s') < stage_stop_work (ns_stopper s)"
    and "ns_stopper s = StageJoin \<Longrightarrow> ns_stopper s' = StageStopped"
  using assms by (auto simp: NetworkStage_stop_def network_work_def
      split: network_stop.splits if_splits option.splits)

lemma main_network_bound:
  assumes "program_inv g" and "shutting_down g" and "main_stops_network ph g = Some (e, g')"
    and "pg_main g = MainStopNetwork \<and> ph = MainStopPipeline \<or> pg_main g = MainDestroyNetwork \<and> ph = MainDestroyPipeline"
    and "pg_main g = MainDestroyNetwork \<Longrightarrow> pl_stopper (pg_pipeline g) = Stopped"
  shows "shutting_down g'" and "shutdown_bound g' < shutdown_bound g"
proof -
  obtain s where s: "NetworkStage_stop (pg_network g) = Some s"
    "g' = g\<lparr>pg_network := s, pg_main := if ns_stopper s = StageStopped then ph else pg_main g\<rparr>"
    using assms(3) by (auto simp: main_stops_network_def split: option.splits)
  have pre: "ns_phase (pg_network g) = NetworkOff \<or> ns_stopper (pg_network g) = StageJoin"
    using assms(1,2,4) by (auto simp: program_inv_def before_pipeline_stop_def shutting_down_def)
  note S = stop_off_work [OF s(1) pre]
  have pos: "0 < stage_stop_work st" for st
    by (cases st) simp_all
  have join: "pg_main g = MainStopNetwork \<Longrightarrow> ns_stopper s = StageStopped"
    using S(3) assms(2) by (simp add: shutting_down_def)
  show "shutting_down g'"
    using assms(4) join by (auto simp: shutting_down_def s(2))
  show "shutdown_bound g' < shutdown_bound g"
    using assms(4,5) join S(1,2) pos [of "ns_stopper (pg_network g)"]
    by (cases "ns_stopper s = StageStopped") (auto simp: shutdown_bound_def main_work_def s(2))
qed

lemma main_pipeline_bound:
  assumes "stages_inv (pg_pipeline g)" and "phase_inv g" and "main_stops_pipeline put ph g = Some (e, g')"
    and "pg_main g = MainStopPipeline \<and> ph = MainDestroyNetwork \<or> pg_main g = MainDestroyPipeline \<and> ph = MainExit"
  shows "shutting_down g'" and "shutdown_bound g' < shutdown_bound g"
proof -
  obtain pe p where p: "stop put (pg_pipeline g) = Some (pe, p)"
    "g' = g\<lparr>pg_pipeline := p, pg_main := if pl_stopper p = Stopped then ph else pg_main g\<rparr>"
    using assms(3) by (auto simp: main_stops_pipeline_def split: option.splits)
  note S = stop_work_left [OF assms(1) p(1)]
  have restart: "pl_stopper (pg_pipeline g) = Stopped \<Longrightarrow> pl_stopper p \<noteq> Stopped"
    using p(1) by (auto simp: stop_def)
  have stage: "pg_main g = MainStopPipeline \<Longrightarrow> ns_stopper (pg_network g) = StageStopped \<and> pl_stopper (pg_pipeline g) \<noteq> Stopped"
    using assms(2) by (simp add: phase_inv_def)
  show "shutting_down g'"
    using assms(4) by (auto simp: shutting_down_def p(2))
  show "shutdown_bound g' < shutdown_bound g"
    using assms(4) S(1,2) restart stage restart_work_cong [OF S(3,4)]
    by (cases "pl_stopper p = Stopped"; cases "pl_stopper (pg_pipeline g) = Stopped")
      (auto simp: shutdown_bound_def main_work_def p(2))
qed

lemma shutdown_step:
  assumes "program_inv g" and "phase_inv g" and "stages_inv (pg_pipeline g)" and "shutting_down g"
    and "program_step J hash put rnd E act g = Some (e, g')" and "\<not> pl_terminated (pg_pipeline g')"
  shows "shutting_down g'
     \<and> shutdown_bound g' + (if counted act g then 1 else 0) \<le> shutdown_bound g + 6 * length (program_received [e])"
proof -
  have run: "\<not> pl_terminated (pg_pipeline g)"
    using assms(5) by (auto simp: program_step_def)
  note T = pipeline_thread_bound [OF assms(4)]
  show ?thesis
  proof (cases act)
    case Signal
    then have "g' = g\<lparr>pg_stop_requested := True\<rparr>"
      using assms(5) run by (simp add: program_step_def handle_shutdown_signal_def)
    with assms(4) Signal show ?thesis
      by (simp add: shutting_down_def shutdown_bound_def main_work_def counted_def split: main_phase.splits)
  next
    case MainRuns
    then have main: "main_step put g = Some (e, g')"
      using assms(5) run by (simp add: program_step_def)
    have "shutting_down g' \<and> shutdown_bound g' < shutdown_bound g"
    proof (cases "pg_main g")
      case MainStopNetwork
      with main main_network_bound [OF assms(1,4), of MainStopPipeline e g'] show ?thesis
        by (simp add: main_step_def)
    next
      case MainDestroyNetwork
      with main main_network_bound [OF assms(1,4), of MainDestroyPipeline e g'] assms(1) show ?thesis
        by (simp add: main_step_def program_inv_def)
    next
      case MainStopPipeline
      with main main_pipeline_bound [OF assms(3,2), of put MainDestroyNetwork e g'] show ?thesis
        by (simp add: main_step_def)
    next
      case MainDestroyPipeline
      with main main_pipeline_bound [OF assms(3,2), of put MainExit e g'] show ?thesis
        by (simp add: main_step_def)
    qed (use main assms(4) in \<open>simp_all add: main_step_def shutting_down_def\<close>)
    with MainRuns show ?thesis by (simp add: counted_def trans_le_add1)
  next
    case (NetworkThread input)
    with assms(5) run network_thread_bound [OF assms(1,4), of rnd E input e g'] show ?thesis
      by (simp add: program_step_def counted_def)
  next
    case ParserThread
    then obtain p where p: "run_parser_stage J hash (pg_pipeline g) = Some p" "g' = g\<lparr>pg_pipeline := p\<rparr>"
      using assms(5) run by (auto simp: program_step_def thread_step_def pipeline_step_def)
    with T [of p 1] parser_work_left [OF assms(3) p(1)] assms(6) ParserThread show ?thesis
      by (simp add: counted_def trans_le_add1)
  next
    case (AggregatorThread i)
    then obtain p where p: "run_aggregation_stage i (pg_pipeline g) = Some p" "g' = g\<lparr>pg_pipeline := p\<rparr>"
      using assms(5) run by (auto simp: program_step_def thread_step_def pipeline_step_def)
    with T [of p 1] aggregation_work_left [OF assms(3) p(1)] assms(6) AggregatorThread show ?thesis
      by (simp add: counted_def trans_le_add1)
  next
    case (WriterThread now)
    then obtain pe p where p: "run_writer_stage put now (pg_pipeline g) = Some (pe, p)" "g' = g\<lparr>pg_pipeline := p\<rparr>"
      using assms(5) run by (auto simp: program_step_def thread_step_def pipeline_step_def)
    with T [OF writer_work_left [OF p(1)]] WriterThread show ?thesis
      by (simp add: counted_def trans_le_add1)
  qed
qed

section \<open>Some thread can always go on\<close>

lemma raw_backlog_enabled:
  assumes "stages_inv p" and "pl_stopper p = StopIdle" and "pl_parser p \<noteq> ParserOff" and "bq_items (pl_raw_queue p) \<noteq> []"
  shows "run_parser_stage J hash p \<noteq> None \<or> (\<exists>i. run_aggregation_stage i p \<noteq> None)"
proof -
  have "\<not> bq_shutdown (pl_raw_queue p)"
    using assms(1,2) by (simp add: stages_defs)
  then have "\<not> parser_over p"
    using assms(1,3) by (auto simp: stages_defs parser_over_def)
  with assms(1,4) show ?thesis
    by (intro parser_enabled) (simp_all add: stages_inv_def)
qed

lemma stop_goes_on:
  assumes "stages_inv p" and "\<not> pl_terminated p"
  shows "\<exists>pact. (pact = StopRuns \<or> pact = ParserRuns \<or> (\<exists>i. pact = AggregatorRuns i)
        \<or> (\<exists>now. pl_stop_requested p \<and> pact = WriterRuns now)) \<and> pipeline_step J hash put pact p \<noteq> None"
proof (cases "stopping p")
  case True
  then obtain pact where pact: "own_action pact" "pipeline_step J hash put pact p \<noteq> None"
    using stop_progress [OF assms(1) _ assms(2)] by blast
  have "pl_stop_requested p"
    using assms(1) True by (simp add: stages_defs stopping_def)
  moreover have "pact \<noteq> Start"
    using pact(2) True assms(2) by (auto simp: pipeline_step_def start_def stopping_def)
  ultimately show ?thesis
    using pact by (intro exI [of _ pact]) (cases pact; simp add: own_action_def)
next
  case False
  with assms(2) show ?thesis
    by (intro exI [of _ StopRuns]) (auto simp: pipeline_step_def stop_def stopping_def)
qed

lemma shutdown_progress:
  assumes "program_inv g" and "phase_inv g" and "stages_inv (pg_pipeline g)" and "shutting_down g"
    and "pg_main g \<noteq> MainExit" and "\<not> pl_terminated (pg_pipeline g)" and "ec_failed E ec"
  shows "\<exists>act e g'. counted act g \<and> program_step J hash put rnd E act g = Some (e, g') \<and> program_received [e] = []"
proof -
  let ?p = "pg_pipeline g" and ?s = "pg_network g"
  have main: "program_step J hash put rnd E MainRuns g \<noteq> None \<Longrightarrow> ?thesis"
    using assms(6) by (intro exI [of _ MainRuns]) (fastforce simp: counted_def program_step_def dest: main_event)
  have parser: "run_parser_stage J hash ?p \<noteq> None \<Longrightarrow> ?thesis"
    using assms(6) by (intro exI [of _ ParserThread]) (auto simp: counted_def program_step_def thread_step_def pipeline_step_def)
  have aggregator: "run_aggregation_stage i ?p \<noteq> None \<Longrightarrow> ?thesis" for i
    using assms(6) by (intro exI [of _ "AggregatorThread i"])
      (auto simp: counted_def program_step_def thread_step_def pipeline_step_def)
  have writer: ?thesis if "pl_stop_requested ?p" and "run_writer_stage put now ?p \<noteq> None" for now
  proof -
    obtain pe p where "run_writer_stage put now ?p = Some (pe, p)"
      using \<open>run_writer_stage put now ?p \<noteq> None\<close> by auto
    with assms(6) that(1) show ?thesis
      by (intro exI [of _ "WriterThread now"] exI [of _ "PipelineDid pe"] exI [of _ "g\<lparr>pg_pipeline := p\<rparr>"])
        (simp add: counted_def program_step_def thread_step_def pipeline_step_def)
  qed
  have pipeline: ?thesis if "stop put ?p \<noteq> None \<Longrightarrow> program_step J hash put rnd E MainRuns g \<noteq> None"
    using stop_goes_on [OF assms(3,6), of J hash put] main parser aggregator writer that assms(6)
    by (fastforce simp: pipeline_step_def)
  show ?thesis
  proof (cases "pg_main g")
    case MainStopNetwork
    then have s: "ns_stopper ?s = StageJoin" "pl_stopper ?p = StopIdle" "pl_parser ?p \<noteq> ParserOff" "stage_inv ?s"
      using assms(1,4) by (simp_all add: shutting_down_def program_inv_def before_pipeline_stop_def)
    consider (over) "ns_phase ?s = NetworkOff \<or> ns_phase ?s = NetworkDone"
      | (room) "ns_phase ?s \<noteq> NetworkOff" "ns_phase ?s \<noteq> NetworkDone"
          "length (bq_items (pl_raw_queue ?p)) < bq_capacity (pl_raw_queue ?p)"
      | (full) "bq_items (pl_raw_queue ?p) \<noteq> []"
      using assms(2) by (fastforce simp: phase_inv_def kQueueCapacity_def)
    then show ?thesis
    proof cases
      case over
      with MainStopNetwork s(1) assms(6) show ?thesis
        by (intro main) (simp add: program_step_def main_step_def main_stops_network_def NetworkStage_stop_def)
    next
      case room
      with s(1) have "\<exists>input e q' s'. NetworkStage_run rnd E input (pl_raw_queue ?p) ?s = Some (e, q', s')
          \<and> received_messages (client_event_of e) = []"
        by (intro network_enabled [OF s(4) _ _ _ assms(7)]) simp_all
      then obtain input e q' s' where "NetworkStage_run rnd E input (pl_raw_queue ?p) ?s = Some (e, q', s')"
        "received_messages (client_event_of e) = []" by blast
      with assms(6) show ?thesis
        by (intro exI [of _ "NetworkThread input"]) (simp add: counted_def program_step_def network_step_def)
    next
      case full
      with raw_backlog_enabled [OF assms(3) s(2,3), of J hash] parser aggregator show ?thesis by blast
    qed
  next
    case MainDestroyNetwork
    then have "ns_phase ?s = NetworkOff"
      using assms(1) by (simp add: program_inv_def before_pipeline_stop_def)
    with MainDestroyNetwork assms(6) show ?thesis
      by (intro main) (auto simp: program_step_def main_step_def main_stops_network_def NetworkStage_stop_def
          split: network_stop.split option.split)
  qed (use assms(4-6) pipeline in \<open>auto simp: shutting_down_def program_step_def main_step_def main_stops_pipeline_def split: option.splits\<close>)
qed

section \<open>Schedules\<close>

fun counted_steps ::
    "'j json_lib \<Rightarrow> (string \<Rightarrow> nat) \<Rightarrow> (string \<Rightarrow> 's \<Rightarrow> bool \<times> 's) \<Rightarrow> (rat \<Rightarrow> rat) \<Rightarrow> 'ec error_codes
     \<Rightarrow> 'ec program_action list \<Rightarrow> 's Program \<Rightarrow> nat" where
  "counted_steps J hash put rnd E [] g = 0"
| "counted_steps J hash put rnd E (act # acts) g =
     (case program_step J hash put rnd E act g of
        None \<Rightarrow> 0
      | Some (e, g') \<Rightarrow> (if counted act g then 1 else 0) + counted_steps J hash put rnd E acts g')"

lemma program_stages:
  "program_run J hash put rnd E (wire config sink) es g \<Longrightarrow> stages_inv (pg_pipeline g)"
  using run_stages program_run_projects by (fastforce simp: wire_def)

lemma run_not_terminated:
  assumes "run_program J hash put rnd E acts g = Some (es, g')" and "\<not> pl_terminated (pg_pipeline g')"
  shows "\<not> pl_terminated (pg_pipeline g)"
  using assms by (cases acts) (auto simp: program_step_def split: if_splits option.splits)

lemma shutdown_run:
  assumes "program_run J hash put rnd E (wire config sink) es0 g" and "shutting_down g"
    and "run_program J hash put rnd E acts g = Some (es, g')" and "\<not> pl_terminated (pg_pipeline g')"
  shows "shutting_down g'
     \<and> counted_steps J hash put rnd E acts g + shutdown_bound g' \<le> shutdown_bound g + 6 * length (program_received es)"
  using assms
proof (induction acts arbitrary: g es0 es)
  case (Cons act acts)
  then obtain e g1 es1 where step: "program_step J hash put rnd E act g = Some (e, g1)"
    "run_program J hash put rnd E acts g1 = Some (es1, g')" "es = e # es1"
    by (auto split: option.splits)
  note reach = program_steps [OF Cons.prems(1) step(1)]
  have run: "\<not> pl_terminated (pg_pipeline g1)"
    using run_not_terminated [OF step(2) Cons.prems(4)] .
  note S = shutdown_step [OF run_program_inv [OF Cons.prems(1)] run_phase_inv [OF Cons.prems(1)]
      program_stages [OF Cons.prems(1)] Cons.prems(2) step(1) run]
  from Cons.IH [OF reach _ step(2) Cons.prems(4)] S step(1,3) show ?case by auto
qed simp

section \<open>Properties\<close>

text \<open>
  C4: the program shuts down. Once the main thread waits for the network thread, any schedule after
  which the process is not terminated (an exception that leaves a thread, such as that of a failed write,
  terminates it) contains at most \<open>shutdown_bound\<close> steps of the threads and six for every message
  that still comes from the connection (the periodic flushes before the pipeline is stopped
  apart), whatever signals and answers of the network come in between; and until \<^verbatim>\<open>main\<close> has
  returned, some thread can take such a step without a further message as soon as the call it
  is in returns. So neither a full queue nor the order of the joins can keep the program from
  exiting once the connection delivers nothing more.
\<close>

theorem program_shutdown_terminates:
  assumes "program_run J hash put rnd E (wire config sink) es0 g" and "shutting_down g"
    and "run_program J hash put rnd E acts g = Some (es, g')" and "\<not> pl_terminated (pg_pipeline g')"
    and "ec_failed E ec"
  shows "counted_steps J hash put rnd E acts g \<le> shutdown_bound g + 6 * length (program_received es)
     \<and> (pg_main g' = MainExit
        \<or> (\<exists>act e g''. counted act g' \<and> program_step J hash put rnd E act g' = Some (e, g'') \<and> program_received [e] = []))"
proof -
  note S = shutdown_run [OF assms(1-4)]
  note reach = run_program_run [OF assms(3,1)]
  from S shutdown_progress [OF run_program_inv [OF reach] run_phase_inv [OF reach] program_stages [OF reach] _ _ assms(4,5)]
  show ?thesis by (metis add_leD1)
qed

theorem program_shutdown_terminates_witness:
  "\<exists>es0 g acts es g'. program_run sample_lib (\<lambda>s. 0) (FileOutputSink_write (\<lambda>_. length)) id numbered_codes
       (wire sample_loaded example_sink) es0 g
     \<and> pg_main g = MainStopNetwork \<and> shutdown_bound g = 61
     \<and> run_program sample_lib (\<lambda>s. 0) (FileOutputSink_write (\<lambda>_. length)) id numbered_codes acts g = Some (es, g')
     \<and> program_received es = [''raw'']
     \<and> counted_steps sample_lib (\<lambda>s. 0) (FileOutputSink_write (\<lambda>_. length)) id numbered_codes acts g \<le> 67
     \<and> (pg_main g' = MainExit
        \<or> (\<exists>act e g''. counted act g'
             \<and> program_step sample_lib (\<lambda>s. 0) (FileOutputSink_write (\<lambda>_. length)) id numbered_codes act g' = Some (e, g'')
             \<and> program_received [e] = []))"
proof -
  let ?before = "example_connection @ take 6 example_shutdown"
    and ?acts = "[NetworkThread (ReadReturned 0 ''raw''), NetworkThread Silent, ParserThread, ParserThread]"
    and ?put = "FileOutputSink_write (\<lambda>_. length)"
  have "\<exists>es g. run_program sample_lib (\<lambda>s. 0) ?put id numbered_codes ?before (wire sample_loaded example_sink) = Some (es, g)
      \<and> pg_main g = MainStopNetwork \<and> shutting_down g \<and> shutdown_bound g = 61
      \<and> (\<exists>es1 g1. run_program sample_lib (\<lambda>s. 0) ?put id numbered_codes ?acts g = Some (es1, g1)
          \<and> \<not> pl_terminated (pg_pipeline g1) \<and> program_received es1 = [''raw''])"
    by (simp add: example_connection_def example_shutdown_def program_exec shutting_down_def
        shutdown_bound_def main_work_def pipe_work_def writer_left_def restart_work_def network_work_def queue_work_def)
  then obtain es g es1 g1 where g: "run_program sample_lib (\<lambda>s. 0) ?put id numbered_codes ?before
        (wire sample_loaded example_sink) = Some (es, g)"
    "pg_main g = MainStopNetwork" "shutting_down g" "shutdown_bound g = 61"
    and g1: "run_program sample_lib (\<lambda>s. 0) ?put id numbered_codes ?acts g = Some (es1, g1)"
    "\<not> pl_terminated (pg_pipeline g1)" "program_received es1 = [''raw'']"
    by blast
  note reach = run_program_run [OF g(1) program_init, simplified]
  have "ec_failed numbered_codes 9"
    by (simp add: numbered_codes_def)
  note T = program_shutdown_terminates [OF reach g(3) g1(1,2) this]
  from T have "counted_steps sample_lib (\<lambda>s. 0) ?put id numbered_codes ?acts g \<le> 67"
    by (simp only: g(4) g1(3) list.size) simp
  with T g(2,4) g1 reach show ?thesis
    by (intro exI [of _ es] exI [of _ g] exI [of _ ?acts] exI [of _ es1] exI [of _ g1]) (simp del: run_program.simps counted_steps.simps)
qed

end
