(* ===== verification/Program_Exit.thy ===== *)
theory Program_Exit
  imports Program_Shutdown
begin

text \<open>
  From every state there is a way out. \<open>Program_Shutdown\<close> shows that the program exits once the
  main thread waits for the network thread and the connection delivers nothing more; here is the
  way to that join. What ends the network thread there is an error of the call it is in, as when the
  server closes the connection; that is also what ends it when the stop was lost on a connection that
  came up after it.
\<close>

section \<open>The way of the main thread\<close>

fun stage_stop_way :: "network_stop \<Rightarrow> nat" where
  "stage_stop_way StagePolicy = 3"
| "stage_stop_way StageClient = 2"
| "stage_stop_way StageClose = 1"
| "stage_stop_way StageJoin = 0"
| "stage_stop_way _ = 4"

definition main_way :: "'s Program \<Rightarrow> nat" where
  "main_way g =
     (case pg_main g of
        MainStartPipeline \<Rightarrow> 8
      | MainStartNetwork \<Rightarrow> 7
      | MainPoll \<Rightarrow> if pg_stop_requested g then 5 else 6
      | MainStopNetwork \<Rightarrow> stage_stop_way (ns_stopper (pg_network g))
      | _ \<Rightarrow> 0)"

lemma main_way_simps:
  "pg_main g = MainStartPipeline \<Longrightarrow> main_way g = 8"
  "pg_main g = MainStartNetwork \<Longrightarrow> main_way g = 7"
  "pg_main g = MainPoll \<Longrightarrow> main_way g = (if pg_stop_requested g then 5 else 6)"
  "pg_main g = MainStopNetwork \<Longrightarrow> main_way g = stage_stop_way (ns_stopper (pg_network g))"
  by (simp_all add: main_way_def)

lemma main_way_pipeline [simp]: "main_way (g\<lparr>pg_pipeline := p\<rparr>) = main_way g"
  by (simp add: main_way_def split: main_phase.split)

lemma stage_stop_nearer:
  assumes "ns_stopper s \<noteq> StageJoin"
  shows "\<exists>s'. NetworkStage_stop s = Some s' \<and> ns_stopper s' \<noteq> StageStopped
     \<and> stage_stop_way (ns_stopper s') < stage_stop_way (ns_stopper s)"
  using assms by (cases "ns_stopper s") (auto simp: NetworkStage_stop_def split: option.split)

text \<open>Nothing is started before its turn.\<close>

definition start_inv :: "'s Program \<Rightarrow> bool" where
  "start_inv g \<longleftrightarrow>
     (pg_main g = MainStartPipeline \<longrightarrow> pl_parser (pg_pipeline g) = ParserOff)
     \<and> (pg_main g \<in> {MainStartPipeline, MainStartNetwork} \<longrightarrow> ns_phase (pg_network g) = NetworkOff)"

lemma start_inv_step:
  assumes "start_inv g" and "program_step J hash put rnd E act g = Some (e, g')"
  shows "start_inv g'"
proof -
  have run: "\<not> pl_terminated (pg_pipeline g)"
    using assms(2) by (auto simp: program_step_def)
  have by_thread: ?thesis if th: "thread_step J hash put pact g = Some (e, g')"
    and ac: "pact = ParserRuns \<or> (\<exists>i. pact = AggregatorRuns i) \<or> (\<exists>now. pact = WriterRuns now)" for pact
  proof -
    obtain pe p where p: "pipeline_step J hash put pact (pg_pipeline g) = Some (pe, p)" "g' = g\<lparr>pg_pipeline := p\<rparr>"
      using th by (auto simp: thread_step_def)
    have "pl_parser (pg_pipeline g) = ParserOff \<Longrightarrow> pl_parser p = ParserOff"
      using ac p(1) run aggregation_started(1) [of _ "pg_pipeline g" p] writer_started(1) [of put _ "pg_pipeline g" pe p]
      by (auto simp: pipeline_step_def run_parser_stage_def)
    with assms(1) show ?thesis
      by (simp add: start_inv_def p(2))
  qed
  show ?thesis
  proof (cases act)
    case MainRuns
    then have "main_step put g = Some (e, g')"
      using assms(2) run by (simp add: program_step_def)
    with assms(1) show ?thesis
      by (auto simp: main_step_def start_inv_def main_stops_network_def main_stops_pipeline_def
          split: main_phase.splits option.splits if_splits)
  next
    case (NetworkThread input)
    then obtain ne q s where step: "NetworkStage_run rnd E input (pl_raw_queue (pg_pipeline g)) (pg_network g) = Some (ne, q, s)"
      "g' = g\<lparr>pg_pipeline := (pg_pipeline g)\<lparr>pl_raw_queue := q\<rparr>, pg_network := s\<rparr>"
      using assms(2) run by (auto simp: program_step_def network_step_def)
    then have "ns_phase (pg_network g) \<noteq> NetworkOff"
      by (auto simp: NetworkStage_run_def)
    with assms(1) show ?thesis
      by (auto simp: start_inv_def step(2))
  next
    case ParserThread
    with assms(2) run show ?thesis by (intro by_thread [of ParserRuns]) (simp_all add: program_step_def)
  next
    case (AggregatorThread i)
    with assms(2) run show ?thesis by (intro by_thread [of "AggregatorRuns i"]) (simp_all add: program_step_def)
  next
    case (WriterThread now)
    with assms(2) run show ?thesis by (intro by_thread [of "WriterRuns now"]) (simp_all add: program_step_def)
  qed (use assms run in \<open>auto simp: program_step_def handle_shutdown_signal_def start_inv_def\<close>)
qed

lemma run_start_inv: "program_run J hash put rnd E (wire config sink) es g \<Longrightarrow> start_inv g"
proof (induction rule: program_run.induct)
  case program_init
  then show ?case
    by (simp add: start_inv_def wire_def MarketDataPipeline_new_def NetworkStage_new_def Let_def)
qed (rule start_inv_step)

section \<open>One step on the way\<close>

lemma main_nearer:
  assumes "program_inv g" and "start_inv g" and "\<not> shutting_down g" and "\<not> pl_terminated (pg_pipeline g)"
  shows "\<exists>act e g'. program_step J hash put rnd E act g = Some (e, g') \<and> main_way g' < main_way g"
proof (cases "pg_main g = MainPoll \<and> \<not> pg_stop_requested g")
  case True
  with assms(4) show ?thesis
    by (intro exI [of _ Signal]) (simp add: program_step_def handle_shutdown_signal_def main_way_simps)
next
  case False
  have "\<exists>e g'. main_step put g = Some (e, g') \<and> main_way g' < main_way g"
  proof (cases "pg_main g")
    case MainStopNetwork
    with assms(3) stage_stop_nearer [of "pg_network g"] show ?thesis
      by (auto simp: main_step_def main_stops_network_def main_way_simps shutting_down_def)
  next
    case MainPoll
    have "stage_stop_way st < 5" for st
      by (cases st) simp_all
    with MainPoll False show ?thesis
      by (simp add: main_step_def main_way_simps)
  qed (use assms(1-3) in \<open>auto simp: main_step_def main_way_simps start_def NetworkStage_start_def start_inv_def
        program_inv_def before_pipeline_stop_def shutting_down_def\<close>)
  with assms(4) show ?thesis
    by (intro exI [of _ MainRuns]) (auto simp: program_step_def)
qed

section \<open>The way out\<close>

lemma run_program_append:
  "run_program J hash put rnd E xs g = Some (es, g1) \<Longrightarrow> run_program J hash put rnd E ys g1 = Some (es', g2) \<Longrightarrow>
     run_program J hash put rnd E (xs @ ys) g = Some (es @ es', g2)"
  by (induction xs arbitrary: g es) (auto split: option.splits)

text \<open>A goal is reached when some step leads to it or nearer to it from every state on the way.\<close>

lemma reach_goal:
  assumes "wf r" and "program_run J hash put rnd E g0 es0 g" and "P g"
    and step: "\<And>es g. program_run J hash put rnd E g0 es g \<Longrightarrow> P g \<Longrightarrow> \<not> goal g \<Longrightarrow>
       \<exists>act e g'. program_step J hash put rnd E act g = Some (e, g') \<and> (goal g' \<or> P g' \<and> (g', g) \<in> r)"
  shows "\<exists>acts es g'. run_program J hash put rnd E acts g = Some (es, g') \<and> goal g'"
  using assms(1-3)
proof (induction g arbitrary: es0 rule: wf_induct_rule)
  case (less g)
  have here: "\<exists>acts es g'. run_program J hash put rnd E acts g1 = Some (es, g') \<and> goal g'" if "goal g1" for g1
    using that by (intro exI [of _ "[]"]) simp
  show ?case
  proof (cases "goal g")
    case False
    then obtain act e g1 where g1: "program_step J hash put rnd E act g = Some (e, g1)"
      "goal g1 \<or> P g1 \<and> (g1, g) \<in> r"
      using step [OF less.prems] by blast
    then obtain acts es g' where "run_program J hash put rnd E acts g1 = Some (es, g')" "goal g'"
      using here less.IH [OF _ program_steps [OF less.prems(1) g1(1)]] by blast
    with g1(1) show ?thesis
      by (intro exI [of _ "act # acts"]) simp
  qed (rule here)
qed

lemma way_to_shutdown:
  assumes "program_run J hash put rnd E (wire config sink) es0 g"
  shows "\<exists>acts es g'. run_program J hash put rnd E acts g = Some (es, g')
     \<and> (pl_terminated (pg_pipeline g') \<or> shutting_down g')"
proof (rule reach_goal [where P = "\<lambda>_. True", OF wf_measure assms(1) TrueI])
  fix es g assume reach: "program_run J hash put rnd E (wire config sink) es g"
    and go: "\<not> (pl_terminated (pg_pipeline g) \<or> shutting_down g)"
  from go show "\<exists>act e g'. program_step J hash put rnd E act g = Some (e, g')
      \<and> ((pl_terminated (pg_pipeline g') \<or> shutting_down g') \<or> True \<and> (g', g) \<in> measure main_way)"
    using main_nearer [OF run_program_inv [OF reach] run_start_inv [OF reach], of J hash put rnd E] by simp blast
qed

lemma way_to_exit:
  assumes "program_run J hash put rnd E (wire config sink) es0 g" and "ec_failed E ec" and "shutting_down g"
  shows "\<exists>acts es g'. run_program J hash put rnd E acts g = Some (es, g')
     \<and> (pl_terminated (pg_pipeline g') \<or> pg_main g' = MainExit)"
proof (rule reach_goal [where P = shutting_down, OF wf_measure assms(1,3)])
  fix es g assume reach: "program_run J hash put rnd E (wire config sink) es g" and down: "shutting_down g"
    and go: "\<not> (pl_terminated (pg_pipeline g) \<or> pg_main g = MainExit)"
  note inv = run_program_inv [OF reach] run_phase_inv [OF reach] program_stages [OF reach]
  obtain act e g' where step: "counted act g" "program_step J hash put rnd E act g = Some (e, g')"
    "program_received [e] = []"
    using shutdown_progress [OF inv down _ _ assms(2), of J hash put rnd] go by blast
  have "\<not> pl_terminated (pg_pipeline g') \<Longrightarrow> shutting_down g' \<and> shutdown_bound g' < shutdown_bound g"
    using shutdown_step [OF inv down step(2), unfolded step(3)] step(1) by simp
  with step(2) show "\<exists>act e g'. program_step J hash put rnd E act g = Some (e, g')
      \<and> ((pl_terminated (pg_pipeline g') \<or> pg_main g' = MainExit) \<or> shutting_down g' \<and> (g', g) \<in> measure shutdown_bound)"
    by (intro exI conjI) auto
qed

section \<open>Properties\<close>

text \<open>
  C5: the program can always exit. From every state it can reach, also from one in which the stop
  of the network was lost on a connection that came up after it, there is a schedule that ends with
  the return from \<^verbatim>\<open>main\<close>: all that is needed from outside is a signal and that the library call the
  network thread is in returns with an error. The only other end is a write that fails on the way.
\<close>

theorem program_can_exit:
  assumes "program_run J hash put rnd E (wire config sink) es0 g" and "ec_failed E ec"
    and "json_documented J" and "cfg_window_ms config \<noteq> 0"
  shows "\<exists>acts es g'. run_program J hash put rnd E acts g = Some (es, g')
     \<and> (pg_main g' = MainExit
        \<or> (\<exists>es1 p1 ws. pipe_events (es0 @ es) = es1 @ [Flushed ws]
             \<and> pipeline_run J hash put (pg_pipeline (wire config sink)) es1 p1
             \<and> \<not> fst (write_windows put ws (pl_sink p1))))"
proof -
  obtain acts1 es1 g1 where one: "run_program J hash put rnd E acts1 g = Some (es1, g1)"
    "pl_terminated (pg_pipeline g1) \<or> shutting_down g1"
    using way_to_shutdown [OF assms(1)] by blast
  have "\<exists>acts es g'. run_program J hash put rnd E acts g1 = Some (es, g')
      \<and> (pl_terminated (pg_pipeline g') \<or> pg_main g' = MainExit)"
  proof (cases "pl_terminated (pg_pipeline g1)")
    case True
    then show ?thesis by (intro exI [of _ "[]"]) simp
  next
    case False
    with one(2) way_to_exit [OF run_program_run [OF one(1) assms(1)] assms(2)] show ?thesis by blast
  qed
  then obtain acts2 es2 g2 where two: "run_program J hash put rnd E acts2 g1 = Some (es2, g2)"
    "pl_terminated (pg_pipeline g2) \<or> pg_main g2 = MainExit" by blast
  have run: "run_program J hash put rnd E (acts1 @ acts2) g = Some (es1 @ es2, g2)"
    using run_program_append [OF one(1) two(1)] .
  note pipe = program_run_projects [OF run_program_run [OF run assms(1)], unfolded wire_def Program.simps]
  show ?thesis
  proof (intro exI conjI)
    show "run_program J hash put rnd E (acts1 @ acts2) g = Some (es1 @ es2, g2)" by (rule run)
    show "pg_main g2 = MainExit \<or> (\<exists>es1' p1 ws. pipe_events (es0 @ es1 @ es2) = es1' @ [Flushed ws]
        \<and> pipeline_run J hash put (pg_pipeline (wire config sink)) es1' p1 \<and> \<not> fst (write_windows put ws (pl_sink p1)))"
      using two(2) run_terminated [OF pipe assms(3,4)] by (simp add: wire_def) blast
  qed
qed

text \<open>A signal between the creation of the client and its connection: the stop is lost.\<close>

definition lost_stop :: "nat program_action list" where
  "lost_stop = [MainRuns, MainRuns, NetworkThread Silent, NetworkThread Silent, Signal, MainRuns, MainRuns, MainRuns,
     MainRuns, MainRuns] @ map NetworkThread
       [Silent, Returned 0, Silent, Silent, SniReturned True 0, Returned 0, Returned 0, Returned 0]"

theorem program_can_exit_witness:
  "\<exists>es0 g acts es g'. program_run sample_lib (\<lambda>s. 0) null_sink id numbered_codes (wire sample_loaded ()) es0 g
     \<and> pg_main g = MainStopNetwork \<and> ns_stopper (pg_network g) = StageJoin
     \<and> (\<exists>c. ns_client (pg_network g) = Some c \<and> wc_phase c = ClientRead \<and> wc_ws c = Some True \<and> \<not> wc_stop_requested c)
     \<and> run_program sample_lib (\<lambda>s. 0) null_sink id numbered_codes acts g = Some (es, g') \<and> pg_main g' = MainExit"
proof -
  have "\<exists>es g. run_program sample_lib (\<lambda>s. 0) null_sink id numbered_codes lost_stop (wire sample_loaded ()) = Some (es, g)
      \<and> pg_main g = MainStopNetwork \<and> ns_stopper (pg_network g) = StageJoin
     \<and> (\<exists>c. ns_client (pg_network g) = Some c \<and> wc_phase c = ClientRead \<and> wc_ws c = Some True \<and> \<not> wc_stop_requested c)"
    by (simp add: lost_stop_def program_exec)
  then obtain es0 g where g: "run_program sample_lib (\<lambda>s. 0) null_sink id numbered_codes lost_stop (wire sample_loaded ())
      = Some (es0, g)"
    "pg_main g = MainStopNetwork" "ns_stopper (pg_network g) = StageJoin" 
    "(\<exists>c. ns_client (pg_network g) = Some c \<and> wc_phase c = ClientRead \<and> wc_ws c = Some True \<and> \<not> wc_stop_requested c)" by blast
  note reach = run_program_run [OF g(1) program_init, simplified]
  have "ec_failed numbered_codes 9" "cfg_window_ms sample_loaded \<noteq> 0"
    by (simp_all add: numbered_codes_def sample_loaded_def)
  from program_can_exit [OF reach this(1) sample_lib_documented this(2)]
  obtain acts es g' where "run_program sample_lib (\<lambda>s. 0) null_sink id numbered_codes acts g = Some (es, g')"
    "pg_main g' = MainExit" by auto
  with reach g(2-4) show ?thesis by blast
qed

end
