(* ===== verification/Pipeline_Typing.thy ===== *)
theory Pipeline_Typing
  imports Pipeline_History
begin

text \<open>
  Well-formed states of the pipeline: every index a thread holds is in the range of the vector
  it is used on, every queue is within its capacity, every aggregator keeps its maps sorted and
  its window size. All steps preserve this, so no access to \<^verbatim>\<open>shards_\<close> or
  \<^verbatim>\<open>aggregation_threads_\<close> is out of range, and only well-formed windows are written.
\<close>

section \<open>Well-formed states\<close>

fun parser_in_range :: "nat \<Rightarrow> parser_state \<Rightarrow> bool" where
  "parser_in_range n (ParserPush t i) = (i < n)"
| "parser_in_range n _ = True"

fun writer_in_range :: "u64 \<Rightarrow> nat \<Rightarrow> writer_state \<Rightarrow> bool" where
  "writer_in_range W n (WriterExtract c i ws) = (i \<le> n \<and> unat c mod unat W = 0)"
| "writer_in_range W n _ = True"

fun stop_in_range :: "nat \<Rightarrow> nat \<Rightarrow> stop_state \<Rightarrow> bool" where
  "stop_in_range n k (StopShutShards i) = (i \<le> n)"
| "stop_in_range n k (StopJoinAggs i) = (i \<le> k)"
| "stop_in_range n k (StopExtract i ws) = (i \<le> n)"
| "stop_in_range n k _ = True"

definition fits :: "'a BoundedQueue \<Rightarrow> bool" where
  "fits q \<longleftrightarrow> length (bq_items q) \<le> bq_capacity q"

definition shard_wf :: "u64 \<Rightarrow> Shard \<Rightarrow> bool" where
  "shard_wf W s \<longleftrightarrow> fits (sh_queue s) \<and> 0 < bq_capacity (sh_queue s)
     \<and> agg_wf (sh_aggregator s) \<and> agg_window_ms (sh_aggregator s) = W"

definition pipeline_wf :: "u64 \<Rightarrow> 's MarketDataPipeline \<Rightarrow> bool" where
  "pipeline_wf W p \<longleftrightarrow> pl_shards p \<noteq> [] \<and> list_all (shard_wf W) (pl_shards p) \<and> fits (pl_raw_queue p)
     \<and> length (pl_aggs p) = (if pl_parser p = ParserOff then 0 else length (pl_shards p))
     \<and> parser_in_range (length (pl_shards p)) (pl_parser p)
     \<and> writer_in_range W (length (pl_shards p)) (pl_writer p)
     \<and> stop_in_range (length (pl_shards p)) (length (pl_aggs p)) (pl_stopper p)"

section \<open>Preservation\<close>

lemma fits_simps [simp]:
  "fits (BoundedQueue_new capacity)" "fits (bq_set_shutdown q) = fits q"
  by (simp_all add: fits_def BoundedQueue_new_def bq_set_shutdown_def)

lemma fits_push: "fits q \<Longrightarrow> bq_push x q = Some (ok, q') \<Longrightarrow> fits q' \<and> bq_capacity q' = bq_capacity q"
  by (auto simp: fits_def bq_push_def push_ready_def split: if_splits)

lemma fits_pop: "fits q \<Longrightarrow> bq_pop q = Some (r, q') \<Longrightarrow> fits q' \<and> bq_capacity q' = bq_capacity q"
  by (auto simp: fits_def bq_pop_def split: if_splits)

text \<open>The indices, and the queue of the messages.\<close>

definition index_inv :: "u64 \<Rightarrow> 's MarketDataPipeline \<Rightarrow> bool" where
  "index_inv W p \<longleftrightarrow> pl_window_ms p = W \<and> fits (pl_raw_queue p)
     \<and> writer_in_range W (length (pl_shards p)) (pl_writer p)
     \<and> stop_in_range (length (pl_shards p)) (length (pl_aggs p)) (pl_stopper p)
     \<and> (\<forall>i < length (pl_shards p). fits (shard_queue p i))"

lemma index_parser:
  assumes "index_inv W p" and "run_parser_stage J hash p = Some p'"
  shows "index_inv W p'"
proof (cases "pl_parser p")
  case ParserPop
  with assms fits_pop [of "pl_raw_queue p"] show ?thesis
    by (auto simp: run_parser_stage_def index_inv_def split: option.splits sum.splits prod.splits)
next
  case (ParserPush t i)
  then obtain ok q where push: "bq_push t (shard_queue p i) = Some (ok, q)"
    "p' = (set_shard_queue i q p)\<lparr>pl_parser := ParserPop\<rparr>"
    using assms(2) by (auto simp: run_parser_stage_def split: option.splits)
  with assms(1) fits_push [OF _ push(1)] show ?thesis
    by (auto simp: index_inv_def)
qed (use assms(2) in \<open>simp_all add: run_parser_stage_def\<close>)

lemma index_aggregation:
  assumes "stages_inv p" and "index_inv W p" and "run_aggregation_stage i p = Some p'"
  shows "index_inv W p'"
proof -
  have i: "i < length (pl_aggs p)" "i < length (pl_shards p)"
    using assms(1,3) by (auto simp: run_aggregation_stage_def stages_defs split: if_splits)
  with assms(2,3) fits_pop [of "shard_queue p i"] show ?thesis
    by (cases "pl_aggs p ! i")
      (auto simp: run_aggregation_stage_def index_inv_def split: option.splits prod.splits if_splits)
qed

lemma index_writer:
  assumes "index_inv W p" and "run_writer_stage put now p = Some (e, p')"
  shows "index_inv W p'"
  using assms
  by (cases "pl_writer p")
    (auto simp: run_writer_stage_def index_inv_def window_start_def window_start_aligned split: if_splits prod.splits)

lemma index_stop:
  assumes "index_inv W p" and "stop put p = Some (e, p')"
  shows "index_inv W p'"
  using assms
  by (cases "pl_stopper p") (auto simp: stop_def index_inv_def split: if_splits prod.splits)

lemma index_step:
  assumes "stages_inv p" and "index_inv W p" and "pipeline_step J hash put act p = Some (e, p')"
  shows "index_inv W p'"
proof -
  have run: "\<not> pl_terminated p"
    using assms(3) by (auto simp: pipeline_step_def)
  show ?thesis
  proof (cases act)
    case Start
    with assms(2,3) run show ?thesis
      by (auto simp: pipeline_step_def start_def index_inv_def split: if_splits)
  next
    case (Submit m)
    with assms(2,3) run fits_push [of "pl_raw_queue p" m] show ?thesis
      by (auto simp: pipeline_step_def submit_raw_message_def index_inv_def split: option.splits)
  next
    case ParserRuns
    with assms(2,3) run index_parser show ?thesis by (auto simp: pipeline_step_def)
  next
    case (AggregatorRuns i)
    with assms run index_aggregation show ?thesis by (auto simp: pipeline_step_def)
  next
    case (WriterRuns now)
    with assms(3) run have "run_writer_stage put now p = Some (e, p')" by (simp add: pipeline_step_def)
    then show ?thesis by (rule index_writer [OF assms(2)])
  next
    case StopRuns
    with assms(3) run have "stop put p = Some (e, p')" by (simp add: pipeline_step_def)
    then show ?thesis by (rule index_stop [OF assms(2)])
  qed
qed

lemma run_index:
  assumes "pipeline_run J hash put (MarketDataPipeline_new W interval capacity sink threads) es p"
  shows "index_inv W p"
  using assms
proof (induction rule: pipeline_run.induct)
  case (run_step es p act e p')
  from index_step [OF run_stages [OF run_step(1)] run_step(3,2)] show ?case .
qed (simp add: index_inv_def MarketDataPipeline_new_def Let_def Shard_new_def)

section \<open>Properties\<close>

text \<open>
  C11: the state is always well-formed. In every state that any interleaving reaches, with any
  number of threads and any capacities: there is a shard, and a running aggregation thread for
  each once the pipeline is started; the shard the parser pushes to and the positions of the writer
  and of \<^verbatim>\<open>stop\<close> in the vectors are in range; no queue holds more than its capacity; the maps of every
  aggregator are sorted, without empty entries, and for the configured window size. Every window
  handed to the sink is well-formed: aligned start, consistent counts, minimum at most maximum.
\<close>

theorem pipeline_well_formed:
  assumes "pipeline_run J hash put (MarketDataPipeline_new W interval capacity sink threads) es p" and "W \<noteq> 0"
  shows "pipeline_wf W p \<and> list_all (window_wf W) (flushed_windows es)"
proof
  note stages = run_stages [OF assms(1)] and index = run_index [OF assms(1)]
  obtain gs hs where A: "shards_hold W hs p" "grouped (trade_key W) gs"
    "mset (flushed_windows es) + batch p = summaries gs"
    using run_account [OF assms] by (auto simp: account_def)
  have "shard_wf W (pl_shards p ! i)" if "i < length (pl_shards p)" for i
    using that shards_hold_nth(1,2) [OF A(1) that] index stages
    by (simp add: shard_wf_def store_rep_def represents_def index_inv_def stages_defs)
  then have "list_all (shard_wf W) (pl_shards p)"
    by (simp add: list_all_length)
  moreover have "parser_in_range (length (pl_shards p)) (pl_parser p)"
    using stages by (cases "pl_parser p") (simp_all add: stages_defs)
  ultimately show "pipeline_wf W p"
    using stages index by (auto simp: pipeline_wf_def index_inv_def stages_defs)
  have "set (flushed_windows es) \<subseteq> set_mset (summaries gs)"
    using A(3) by (metis mset_subset_eq_add_left set_mset_mono set_mset_mset)
  moreover have "window_wf W s" if "s \<in># summaries gs" for s
    using that A(2) by (auto simp: summaries_def grouped_def intro!: summary_wf)
  ultimately show "list_all (window_wf W) (flushed_windows es)"
    by (auto simp: list_all_iff)
qed

theorem pipeline_well_formed_witness:
  "\<exists>es p. pipeline_run sample_lib (\<lambda>s. 0) null_sink (MarketDataPipeline_new 1000 5000 16 () 2) es p
     \<and> pl_stopper p = Stopped \<and> length (flushed_windows es) = 2
     \<and> pipeline_wf 1000 p \<and> list_all (window_wf 1000) (flushed_windows es)"
proof -
  obtain es p where run: "run_actions sample_lib (\<lambda>s. 0) null_sink example_schedule
      (MarketDataPipeline_new 1000 5000 16 () 2) = Some (es, p)"
    "length (flushed_windows es) = 2" "pl_stopper p = Stopped"
    using example_run by blast
  note reach = run_actions_run [OF run(1) run_start, simplified]
  from pipeline_well_formed [OF reach] reach run show ?thesis by auto
qed

end
