(* ===== verification/Output_Reader.thy ===== *)
theory Output_Reader
  imports MarketDataPipeline "HOL-Library.Monad_Syntax"
begin

text \<open>
  What a reader finds in the output file. \<open>read_output\<close> takes a text of the documented format apart
  again, line by line, with the program's own \<^verbatim>\<open>Decimal::parse\<close> for the decimal fields; it is the
  specification of the format, not part of the program. It inverts the serializer on every
  sequence of blocks, so the file as a whole determines the windows that were written, and where
  one block ends is never in doubt. This needs symbols without blanks and newlines, which neither
  the parser nor the serializer enforces: the last property is a text with two meanings.
\<close>

section \<open>Reading\<close>

fun split_at :: "char \<Rightarrow> string \<Rightarrow> string list" where
  "split_at c [] = [[]]"
| "split_at c (x # xs) =
     (if x = c then [] # split_at c xs
      else (case split_at c xs of [] \<Rightarrow> [[x]] | f # fs \<Rightarrow> (x # f) # fs))"

fun strip_key :: "string \<Rightarrow> string \<Rightarrow> string option" where
  "strip_key [] s = Some s"
| "strip_key (k # ks) [] = None"
| "strip_key (k # ks) (x # xs) = (if k = x then strip_key ks xs else None)"

definition read_u64 :: "string \<Rightarrow> u64 option" where
  "read_u64 s =
     (if s \<noteq> [] \<and> list_all isdigit s \<and> digits_value s < 2 ^ 64 then Some (of_nat (digits_value s)) else None)"

definition read_decimal :: "string \<Rightarrow> decimal option" where
  "read_decimal s = (case Decimal_parse s of Inl error \<Rightarrow> None | Inr d \<Rightarrow> Some d)"

definition read_window :: "string \<Rightarrow> WindowStats option" where
  "read_window line =
     (case split_at (CHR '' '') line of
        [f1, f2, f3, f4, f5, f6, f7] \<Rightarrow>
          do {
            symbol \<leftarrow> strip_key ''symbol='' f1;
            trades \<leftarrow> Option.bind (strip_key ''trades='' f2) read_u64;
            volume \<leftarrow> Option.bind (strip_key ''volume='' f3) read_decimal;
            least \<leftarrow> Option.bind (strip_key ''min='' f4) read_decimal;
            greatest \<leftarrow> Option.bind (strip_key ''max='' f5) read_decimal;
            buy \<leftarrow> Option.bind (strip_key ''buy='' f6) read_u64;
            sell \<leftarrow> Option.bind (strip_key ''sell='' f7) read_u64;
            Some \<lparr>ws_symbol = symbol, ws_window_start_ms = 0, ws_trade_count = trades,
              ws_total_volume = volume, ws_min_price = least, ws_max_price = greatest,
              ws_buyer_initiated_count = buy, ws_seller_initiated_count = sell\<rparr>
          }
      | _ \<Rightarrow> None)"

text \<open>Numbers, each followed by its separator; and the seconds since 1970 of a UTC date and time.\<close>

fun read_numbers :: "string \<Rightarrow> string \<Rightarrow> nat list option" where
  "read_numbers [] s = (if s = [] then Some [] else None)"
| "read_numbers (c # cs) s =
     (case dropWhile isdigit s of
        [] \<Rightarrow> None
      | d # r \<Rightarrow> if d = c then map_option (\<lambda>ns. digits_value (takeWhile isdigit s) # ns) (read_numbers cs r)
                 else None)"

definition read_time :: "string \<Rightarrow> nat option" where
  "read_time s =
     (case read_numbers ''--T::Z'' s of
        Some [y, mon, d, h, m, sec] \<Rightarrow>
          Some (nat (day_number y (mon - 1) d * 86400 + int (h * 3600 + m * 60 + sec)))
      | _ \<Rightarrow> None)"

lemma dropWhile_shorter: "dropWhile P xs = y # ys \<Longrightarrow> length ys < Suc (length xs)"
  by (metis length_Cons length_dropWhile_le less_Suc_eq_le Suc_leD)

function read_blocks :: "string list \<Rightarrow> (nat \<times> WindowStats list) list option" where
  "read_blocks [] = Some []"
| "read_blocks (header # lines) =
     do {
       seconds \<leftarrow> Option.bind (strip_key ''timestamp='' header) read_time;
       windows \<leftarrow> those (map read_window (takeWhile (\<lambda>l. l \<noteq> []) lines));
       rest \<leftarrow> (case dropWhile (\<lambda>l. l \<noteq> []) lines of [] \<Rightarrow> None | blank # rest \<Rightarrow> read_blocks rest);
       Some ((seconds, windows) # rest)
     }"
  by pat_completeness auto
termination
  by (relation "measure length") (simp_all add: dropWhile_shorter)

definition read_output :: "string \<Rightarrow> (nat \<times> WindowStats list) list option" where
  "read_output text =
     (let lines = split_at (CHR 0x0A) text
      in if last lines = [] then read_blocks (butlast lines) else None)"

section \<open>The parts of a line\<close>

lemma split_at_last [simp]: "c \<notin> set x \<Longrightarrow> split_at c x = [x]"
  by (induction x) auto

lemma split_at_append [simp]: "c \<notin> set x \<Longrightarrow> split_at c (x @ c # r) = x # split_at c r"
  by (induction x) auto

lemma strip_key_append [simp]: "strip_key k (k @ s) = Some s"
  by (induction k) auto

lemma read_u64_inverse [simp]: "read_u64 (u64_to_string w) = Some w"
  using unsigned_less [of w, where ?'a = nat]
  by (simp add: read_u64_def u64_to_string_def)

lemma read_decimal_inverse [simp]: "read_decimal (Decimal_to_string d) = Some d"
  using to_string_denotes [of d, folded Decimal_parse_Inr_iff] by (simp add: read_decimal_def)

lemma field_chars_no_blank: "list_all field_char s \<Longrightarrow> CHR '' '' \<notin> set s \<and> CHR 0x0A \<notin> set s"
  by (auto simp: list_all_iff field_char_def)


definition window_text :: "WindowStats \<Rightarrow> string" where
  "window_text w = butlast (window_line w)"

lemma window_line_text: "window_line w = window_text w @ [CHR 0x0A]"
  unfolding window_text_def by (subst append_butlast_last_id [symmetric]) (simp_all add: window_line_def)

lemma window_text_eq:
  "window_text w = ''symbol='' @ ws_symbol w @ CHR '' '' # ''trades='' @ u64_to_string (ws_trade_count w)
     @ CHR '' '' # ''volume='' @ Decimal_to_string (ws_total_volume w)
     @ CHR '' '' # ''min='' @ Decimal_to_string (ws_min_price w)
     @ CHR '' '' # ''max='' @ Decimal_to_string (ws_max_price w)
     @ CHR '' '' # ''buy='' @ u64_to_string (ws_buyer_initiated_count w)
     @ CHR '' '' # ''sell='' @ u64_to_string (ws_seller_initiated_count w)"
  by (simp add: window_text_def window_line_def butlast_append)

lemma numbers_no_separators [simp]:
  "CHR '' '' \<notin> set (u64_to_string n)" "CHR 0x0A \<notin> set (u64_to_string n)"
  "CHR '' '' \<notin> set (Decimal_to_string d)" "CHR 0x0A \<notin> set (Decimal_to_string d)"
  using numbers_field_chars field_chars_no_blank by blast+

lemma read_window_inverse:
  assumes "plain_symbol w"
  shows "read_window (window_text w) = Some (shown w)"
proof -
  have "CHR '' '' \<notin> set (ws_symbol w)"
    using assms field_chars_no_blank by (auto simp: plain_symbol_def)
  then have "split_at (CHR '' '') (window_text w) =
      [''symbol='' @ ws_symbol w, ''trades='' @ u64_to_string (ws_trade_count w),
       ''volume='' @ Decimal_to_string (ws_total_volume w), ''min='' @ Decimal_to_string (ws_min_price w),
       ''max='' @ Decimal_to_string (ws_max_price w), ''buy='' @ u64_to_string (ws_buyer_initiated_count w),
       ''sell='' @ u64_to_string (ws_seller_initiated_count w)]"
    by (simp add: window_text_eq)
  then show ?thesis
    by (cases w) (simp add: read_window_def shown_def del: append_Cons)
qed

section \<open>The time\<close>

lemma read_numbers_append [simp]:
  assumes "list_all isdigit x" and "\<not> isdigit c"
  shows "read_numbers (c # cs) (x @ c # r) = map_option (\<lambda>ns. digits_value x # ns) (read_numbers cs r)"
proof -
  have "takeWhile isdigit (x @ c # r) = x" "dropWhile isdigit (x @ c # r) = c # r"
    using assms by (simp_all add: list_all_iff takeWhile_append dropWhile_append)
  then show ?thesis by simp
qed

lemma read_time_inverse:
  assumes "utc_of t seconds"
  shows "read_time (iso8601_text t) = Some seconds"
proof -
  have "\<not> isdigit (CHR ''-'')" "\<not> isdigit (CHR ''T'')" "\<not> isdigit (CHR '':'')" "\<not> isdigit (CHR ''Z'')"
    by (simp_all add: isdigit_def)
  then have "read_numbers ''--T::Z'' (iso8601_text t) =
      Some [tm_year t + 1900, tm_mon t + 1, tm_mday t, tm_hour t, tm_min t, tm_sec t]"
    by (simp add: iso8601_text_def del: read_numbers.simps(2))
  with assms show ?thesis
    by (simp add: read_time_def utc_of_def)
qed

section \<open>The blocks\<close>

text \<open>The lines of a block, the blank one at its end included, and of a sequence of blocks.\<close>

definition header_text :: "StatsSnapshot \<Rightarrow> string" where
  "header_text snap = ''timestamp='' @ the (format_iso8601_utc (snap_window_start_ms snap))"

definition block_lines :: "StatsSnapshot \<Rightarrow> string list" where
  "block_lines snap = header_text snap # map window_text (snap_windows snap) @ [[]]"

text \<open>What the reader makes of a block.\<close>

definition read_snapshot :: "StatsSnapshot \<Rightarrow> nat \<times> WindowStats list" where
  "read_snapshot s = (unat (snap_window_start_ms s) div 1000, map shown (snap_windows s))"

definition readable :: "StatsSnapshot \<Rightarrow> bool" where
  "readable snap \<longleftrightarrow> snap_windows snap \<noteq> [] \<and> list_all plain_symbol (snap_windows snap)"

lemma serialize_lines:
  assumes "snap_windows snap \<noteq> []"
  shows "serialize snap = Some (concat (map (\<lambda>l. l @ [CHR 0x0A]) (block_lines snap)))"
proof -
  obtain t where "format_iso8601_utc (snap_window_start_ms snap) = Some (iso8601_text t)"
    by (rule format_iso8601_utc_some)
  moreover have "concat (map window_line ws) = concat (map (\<lambda>l. l @ [CHR 0x0A]) (map window_text ws))" for ws
    by (induction ws) (simp_all add: window_line_text)
  ultimately show ?thesis
    using assms by (simp add: serialize_eq block_lines_def header_text_def)
qed

lemma read_header: "Option.bind (strip_key ''timestamp='' (header_text snap)) read_time
    = Some (unat (snap_window_start_ms snap) div 1000)"
proof -
  obtain t where "format_iso8601_utc (snap_window_start_ms snap) = Some (iso8601_text t)"
    "utc_of t (unat (snap_window_start_ms snap) div 1000)"
    by (rule format_iso8601_utc_some)
  then show ?thesis
    by (simp add: header_text_def read_time_inverse del: append_Cons)
qed

lemma window_text_nonempty [simp]: "window_text w \<noteq> []"
  by (simp add: window_text_eq)

lemma read_windows:
  "list_all plain_symbol ws \<Longrightarrow> those (map read_window (map window_text ws)) = Some (map shown ws)"
  by (induction ws) (simp_all add: read_window_inverse)

lemma block_spans:
  "takeWhile (\<lambda>l. l \<noteq> []) (map window_text ws @ [] # r) = map window_text ws"
  "dropWhile (\<lambda>l. l \<noteq> []) (map window_text ws @ [] # r) = [] # r"
  by (simp_all add: takeWhile_append dropWhile_append)

lemma read_blocks_inverse:
  assumes "list_all readable snaps"
  shows "read_blocks (concat (map block_lines snaps))
     = Some (map read_snapshot snaps)"
  using assms
proof (induction snaps)
  case (Cons snap snaps)
  let ?rest = "concat (map block_lines snaps)"
  have "concat (map block_lines (snap # snaps)) = header_text snap # map window_text (snap_windows snap) @ [] # ?rest"
    by (simp add: block_lines_def)
  with Cons show ?case
    by (simp add: read_header block_spans read_windows readable_def read_snapshot_def del: map_map)
qed simp

lemma split_at_lines:
  assumes "\<forall>l \<in> set ls. c \<notin> set l"
  shows "split_at c (concat (map (\<lambda>l. l @ [c]) ls)) = ls @ [[]]"
  using assms by (induction ls) simp_all

lemma block_lines_no_newline:
  assumes "readable snap" and "l \<in> set (block_lines snap)"
  shows "CHR 0x0A \<notin> set l"
proof -
  obtain t where t: "format_iso8601_utc (snap_window_start_ms snap) = Some (iso8601_text t)"
    by (rule format_iso8601_utc_some)
  have "CHR 0x0A \<notin> set (ws_symbol w)" if "w \<in> set (snap_windows snap)" for w
    using that assms(1) field_chars_no_blank by (auto simp: readable_def plain_symbol_def list_all_iff)
  then have "CHR 0x0A \<notin> set (window_text w)" if "w \<in> set (snap_windows snap)" for w
    using that by (simp add: window_text_eq)
  moreover have "CHR 0x0A \<notin> set (iso8601_text t)"
    using field_chars_no_blank iso8601_text_field_chars by blast
  ultimately show ?thesis
    using assms(2) by (auto simp: block_lines_def header_text_def t)
qed

lemma read_output_inverse:
  assumes "list_all readable snaps" and "map serialize snaps = map Some texts"
  shows "read_output (concat texts)
     = Some (map read_snapshot snaps)"
proof -
  have "concat texts = concat (map (\<lambda>l. l @ [CHR 0x0A]) (concat (map block_lines snaps)))"
    using assms
  proof (induction snaps arbitrary: texts)
    case (Cons snap snaps)
    then obtain t ts where "texts = t # ts" by (cases texts) auto
    with Cons show ?case
      by (auto simp: readable_def serialize_lines)
  qed simp
  moreover have "\<forall>l \<in> set (concat (map block_lines snaps)). CHR 0x0A \<notin> set l"
    using assms(1) block_lines_no_newline by (auto simp: list_all_iff)
  ultimately show ?thesis
    using read_blocks_inverse [OF assms(1)] by (simp add: read_output_def split_at_lines del: map_concat)
qed

section \<open>The blocks of a batch\<close>

definition sorted_snapshot :: "WindowStats list \<Rightarrow> u64 \<Rightarrow> StatsSnapshot" where
  "sorted_snapshot ws w = \<lparr>snap_window_start_ms = w,
     snap_windows = sort_key ws_symbol (filter (\<lambda>x. ws_window_start_ms x = w) ws)\<rparr>"

definition batch_snapshots :: "WindowStats list \<Rightarrow> StatsSnapshot list" where
  "batch_snapshots ws = map (sorted_snapshot ws) (window_starts ws)"

lemma sorted_snapshot_simps [simp]:
  "snap_window_start_ms (sorted_snapshot ws w) = w"
  "mset (snap_windows (sorted_snapshot ws w)) = mset (filter (\<lambda>x. ws_window_start_ms x = w) ws)"
  by (simp_all add: sorted_snapshot_def)

lemma set_window_starts [simp]: "set (window_starts ws) = ws_window_start_ms ` set ws"
  by (simp add: window_starts_def)

lemma sorted_snapshot_set [simp]:
  "set (snap_windows (sorted_snapshot ws w)) = {x \<in> set ws. ws_window_start_ms x = w}"
  by (simp add: sorted_snapshot_def)

lemma sorted_snapshot_nonempty:
  assumes "w \<in> set (window_starts ws)"
  shows "snap_windows (sorted_snapshot ws w) \<noteq> []"
proof -
  have "set (snap_windows (sorted_snapshot ws w)) \<noteq> {}"
    unfolding sorted_snapshot_set using assms by auto
  then show ?thesis by (metis empty_set)
qed

text \<open>What the file says of a window, and the windows a reader has found, one by one.\<close>

definition entry :: "WindowStats \<Rightarrow> nat \<times> WindowStats" where
  "entry w = (unat (ws_window_start_ms w) div 1000, shown w)"

definition entries :: "(nat \<times> WindowStats list) list \<Rightarrow> (nat \<times> WindowStats) list" where
  "entries bs = concat (map (\<lambda>(seconds, ws). map (Pair seconds) ws) bs)"

lemma entries_append [simp]: "entries (xs @ ys) = entries xs @ entries ys"
  by (simp add: entries_def)

lemma batch_readable:
  assumes "list_all plain_symbol ws"
  shows "list_all readable (batch_snapshots ws)"
  unfolding list_all_iff batch_snapshots_def readable_def
  using assms sorted_snapshot_nonempty by (auto simp: list_all_iff)

lemma batch_serialize: "map serialize (batch_snapshots ws) = map Some (blocks ws)"
proof -
  have "serialize (sorted_snapshot ws w) = Some (block w ws)" if "w \<in> set (window_starts ws)" for w
    using serialize_some [OF sorted_snapshot_nonempty [OF that]] by (auto simp: block_def sorted_snapshot_def)
  then show ?thesis
    by (simp add: blocks_def batch_snapshots_def)
qed

lemma snapshot_entries:
  "mset (entries [read_snapshot (sorted_snapshot ws w)])
     = image_mset entry (mset (filter (\<lambda>x. ws_window_start_ms x = w) ws))"
proof -
  have "mset (entries [read_snapshot (sorted_snapshot ws w)])
      = image_mset (\<lambda>x. (unat w div 1000, shown x)) (mset (filter (\<lambda>x. ws_window_start_ms x = w) ws))"
    by (simp add: entries_def read_snapshot_def image_mset.compositionality comp_def)
  also have "\<dots> = image_mset entry (mset (filter (\<lambda>x. ws_window_start_ms x = w) ws))"
    by (rule image_mset_cong) (auto simp: entry_def)
  finally show ?thesis .
qed

lemma batch_entries: "mset (entries (map read_snapshot (batch_snapshots ws))) = mset (map entry ws)"
proof -
  let ?at = "\<lambda>w. filter (\<lambda>x. ws_window_start_ms x = w) ws"
  have "mset (entries (map read_snapshot (map (sorted_snapshot ws) vs)))
      = image_mset entry (mset (concat (map ?at vs)))" for vs
  proof (induction vs)
    case (Cons v vs)
    have "entries (map read_snapshot (map (sorted_snapshot ws) (v # vs)))
        = entries [read_snapshot (sorted_snapshot ws v)] @ entries (map read_snapshot (map (sorted_snapshot ws) vs))"
      by (simp add: entries_def)
    with Cons snapshot_entries [of ws v] show ?case by simp
  qed (simp add: entries_def)
  moreover have "mset (concat (map ?at (window_starts ws))) = mset ws"
    by (subst mset_concat_groups) (simp_all add: window_starts_def filter_mset_eq_conv)
  ultimately show ?thesis
    by (simp add: batch_snapshots_def)
qed

lemma batches_read:
  assumes "\<forall>ws \<in> set batches. list_all plain_symbol ws"
  shows "\<exists>bs. read_output (concat (concat (map blocks batches))) = Some bs
     \<and> mset (entries bs) = mset (map entry (concat batches))"
proof -
  let ?snaps = "concat (map batch_snapshots batches)"
  have "map serialize ?snaps = map Some (concat (map blocks batches))"
    by (induction batches) (simp_all add: batch_serialize)
  moreover have "list_all readable ?snaps"
    using assms batch_readable by (fastforce simp: list_all_iff)
  ultimately have "read_output (concat (concat (map blocks batches)))
      = Some (map read_snapshot ?snaps)"
    by (rule read_output_inverse [rotated])
  moreover have "mset (entries (map read_snapshot ?snaps))
      = mset (map entry (concat batches))"
    by (induction batches) (simp_all add: batch_entries entries_def [of "[]"])
  ultimately show ?thesis by blast
qed

section \<open>Properties\<close>

text \<open>
  C34: the output can be read back. Whatever snapshots are serialized one after the other, as long
  as each has a window and no symbol contains a blank or a newline, the reader recovers from the
  text exactly their sequence: for each block the second in which its windows start and, in order, every
  statistic of every window.
\<close>

theorem output_readable:
  assumes "list_all readable snaps" and "map serialize snaps = map Some texts"
  shows "read_output (concat texts)
     = Some (map (\<lambda>s. (unat (snap_window_start_ms s) div 1000, map shown (snap_windows s))) snaps)"
  using read_output_inverse [OF assms] by (simp add: read_snapshot_def comp_def)

text \<open>
  A symbol can forge a window. Nothing between the JSON text of a message and the file checks
  the characters of a symbol. For any two windows there is a single window, that of a suitable symbol
  with the second one's statistics, whose block is the same text as the block of the two.
\<close>

theorem serialize_forged_symbol:
  "serialize \<lparr>snap_window_start_ms = s, snap_windows =
       [w\<lparr>ws_symbol := drop 7 (window_line v) @ ''symbol='' @ ws_symbol w\<rparr>]\<rparr>
     = serialize \<lparr>snap_window_start_ms = s, snap_windows = [v, w]\<rparr>"
  by (simp add: serialize_eq window_line_def)

text \<open>The documented example, read.\<close>

theorem output_readable_witness:
  "read_output (''timestamp=2026-01-12T14:23:20Z'' @ [CHR 0x0A]
     @ ''symbol=BTCUSDT trades=154 volume=23.51 min=43012.1 max=43189.4 buy=82 sell=72'' @ [CHR 0x0A, CHR 0x0A])
     = Some [(1768227800, map shown (snap_windows example_snapshot))]
   \<and> snap_windows example_snapshot \<noteq> []"
proof -
  have "snap_windows example_snapshot \<noteq> []" "list_all readable [example_snapshot]"
    by (simp_all add: example_snapshot_def readable_def plain_symbol_def field_char_def)
  moreover from output_readable [OF this(2), of "[the (serialize example_snapshot)]"]
  have "read_output (the (serialize example_snapshot)) = Some [(1768227800, map shown (snap_windows example_snapshot))]"
    by (simp add: example_block) (simp add: example_snapshot_def)
  ultimately show ?thesis
    by (simp add: example_block)
qed

end
