(* ===== verification/Unit_Tests.thy ===== *)
theory Unit_Tests
  imports StatsSerializer BinanceTradeParser NetworkStage CliOptions
begin

text \<open>
  The repository's unit tests, run on the model: each lemma has the name and the expectations of a
  test file under \<^verbatim>\<open>tests/unit\<close>, evaluated in the logic. This says nothing beyond the inputs of the
  tests, but it ties the definitions to what the authors expect of the code. Left out are the tests that need a
  file, a clock or a second thread, and those of JSON texts, which are the library's to parse.
\<close>

definition rejected :: "string \<Rightarrow> bool" where
  "rejected s = (case Decimal_parse s of Inl error \<Rightarrow> True | Inr d \<Rightarrow> False)"

definition dec :: "string \<Rightarrow> decimal" where
  "dec s = (case Decimal_parse s of Inl error \<Rightarrow> from_raw 0 | Inr d \<Rightarrow> d)"

lemmas parse_exec = dec_def rejected_def Decimal_parse_def parse_unsigned_def parse_fraction_def
  scale_fraction_eq kScale_def kScaleFactor_def isdigit_def digit_value_def

lemma DecimalTest_values:
  "dec ''1000'' = from_raw 100000000000" "dec ''43012.10'' = from_raw 4301210000000" "dec ''0.00000001'' = from_raw 1"
  "dec ''23.510000'' = from_raw 2351000000" "dec ''0.5'' = from_raw 50000000" "dec ''1.5'' = from_raw 150000000"
  "dec ''2.25'' = from_raw 225000000"
  by (simp_all add: parse_exec)

lemma DecimalTest:
  "Decimal_to_string (dec ''1000'') = ''1000''" "Decimal_to_string (dec ''43012.10'') = ''43012.1''"
  "Decimal_to_string (dec ''0.00000001'') = ''0.00000001''" "Decimal_to_string (dec ''23.510000'') = ''23.51''"
  "Decimal_to_string (Decimal_mul (dec ''43012.10'') (dec ''0.5'')) = ''21506.05''"
  "Decimal_to_string (Decimal_add (dec ''1.5'') (dec ''2.25'')) = ''3.75''"
  unfolding DecimalTest_values by code_simp+

lemma DecimalTest_rejects:
  "rejected []" "rejected ''abc''" "rejected ''12.''" "rejected ''.5''" "rejected ''0.123456789''" "rejected ''1.5x''"
  by (simp_all add: parse_exec)

section \<open>Aggregator\<close>

definition make_trade :: "string \<Rightarrow> u64 \<Rightarrow> string \<Rightarrow> string \<Rightarrow> u64 \<Rightarrow> bool \<Rightarrow> TradeEvent" where
  "make_trade symbol trade_id price quantity trade_time_ms buyer_is_maker =
     \<lparr>te_symbol = symbol, te_trade_id = trade_id, te_price = dec price, te_quantity = dec quantity,
      te_trade_time_ms = trade_time_ms, te_buyer_is_maker = buyer_is_maker\<rparr>"

definition aggregated :: "TradeEvent list \<Rightarrow> MarketDataAggregator" where
  "aggregated ts = the (add_trades (MarketDataAggregator_new 1000) ts)"

lemma dec_values:
  "dec ''100.0'' = from_raw 10000000000" "dec ''110.0'' = from_raw 11000000000" "dec ''50.0'' = from_raw 5000000000"
  "dec ''200.0'' = from_raw 20000000000" "dec ''10.0'' = from_raw 1000000000" "dec ''12.0'' = from_raw 1200000000"
  "dec ''1.0'' = from_raw 100000000" "dec ''2.0'' = from_raw 200000000" "dec ''3.0'' = from_raw 300000000"
  "dec ''5.0'' = from_raw 500000000"
  by (simp_all add: parse_exec)

lemma product_values:
  "Decimal_mul (from_raw 10000000000) (from_raw 100000000) = from_raw 10000000000"
  "Decimal_mul (from_raw 5000000000) (from_raw 100000000) = from_raw 5000000000"
  "Decimal_mul (from_raw 20000000000) (from_raw 100000000) = from_raw 20000000000"
  "Decimal_mul (from_raw 1000000000) (from_raw 100000000) = from_raw 1000000000"
  "Decimal_mul (from_raw 1200000000) (from_raw 100000000) = from_raw 1200000000"
  "Decimal_mul (from_raw 11000000000) (from_raw 200000000) = from_raw 22000000000"
  "Decimal_mul (from_raw 1000000000) (from_raw 500000000) = from_raw 5000000000"
  "Decimal_mul (from_raw 1000000000) (from_raw 200000000) = from_raw 2000000000"
  "Decimal_mul (from_raw 500000000) (from_raw 300000000) = from_raw 1500000000"
  by code_simp+

lemma printed_values:
  "Decimal_to_string (from_raw 5000000000) = ''50''" "Decimal_to_string (from_raw 20000000000) = ''200''"
  "Decimal_to_string (from_raw 3500000000) = ''35''"
  by code_simp+

lemmas agg_exec = aggregated_def make_trade_def add_trade_def window_start_def update_stats_def Let_def
  MarketDataAggregator_new_def window_stats_def WindowStats_default_def extract_all_windows_def
  extract_completed_windows_def dec_values product_values printed_values Decimal_add_def Decimal_zero_def
  less_decimal_def Decimal_less_def

lemma MarketDataAggregatorTest_stats:
  "map_option (\<lambda>s. (ws_symbol s, ws_window_start_ms s, ws_trade_count s))
     (window_stats (aggregated [make_trade ''BTCUSDT'' 1 ''100.0'' ''1.0'' 1200 False,
        make_trade ''BTCUSDT'' 2 ''110.0'' ''2.0'' 1500 True]) ''BTCUSDT'' 1000) = Some (''BTCUSDT'', 1000, 2)"
  "map (\<lambda>s. map_option ws_trade_count (window_stats (aggregated
       [make_trade ''BTCUSDT'' 1 ''100.0'' ''1.0'' 1200 False, make_trade ''ETHUSDT'' 1 ''10.0'' ''5.0'' 1300 True,
        make_trade ''ETHUSDT'' 2 ''12.0'' ''1.0'' 1400 True]) s 1000)) [''BTCUSDT'', ''ETHUSDT''] = [Some 1, Some 2]"
  "map (\<lambda>w. map_option ws_trade_count (window_stats (aggregated
       [make_trade ''BTCUSDT'' 1 ''100.0'' ''1.0'' 1500 False, make_trade ''BTCUSDT'' 2 ''100.0'' ''1.0'' 2500 False])
       ''BTCUSDT'' w)) [1000, 2000, 3000] = [Some 1, Some 1, None]"
  "map_option (\<lambda>s. (Decimal_to_string (ws_min_price s), Decimal_to_string (ws_max_price s)))
     (window_stats (aggregated [make_trade ''BTCUSDT'' 1 ''100.0'' ''1.0'' 1000 False,
        make_trade ''BTCUSDT'' 2 ''50.0'' ''1.0'' 1100 False, make_trade ''BTCUSDT'' 3 ''200.0'' ''1.0'' 1200 False])
        ''BTCUSDT'' 1000) = Some (''50'', ''200'')"
  "map_option (\<lambda>s. Decimal_to_string (ws_total_volume s))
     (window_stats (aggregated [make_trade ''BTCUSDT'' 1 ''10.0'' ''2.0'' 1000 False,
        make_trade ''BTCUSDT'' 2 ''5.0'' ''3.0'' 1100 False]) ''BTCUSDT'' 1000) = Some ''35''"
  "map_option (\<lambda>s. (ws_buyer_initiated_count s, ws_seller_initiated_count s))
     (window_stats (aggregated [make_trade ''BTCUSDT'' 1 ''10.0'' ''1.0'' 1000 False,
        make_trade ''BTCUSDT'' 2 ''10.0'' ''1.0'' 1100 False, make_trade ''BTCUSDT'' 3 ''10.0'' ''1.0'' 1200 True])
        ''BTCUSDT'' 1000) = Some (2, 1)"
  "window_stats (aggregated []) ''BTCUSDT'' 1000 = None \<and> fst (extract_all_windows (aggregated [])) = []"
  by (simp_all add: agg_exec)

lemma MarketDataAggregatorTest_extraction:
  "(let (first_flush, agg) = extract_all_windows (aggregated [make_trade ''BTCUSDT'' 1 ''100.0'' ''1.0'' 1000 False]);
        (second_flush, _) = extract_all_windows (the (add_trade agg (make_trade ''BTCUSDT'' 2 ''200.0'' ''1.0'' 1000 False)))
    in map ws_trade_count first_flush = [1]
       \<and> map (\<lambda>s. (ws_trade_count s, Decimal_to_string (ws_total_volume s))) second_flush = [(1, ''200'')])"
  "(let (completed, agg) = extract_completed_windows 3000 (aggregated
          [make_trade ''BTCUSDT'' 1 ''100.0'' ''1.0'' 1000 False, make_trade ''BTCUSDT'' 2 ''100.0'' ''1.0'' 2000 False,
           make_trade ''BTCUSDT'' 3 ''100.0'' ''1.0'' 3000 False])
    in map ws_window_start_ms completed = [1000, 2000]
       \<and> map (\<lambda>w. map_option ws_trade_count (window_stats agg ''BTCUSDT'' w)) [1000, 2000, 3000] = [None, None, Some 1])"
  "(let (completed, agg) = extract_completed_windows 2000 (aggregated
          [make_trade ''BTCUSDT'' 1 ''100.0'' ''1.0'' 1000 False, make_trade ''ETHUSDT'' 1 ''10.0'' ''1.0'' 2000 False])
    in map ws_symbol completed = [''BTCUSDT''] \<and> window_stats agg ''ETHUSDT'' 2000 \<noteq> None)"
  "(let (completed, agg) = extract_completed_windows 5000 (aggregated [make_trade ''BTCUSDT'' 1 ''100.0'' ''1.0'' 5000 False])
    in completed = [] \<and> window_stats agg ''BTCUSDT'' 5000 \<noteq> None)"
  by (simp_all add: agg_exec)

section \<open>Serializer\<close>

text \<open>The documented block with two symbols; for one symbol see \<open>example_block\<close>.\<close>

definition make_window :: "string \<Rightarrow> u64 \<Rightarrow> decimal \<Rightarrow> decimal \<Rightarrow> decimal \<Rightarrow> u64 \<Rightarrow> u64 \<Rightarrow> WindowStats" where
  "make_window symbol trades volume min_price max_price buy sell = WindowStats_default\<lparr>ws_symbol := symbol,
     ws_trade_count := trades, ws_total_volume := volume, ws_min_price := min_price,
     ws_max_price := max_price, ws_buyer_initiated_count := buy, ws_seller_initiated_count := sell\<rparr>"

lemma StatsSerializerTest_lines:
  "window_line (make_window ''BTCUSDT'' 154 (from_raw 2351000000) (from_raw 4301210000000) (from_raw 4318940000000) 82 72)
     = ''symbol=BTCUSDT trades=154 volume=23.51 min=43012.1 max=43189.4 buy=82 sell=72'' @ [CHR 0x0A]"
  "window_line (make_window ''ETHUSDT'' 231 (from_raw 11270000000) (from_raw 228920000000) (from_raw 230180000000) 120 111)
     = ''symbol=ETHUSDT trades=231 volume=112.7 min=2289.2 max=2301.8 buy=120 sell=111'' @ [CHR 0x0A]"
  "window_line (make_window ''BTCUSDT'' 1 (from_raw 100000000) (from_raw 100000000) (from_raw 100000000) 1 0)
     = ''symbol=BTCUSDT trades=1 volume=1 min=1 max=1 buy=1 sell=0'' @ [CHR 0x0A]"
  by code_simp+

lemma StatsSerializerTest:
  "serialize \<lparr>snap_window_start_ms = 1768227800000, snap_windows =
       [make_window ''BTCUSDT'' 154 (from_raw 2351000000) (from_raw 4301210000000) (from_raw 4318940000000) 82 72,
        make_window ''ETHUSDT'' 231 (from_raw 11270000000) (from_raw 228920000000) (from_raw 230180000000) 120 111]\<rparr>
     = Some (''timestamp=2026-01-12T14:23:20Z'' @ [CHR 0x0A]
         @ ''symbol=BTCUSDT trades=154 volume=23.51 min=43012.1 max=43189.4 buy=82 sell=72'' @ [CHR 0x0A]
         @ ''symbol=ETHUSDT trades=231 volume=112.7 min=2289.2 max=2301.8 buy=120 sell=111'' @ [CHR 0x0A, CHR 0x0A])"
  "serialize \<lparr>snap_window_start_ms = 1768227800000, snap_windows = []\<rparr> = Some []"
  "serialize \<lparr>snap_window_start_ms = 1768227800000, snap_windows = [make_window ''BTCUSDT'' 1 (from_raw 100000000) (from_raw 100000000) (from_raw 100000000) 1 0]\<rparr>
     = Some (''timestamp=2026-01-12T14:23:20Z'' @ [CHR 0x0A]
         @ ''symbol=BTCUSDT trades=1 volume=1 min=1 max=1 buy=1 sell=0'' @ [CHR 0x0A, CHR 0x0A])"
  by (simp_all add: serialize_eq example_timestamp StatsSerializerTest_lines)

section \<open>Parser\<close>

text \<open>
  The payloads of the rejected test messages as JSON values; the accepted ones are \<open>sample_payload\<close> with
  and without its envelope.
\<close>

definition payload :: "string \<Rightarrow> string \<Rightarrow> string \<Rightarrow> bool \<Rightarrow> json_value" where
  "payload e p q m = JObject [(''e'', JString e), (''s'', JString ''BTCUSDT''), (''t'', JUnsigned 12345),
     (''p'', JString p), (''q'', JString q), (''T'', JUnsigned 123456785), (''m'', JBool m)]"

definition parsed :: "json_value \<Rightarrow> TradeEvent option" where
  "parsed j = (case BinanceTradeParser_parse (table_json [(''x'', j)]) ''x'' of Inl error \<Rightarrow> None | Inr r \<Rightarrow> r)"

lemma BinanceTradeParserTest_rejects:
  "BinanceTradeParser_parse (table_json []) ''{not valid json'' = Inr None"
  "BinanceTradeParser_parse (table_json [(''x'', JObject [(''e'', JString ''trade''), (''s'', JString ''BTCUSDT''),
     (''t'', JUnsigned 12345), (''p'', JString ''43012.10''), (''T'', JUnsigned 123456785), (''m'', JBool True)])]) ''x'' = Inr None"
  "parsed (payload ''trade'' ''not-a-number'' ''0.5'' True) = None"
  "parsed (payload ''trade'' ''43012.10'' ''12.3.4'' True) = None"
  "parsed (payload ''kline'' ''43012.10'' ''0.5'' True) = None"
  by code_simp+

section \<open>Options, stream target, connection errors\<close>

lemma CliOptionsTest:
  "parse_cli_options [''binance_aggregator''] = Inr \<lparr>cli_config_path = ''config/config.json''\<rparr>"
  "parse_cli_options [''binance_aggregator'', ''--config'', ''custom.json''] = Inr \<lparr>cli_config_path = ''custom.json''\<rparr>"
  "parse_cli_options [''binance_aggregator'', ''--config=custom.json''] = Inr \<lparr>cli_config_path = ''custom.json''\<rparr>"
  "\<exists>error. parse_cli_options [''binance_aggregator'', ''--config''] = Inl error"
  by (simp_all add: parse_cli_options_def parse_cli_args.simps CliOptions_default_def kConfigFlag_def
      kConfigFlagWithEquals_def starts_with_def)

lemma BinanceStreamTargetTest:
  "build_combined_stream_target [''BTCUSDT''] = ''/stream?streams=btcusdt@trade''"
  "build_combined_stream_target [''BTCUSDT'', ''ETHUSDT''] = ''/stream?streams=btcusdt@trade/ethusdt@trade''"
  "build_combined_stream_target [] = ''/stream?streams=''"
  by code_simp+

text \<open>In \<^const>\<open>numbered_codes\<close> 1 is a timeout, 2 the end of file, 3 a closed stream, 9 any other error.\<close>

lemma ConnectionErrorTest:
  "classify_error numbered_codes Resolve 9 = DnsFailure"
  "classify_error numbered_codes TcpConnect 9 = TcpConnectFailure"
  "classify_error numbered_codes TlsHandshake 9 = TlsHandshakeFailure"
  "classify_error numbered_codes WebSocketHandshake 9 = WebSocketHandshakeFailure"
  "classify_error numbered_codes Read 2 = ServerDisconnect"
  "classify_error numbered_codes Read 3 = ServerDisconnect"
  "classify_error numbered_codes Read 9 = ReadFailure"
  "classify_error numbered_codes TcpConnect 1 = Timeout" "classify_error numbered_codes Read 1 = Timeout"
  "classify_error numbered_codes Read 0 = Unknown"
  by (simp_all add: classify_error_def numbered_codes_def)

section \<open>Reconnect policy\<close>

definition policy :: "u64 \<Rightarrow> u64 \<Rightarrow> ReconnectPolicy" where
  "policy initial_backoff_ms max_backoff_ms = ReconnectPolicy_new \<lparr>rc_initial_backoff_ms = initial_backoff_ms,
     rc_max_backoff_ms = max_backoff_ms, rc_jitter_ratio = 0\<rparr>"

lemma double_delay_numeral:
  "double_delay (numeral k) m d = (if d < m then double_delay (pred_numeral k) m (d * 2) else d)"
  by (simp add: numeral_eq_Suc)

lemma ReconnectPolicyTest_base_delay:
  "map (base_delay_for_attempt (policy 500 30000)) [0, 1, 2, 3] = [500, 1000, 2000, 4000]"
  "map (base_delay_for_attempt (policy 1000 3000)) [0, 1, 2, 3, 10] = [1000, 2000, 3000, 3000, 3000]"
  by (simp_all add: base_delay_for_attempt_def policy_def ReconnectPolicy_new_def Let_def
      double_delay_numeral)

lemma ReconnectPolicyTest_wait:
  "(let (_, ok1, p1) = wait_for_next_attempt id (\<lambda>lo hi. lo) False (policy 5 5);
        (_, ok2, p2) = wait_for_next_attempt id (\<lambda>lo hi. lo) False p1
    in current_attempt (policy 5 5) = 0 \<and> ok1 \<and> current_attempt p1 = 1 \<and> ok2 \<and> current_attempt p2 = 2
       \<and> current_attempt (ReconnectPolicy_reset p1) = 0)"
  "(let (_, ok, p) = wait_for_next_attempt id (\<lambda>lo hi. lo) True (policy 10000 10000) in \<not> ok \<and> current_attempt p = 0)"
  "(let (_, ok1, p1) = wait_for_next_attempt id (\<lambda>lo hi. lo) False (ReconnectPolicy_stop (policy 5 5));
        (_, ok2, p2) = wait_for_next_attempt id (\<lambda>lo hi. lo) False (ReconnectPolicy_reset p1)
    in \<not> ok1 \<and> ok2 \<and> current_attempt p2 = 1)"
  by (simp_all add: wait_for_next_attempt_def finish_wait_def current_attempt_def ReconnectPolicy_reset_def
      ReconnectPolicy_stop_def policy_def ReconnectPolicy_new_def Let_def)

end
