(* ===== verification/Spec2Isabelle.thy ===== *)
theory Spec2Isabelle
  imports Program_Exit Pipeline_Typing Output_Reader Unit_Tests
begin

text \<open>
  A verification development for the Binance trade aggregator, a C++20 service that reads
  trades from the exchange's WebSocket stream, aggregates them into windows per symbol and
  appends the statistics of completed windows to a file. Paths below are relative to
  \<^verbatim>\<open>src/app\<close>.

  \<^bold>\<open>The program and its theories.\<close> Data flows from the network thread
  through the raw message queue to the parser thread, from there through one queue per shard to
  the aggregation threads, and from the shards' aggregators through the writer thread (and at the
  end through the stopping thread) to the sink.

    \<^item> \<open>Agg_Prelude\<close>: machine integers, ordered maps (\<^verbatim>\<open>std::map\<close> as a sorted association list), ASCII
      classification, decimal digits, separated lists; shared lemmas.
    \<^item> \<open>Decimal\<close> (\<^verbatim>\<open>util/Decimal\<close>): fixed-point numbers on 64-bit raw values: \<open>Decimal_parse\<close>,
      \<open>Decimal_to_string\<close>, addition, multiplication, order. Round trip, exactness inside the range,
      the accepted language, truncation, and the missing range check.
    \<^item> \<open>TradeEvent\<close>, \<open>Json_Library\<close>, \<open>BinanceTradeParser\<close> (\<^verbatim>\<open>model/TradeEvent\<close>, \<^verbatim>\<open>parse/BinanceTradeParser\<close>): the
      JSON library is the parameter \<open>json_lib\<close> with its documented behaviour \<open>json_documented\<close>; the parser
      returns a trade exactly for the messages that denote one and never throws.
    \<^item> \<open>Window_Store\<close>, \<open>MarketDataAggregator\<close> (\<^verbatim>\<open>aggregation/\<close>): the locale \<open>window_store\<close> says what a store of
      windows promises; its interpretation \<open>agg\<close> is the aggregator. Statistics are the summary of
      exactly the trades of the window, do not depend on the order, and extraction loses nothing.
    \<^item> \<open>StatsSerializer\<close> (\<^verbatim>\<open>output/StatsSerializer\<close>): the text of a snapshot, with \<^verbatim>\<open>gmtime\<close> and \<^verbatim>\<open>strftime\<close>.
    \<^item> \<open>OutputSink\<close> (\<^verbatim>\<open>output/OutputSink\<close>, \<^verbatim>\<open>FileOutputSink\<close>): the interface as the locale \<open>output_sink\<close>, the file
      sink as its interpretation \<open>file_sink\<close>; the device is a parameter that may accept any part of a text.
    \<^item> \<open>Blocking_Queue\<close>, \<open>BoundedQueue\<close> (\<^verbatim>\<open>runtime/BoundedQueue.hpp\<close>): the locale \<open>blocking_queue\<close> and its
      interpretation \<open>bq\<close>; the monitor with its condition variables as a step relation, for lost wakeups.
    \<^item> \<open>MarketDataPipeline\<close> (\<^verbatim>\<open>runtime/MarketDataPipeline\<close>): state and threads of the pipeline (\<open>pipeline_step\<close>,
      \<open>pipeline_run\<close>). On it rest \<open>Pipeline_Shutdown\<close>, the invariant of the shutdown order; \<open>Pipeline_Accounting\<close>,
      where every trade is; \<open>Pipeline_Progress\<close>, what is written, that the threads' flush steps refine the flush
      functions, and that \<^verbatim>\<open>stop\<close> returns; \<open>Pipeline_History\<close>, the sequential history of every shard, the routing
      by symbol, and what follows when no trade comes late (\<open>punctual\<close>): every window once and complete;
      \<open>Pipeline_Typing\<close>, well-formed states: indices in range, capacities kept, aggregators sorted.
    \<^item> \<open>ConfigLoader\<close>, \<open>CliOptions\<close> (\<^verbatim>\<open>config/\<close>, \<^verbatim>\<open>runtime/CliOptions\<close>): the loader with every check and error,
      the argument parser.
    \<^item> \<open>ConnectionError\<close>, \<open>ReconnectPolicy\<close>, \<open>BinanceWebSocketClient\<close> (\<^verbatim>\<open>net/\<close>), \<open>NetworkStage\<close>
      (\<^verbatim>\<open>runtime/NetworkStage\<close>): error classification, backoff and jitter, one connection attempt, the
      reconnect loop and its stop.
    \<^item> \<open>Main_Program\<close> (\<^verbatim>\<open>main.cpp\<close>): start-up (\<open>main_setup\<close>, \<open>wire\<close>) and all threads together (\<open>program_step\<close>,
      \<open>program_run\<close>); every run of the program projects to a run of the pipeline. \<open>Program_Shutdown\<close>: once
      the main thread waits for the network thread, the program exits within a number of steps bounded by the work
      at hand and the messages that still come in. \<open>Program_Exit\<close>: from every state, also after a lost stop, it can exit.
    \<^item> \<open>Output_Reader\<close>: a reader of the output file, as the specification of its format; it inverts the serializer
      on any sequence of blocks, and a symbol with a newline shows what it has to assume.
    \<^item> \<open>Unit_Tests\<close>: expectations of the repository's unit tests, evaluated on the model.
    \<^item> this theory: the properties of the whole program.

  \<^bold>\<open>How threads are modelled.\<close> A step is what a thread does between two points where another
  thread can interfere: a locked section, an atomic access, a queue operation, a library call. A
  call that blocks is a step that is not enabled. Theorems quantify over all sequences of
  steps, so over all interleavings; they assume sequential consistency, which the mutexes and
  the default order of the atomics give. An exception that leaves a thread ends the process
  (\<open>pl_terminated\<close>).

  \<^bold>\<open>Parameters.\<close> The JSON library, \<^verbatim>\<open>std::hash\<close>, the file system and the device, the rounding of doubles
  (\<open>double_rounding\<close>) and the draws of the random distribution (\<open>draws_within\<close>), the error codes of the
  networking library, and the \<^verbatim>\<open>max_size\<close> of the shard vector (\<open>max_shards\<close>). What a network call returns is an
  input of the step that makes the call, and a read may succeed also after the socket was closed, from what the
  libraries have buffered; built in is only that a successful connect leaves the socket open. Every
  theorem with a hypothesis on a parameter has a witness with a concrete instance.

  \<^bold>\<open>Conventions.\<close> Signed overflow in \<^verbatim>\<open>Decimal\<close> (also the negation of the minimum), which C++ leaves undefined, is
  the two's complement result; the value theorems state the range where it does not occur. \<^verbatim>\<open>std::sort\<close> by
  symbol is a stable sort, which differs only for equal symbols in one block, and the aggregators hold each
  symbol once per window. The creation of the threads in \<^verbatim>\<open>start\<close> is one step.

  \<^bold>\<open>Bounds.\<close> No theorem bounds the number of trades, shards, messages or steps. \<open>stop_bound\<close> counts the
  work a stop of the pipeline has left: four steps for a message in the raw queue, down to one for a trade in
  an aggregation thread's hand, and the steps of the threads and of \<^verbatim>\<open>stop\<close> itself; every step of a pipeline
  thread lowers it. Fifteen steps are the longest way of the network thread from the join to its end, a whole
  connection attempt that was already under way, if it receives no message; a message it reads costs two more.
  \<open>shutdown_bound\<close> adds these, five each because a message costs the pipeline four, the second \<^verbatim>\<open>stop\<close> of both stages
  in the destructors and the steps of the main thread; the flushes the writer makes before the pipeline is
  stopped are not counted, since they go on as long as the join takes. The range \<open>2\<^sup>6\<^sup>3\<close> in the value theorems is
  where signed 64-bit arithmetic would overflow; \<open>2\<^sup>5\<^sup>2\<close> in the jitter theorems keeps twice the delay exact in a
  double, and for which maxima the backoff itself is exact is \<open>base_delay_exact_iff\<close>.

  \<^bold>\<open>Not modelled.\<close> Logging (spdlog), the sockets, TLS and HTTP behind Boost.Asio, Boost.Beast and OpenSSL,
  the verification settings of the TLS context, the wall-clock length of waits, memory exhaustion, and
  the failure of a thread to start (of the exceptions of the library the program does not handle, only the
  length error of the shard vector depends on the configuration alone; it is modelled). Tests, build files, scripts and the service unit hold no program logic.

  \<^bold>\<open>Late trades.\<close> The clock of the writer is an input of its steps and need not be close to the exchange's
  time. Without any assumption nothing is lost or counted twice (\<open>program_writes_every_received_trade\<close>), but
  a trade that reaches its shard after a flush has gone beyond its window opens the window again
  (\<open>late_trade_opens_new_window\<close>), as \<^verbatim>\<open>MarketDataAggregator.hpp\<close> says, and the window is written twice
  (\<open>late_trade_splits_window\<close>). \<open>punctual\<close> excludes this and nothing else.

  \<^bold>\<open>Reading the file.\<close> \<open>program_file_readable\<close> composes all parts: what a reader finds in the file after a
  complete run are the statistics of the received trades. Its assumption that symbols contain no blank and
  no newline is not checked by the code and cannot be dropped (\<open>serialize_forged_symbol\<close>).

  \<^bold>\<open>What remains.\<close> Under fairness alone (a server that never closes the connection) a lost stop can block the
  exit for ever (\<open>network_stop_lost\<close>), so the exit after it is shown as possible, not as inevitable. The log
  lines of \<^verbatim>\<open>main\<close> are constant texts and fields of the configuration formatted by the logging library;
  only the texts \<^verbatim>\<open>main.cpp\<close> computes itself are modelled. The remaining lines of the headers are
  declarations whose definitions are modelled, includes and comments.
\<close>

section \<open>From the network to the file\<close>

text \<open>
  C1: the program as a whole loses nothing. Start it on any file system and any arguments for
  which it comes up, let the threads interleave in any way, let the network deliver anything,
  and let a signal end it. When \<^verbatim>\<open>main\<close> has returned and no write has failed, the windows written
  are summaries of groups of trades, each of one symbol and one window of the configured length;
  the groups contain exactly the trades of the messages received from the network, each once;
  and the output file is its old content followed by the blocks of the flushed windows.
\<close>

theorem program_writes_every_received_trade:
  assumes "json_documented J"
    and "main_setup J read_json read_file open_append max_shards argv = Running config g0"
    and "program_run J hash (FileOutputSink_write device) rnd E g0 es g"
    and "pg_main g = MainExit" and "\<not> pl_terminated (pg_pipeline g)"
  shows "\<exists>gs existing. grouped (trade_key (cfg_window_ms config)) gs
     \<and> group_items gs = mset (trades_of J (program_received es))
     \<and> mset (flushed_windows (pipe_events es)) = mset (map (\<lambda>(k, b). summary k b) gs)
     \<and> open_append (cfg_output_file config) = Some existing
     \<and> fs_file (pl_sink (pg_pipeline g)) = existing @ concat (concat (map event_blocks (pipe_events es)))"
proof -
  obtain sink existing where g0: "open_append (cfg_output_file config) = Some existing" "fs_file sink = existing"
    "g0 = wire config sink"
    using setup_running(2) [OF assms(1,2)] by blast
  have W: "cfg_window_ms config \<noteq> 0"
    using setup_running(1) [OF assms(1,2)] by (simp add: valid_config_def)
  note run = assms(3) [unfolded g0(3)]
  note pipe = program_run_projects [OF run, unfolded wire_def Program.simps]
  obtain gs where gs: "grouped (trade_key (cfg_window_ms config)) gs"
    "mset (flushed_windows (pipe_events es)) = mset (map (\<lambda>(k, b). summary k b) gs)"
    "group_items gs = mset (trades_of J (accepted_messages (pipe_events es)))"
    using stopped_conserves [OF pipe W program_exit(2,1) [OF run assms(4)]] by blast
  have "fs_file (pl_sink (pg_pipeline g)) = existing @ concat (concat (map event_blocks (pipe_events es)))"
    using file_sink.run_content [OF pipe assms(5)] g0(2)
    by (simp add: run_blocks_def MarketDataPipeline_new_def Let_def)
  with gs g0(1) program_exit(3) [OF run assms(4)] show ?thesis
    by auto
qed

theorem program_writes_every_received_trade_witness:
  "\<exists>es g gs. program_run sample_lib (\<lambda>s. 0) (FileOutputSink_write (\<lambda>_. length)) id numbered_codes
       (wire sample_loaded example_sink) es g
     \<and> pg_main g = MainExit \<and> length (flushed_windows (pipe_events es)) = 1
     \<and> grouped (trade_key 1000) gs \<and> group_items gs = {#sample_trade#}
     \<and> take 3 (fs_file (pl_sink (pg_pipeline g))) = ''old''"
proof -
  obtain es g where g: "program_run sample_lib (\<lambda>s. 0) (FileOutputSink_write (\<lambda>_. length)) id numbered_codes
      (wire sample_loaded example_sink) es g"
    "pg_main g = MainExit" "\<not> pl_terminated (pg_pipeline g)" "program_received es = [''raw'']"
    "length (flushed_windows (pipe_events es)) = 1"
    using example_program_state by blast
  have trades: "trades_of sample_lib (program_received es) = [sample_trade]"
    unfolding g(4) by (simp add: trade_of_def)
  have W: "cfg_window_ms sample_loaded = 1000"
    by (simp add: sample_loaded_def)
  obtain gs where gs: "grouped (trade_key 1000) gs" "group_items gs = {#sample_trade#}"
    "fs_file (pl_sink (pg_pipeline g)) = ''old'' @ concat (concat (map event_blocks (pipe_events es)))"
    using program_writes_every_received_trade [OF sample_lib_documented example_setup g(1-3)]
    unfolding trades W by auto
  have "take 3 (fs_file (pl_sink (pg_pipeline g))) = ''old''"
    unfolding gs(3) by simp
  with g gs(1,2) show ?thesis by blast
qed

text \<open>
  C2: what the program computes. Under the assumption that no trade reaches its shard after a
  periodic flush has gone beyond the trade's window, the windows a complete run of the program
  writes are those of the reference: the trades of all received messages grouped by symbol and
  window, one window for each group, with the statistics of the whole group. Nothing of it depends
  on the interleaving, the number of threads, the hash function, the sizes of the queues or the
  times of the flushes.
\<close>

theorem program_output_exact:
  assumes "json_documented J"
    and "main_setup J read_json read_file open_append max_shards argv = Running config g0"
    and "program_run J hash (FileOutputSink_write device) rnd E g0 es g"
    and "pg_main g = MainExit"
    and "punctual (length (pl_shards (pg_pipeline g))) (cfg_window_ms config) (pipe_events es)"
  shows "mset (flushed_windows (pipe_events es))
       = mset (reference_windows (cfg_window_ms config) (trades_of J (program_received es)))"
proof -
  obtain sink where g0: "g0 = wire config sink"
    using setup_running(2) [OF assms(1,2)] by blast
  have W: "cfg_window_ms config \<noteq> 0"
    using setup_running(1) [OF assms(1,2)] by (simp add: valid_config_def)
  note run = assms(3) [unfolded g0]
  note pipe = program_run_projects [OF run, unfolded wire_def Program.simps]
  from stopped_exact [OF pipe W program_exit(2,1) [OF run assms(4)] assms(5)] program_exit(3) [OF run assms(4)]
  show ?thesis by simp
qed

theorem program_output_exact_witness:
  "\<exists>es g. program_run sample_lib (\<lambda>s. 0) (FileOutputSink_write (\<lambda>_. length)) id numbered_codes
       (wire sample_loaded example_sink) es g
     \<and> pg_main g = MainExit
     \<and> mset (flushed_windows (pipe_events es)) = {#summary (trade_key 1000 sample_trade) [sample_trade]#}"
proof -
  obtain es g where g: "program_run sample_lib (\<lambda>s. 0) (FileOutputSink_write (\<lambda>_. length)) id numbered_codes
      (wire sample_loaded example_sink) es g"
    "pg_main g = MainExit" "program_received es = [''raw'']" "length (pl_shards (pg_pipeline g)) = 1"
    "shard_history 0 (pipe_events es) = [Add sample_trade, Drain None, Drain None]"
    using example_program_state by blast
  have punctual: "punctual (length (pl_shards (pg_pipeline g))) (cfg_window_ms sample_loaded) (pipe_events es)"
    unfolding punctual_def g(4) by (simp add: g(5))
  have "reference_windows (cfg_window_ms sample_loaded) (trades_of sample_lib (program_received es))
      = [summary (trade_key 1000 sample_trade) [sample_trade]]"
    unfolding g(3) by (simp add: trade_of_def reference_windows_def bucket_def sample_loaded_def)
  with program_output_exact [OF sample_lib_documented example_setup g(1,2) punctual] g(1,2) show ?thesis
    by auto
qed

lemma event_blocks_flushed: "map event_blocks es = map blocks (map flushed_by es)"
proof -
  have "event_blocks e = blocks (flushed_by e)" for e
    by (cases e) (simp_all add: blocks_def window_starts_def)
  then show ?thesis by simp
qed

lemma flushed_windows_batches: "flushed_windows es = concat (map flushed_by es)"
  by (induction es rule: rev_induct) (simp_all add: flushed_windows_def split: pipeline_event.split)

lemma summary_plain:
  assumes "grouped (trade_key W) gs" and "\<forall>t \<in># group_items gs. list_all field_char (te_symbol t)"
    and "mset ws = mset (map (\<lambda>(k, b). summary k b) gs)"
  shows "list_all plain_symbol ws"
proof -
  have "plain_symbol (summary k b)" if "(k, b) \<in> set gs" for k b
  proof -
    have "b \<noteq> []" "\<forall>t \<in> set b. trade_key W t = k"
      using assms(1) that by (auto simp: grouped_def)
    then obtain t where t: "t \<in> set b" "trade_key W t = k"
      using hd_in_set by blast
    then have "t \<in># group_items gs"
      using that by (force simp: group_items_def)
    with assms(2) t(2) show ?thesis
      by (auto simp: plain_symbol_def summary_def trade_key_def)
  qed
  moreover have "set ws = set (map (\<lambda>(k, b). summary k b) gs)"
    using assms(3) by (metis set_mset_mset)
  ultimately show ?thesis
    by (auto simp: list_all_iff)
qed

text \<open>
  C3: what a reader of the file finds. After a complete run, and if no symbol received contains a
  blank or a newline, the text the program has appended to its output file can be read back
  unambiguously, and what is read are the statistics of the trades received: one entry for each
  group of trades of one symbol and one window, the groups together being exactly the trades of the
  messages; when no trade came late, one entry for each window of the reference.
\<close>

theorem program_file_readable:
  assumes "json_documented J"
    and "main_setup J read_json read_file open_append max_shards argv = Running config g0"
    and "program_run J hash (FileOutputSink_write device) rnd E g0 es g"
    and "pg_main g = MainExit" and "\<not> pl_terminated (pg_pipeline g)"
    and "\<forall>t \<in> set (trades_of J (program_received es)). list_all field_char (te_symbol t)"
  shows "\<exists>existing text bs gs. open_append (cfg_output_file config) = Some existing
     \<and> fs_file (pl_sink (pg_pipeline g)) = existing @ text
     \<and> read_output text = Some bs
     \<and> grouped (trade_key (cfg_window_ms config)) gs
     \<and> group_items gs = mset (trades_of J (program_received es))
     \<and> mset (entries bs) = mset (map (\<lambda>(k, b). entry (summary k b)) gs)
     \<and> (punctual (length (pl_shards (pg_pipeline g))) (cfg_window_ms config) (pipe_events es) \<longrightarrow>
          mset (entries bs)
            = mset (map entry (reference_windows (cfg_window_ms config) (trades_of J (program_received es)))))"
proof -
  obtain sink existing where g0: "open_append (cfg_output_file config) = Some existing" "fs_file sink = existing"
    "g0 = wire config sink"
    using setup_running(2) [OF assms(1,2)] by blast
  have W: "cfg_window_ms config \<noteq> 0"
    using setup_running(1) [OF assms(1,2)] by (simp add: valid_config_def)
  note run = assms(3) [unfolded g0(3)]
  note pipe = program_run_projects [OF run, unfolded wire_def Program.simps]
  note exit = program_exit [OF run assms(4)]
  let ?ws = "flushed_windows (pipe_events es)"
  let ?batches = "map flushed_by (pipe_events es)"
  obtain gs where gs: "grouped (trade_key (cfg_window_ms config)) gs"
    "mset ?ws = mset (map (\<lambda>(k, b). summary k b) gs)"
    "group_items gs = mset (trades_of J (program_received es))"
    using stopped_conserves [OF pipe W exit(2,1)] exit(3) by auto
  have "list_all plain_symbol ?ws"
    by (rule summary_plain [OF gs(1) _ gs(2)]) (use gs(3) assms(6) in simp)
  then have "\<forall>ws \<in> set ?batches. list_all plain_symbol ws"
    by (auto simp: flushed_windows_batches list_all_iff)
  then obtain bs where bs: "read_output (concat (concat (map blocks ?batches))) = Some bs"
    "mset (entries bs) = mset (map entry ?ws)"
    unfolding flushed_windows_batches using batches_read by blast
  have "fs_file (pl_sink (pg_pipeline g)) = existing @ concat (concat (map blocks ?batches))"
    using file_sink.run_content [OF pipe assms(5)] g0(2) unfolding event_blocks_flushed [symmetric]
    by (simp add: run_blocks_def MarketDataPipeline_new_def Let_def)
  moreover have "mset (entries bs) = mset (map (\<lambda>(k, b). entry (summary k b)) gs)"
    unfolding bs(2) mset_map gs(2) by (simp add: image_mset.compositionality comp_def case_prod_unfold)
  moreover have "mset (entries bs)
      = mset (map entry (reference_windows (cfg_window_ms config) (trades_of J (program_received es))))"
    if "punctual (length (pl_shards (pg_pipeline g))) (cfg_window_ms config) (pipe_events es)"
    using stopped_exact [OF pipe W exit(2,1) that] exit(3) unfolding bs(2) mset_map by simp
  ultimately show ?thesis
    using g0(1) bs(1) gs(1,3) by blast
qed

theorem program_file_readable_witness:
  "\<exists>es g text bs. program_run sample_lib (\<lambda>s. 0) (FileOutputSink_write (\<lambda>_. length)) id numbered_codes
       (wire sample_loaded example_sink) es g
     \<and> pg_main g = MainExit \<and> fs_file (pl_sink (pg_pipeline g)) = ''old'' @ text
     \<and> read_output text = Some bs
     \<and> mset (entries bs) = {#entry (summary (trade_key 1000 sample_trade) [sample_trade])#}"
proof -
  obtain es g where g: "program_run sample_lib (\<lambda>s. 0) (FileOutputSink_write (\<lambda>_. length)) id numbered_codes
      (wire sample_loaded example_sink) es g"
    "pg_main g = MainExit" "\<not> pl_terminated (pg_pipeline g)" "program_received es = [''raw'']"
    "length (pl_shards (pg_pipeline g)) = 1"
    "shard_history 0 (pipe_events es) = [Add sample_trade, Drain None, Drain None]"
    using example_program_state by blast
  have trades: "trades_of sample_lib (program_received es) = [sample_trade]"
    unfolding g(4) by (simp add: trade_of_def)
  have plain: "\<forall>t \<in> set (trades_of sample_lib (program_received es)). list_all field_char (te_symbol t)"
    unfolding trades by (simp add: sample_trade_def field_char_def)
  have punctual: "punctual (length (pl_shards (pg_pipeline g))) (cfg_window_ms sample_loaded) (pipe_events es)"
    unfolding punctual_def g(5) by (simp add: g(6))
  have "reference_windows (cfg_window_ms sample_loaded) [sample_trade] = [summary (trade_key 1000 sample_trade) [sample_trade]]"
    by (simp add: reference_windows_def bucket_def sample_loaded_def)
  with program_file_readable [OF sample_lib_documented example_setup g(1-3) plain] punctual g(1,2) show ?thesis
    unfolding trades by (auto simp del: mset_map)
qed

text \<open>
  C8: the queue between network and pipeline refuses nothing. At every moment of every run of
  the program, the messages the pipeline has accepted are the messages received, in order, up to
  the one the network thread holds: the main thread stops the network before the pipeline, so the
  raw queue is never closed while a message can arrive.
\<close>

theorem program_accepts_every_message:
  assumes "program_run J hash put rnd E (wire config sink) es g"
  shows "program_received es = accepted_messages (pipe_events es) @ stage_hand (pg_network g)
     \<and> (bq_shutdown (pl_raw_queue (pg_pipeline g)) \<longrightarrow> ns_phase (pg_network g) = NetworkOff)"
proof -
  have "order_inv (pg_pipeline g)"
    using run_stages [OF program_run_projects [OF assms, unfolded wire_def Program.simps]]
    by (simp add: stages_inv_def)
  then have "bq_shutdown (pl_raw_queue (pg_pipeline g)) \<longrightarrow> pl_stopper (pg_pipeline g) \<noteq> StopIdle"
    by (simp add: order_inv_def)
  with run_program_inv [OF assms] program_messages [OF assms] show ?thesis
    by (auto simp: program_inv_def split: if_splits)
qed

theorem program_accepts_every_message_witness:
  "\<exists>es g. program_run sample_lib (\<lambda>s. 0) (FileOutputSink_write (\<lambda>_. length)) id numbered_codes
       (wire sample_loaded example_sink) es g
     \<and> accepted_messages (pipe_events es) @ stage_hand (pg_network g) = [''raw'']"
proof -
  obtain es g where g: "program_run sample_lib (\<lambda>s. 0) (FileOutputSink_write (\<lambda>_. length)) id numbered_codes
      (wire sample_loaded example_sink) es g" "program_received es = [''raw'']"
    using example_program_state by blast
  from program_accepts_every_message [OF g(1)] g show ?thesis by metis
qed

end
